(* ===== verification/Prelude.thy ===== *)
theory Prelude
  imports "HOL-Library.Multiset" "HOL-Library.Word"
begin

text \<open>
  Shared vocabulary of the development.

  \<^item> machine types: \<open>byte\<close>, \<open>addr\<close> (a \<open>uintptr_t\<close>), \<open>nullptr\<close>;
  \<^item> the undefined behaviours of the C++ code as values of \<open>fault\<close>, and the
    sequencing combinators \<open>sbind\<close> and \<open>sfold\<close> for code that may run into one;
  \<^item> \<open>deref\<close>, the read through a pointer;
  \<^item> multiset sums over the objects of a heap (\<open>msum\<close>) with their update laws: the
    arithmetic of the ownership invariant.
\<close>

named_theorems frame_simps \<open>fields an operation leaves alone\<close>
named_theorems core_intros \<open>an operation moves tasks between owners as its code says\<close>

section \<open>Machine types, faults and sequencing\<close>

type_synonym byte = "8 word"
type_synonym addr = "64 word"

abbreviation nullptr :: addr where
  "nullptr \<equiv> 0"

text \<open>
  What the C++ program must never do: read or write through a pointer to an object
  that is not alive (the null pointer is such a pointer), call \<open>uv_close\<close> on a handle
  that is closing already, use a member handle that is not initialised or was closed,
  run past the end of a buffer, throw out of the loop thread, overflow a signed integer, fail
  an \<open>assert\<close>.
\<close>

datatype fault =
    UseAfterFree addr
  | DoubleClose addr
  | BadHandle
  | BufferOverrun
  | LengthError
  | SignedOverflow
  | AssertionFailed

definition sbind :: "fault + 'a \<Rightarrow> ('a \<Rightarrow> fault + 'b) \<Rightarrow> fault + 'b" where
  "sbind m f = (case m of Inl e \<Rightarrow> Inl e | Inr x \<Rightarrow> f x)"

fun sfold :: "('x \<Rightarrow> 's \<Rightarrow> fault + 's) \<Rightarrow> 'x list \<Rightarrow> 's \<Rightarrow> fault + 's" where
  "sfold f [] s = Inr s"
| "sfold f (x # xs) s = sbind (f x s) (sfold f xs)"

definition deref :: "(addr \<rightharpoonup> 'a) \<Rightarrow> addr \<Rightarrow> fault + 'a" where
  "deref m a = (case m a of None \<Rightarrow> Inl (UseAfterFree a) | Some x \<Rightarrow> Inr x)"

lemma sbind_simps [simp]:
  "sbind (Inr x) f = f x"
  "sbind (Inl e) f = Inl e"
  by (simp_all add: sbind_def)

lemma sbind_eq_Inr: "sbind m f = Inr y \<longleftrightarrow> (\<exists>x. m = Inr x \<and> f x = Inr y)"
  by (cases m) simp_all

lemma sbind_Inr_E:
  assumes "sbind m f = Inr y"
  obtains x where "m = Inr x" and "f x = Inr y"
  using assms by (auto simp: sbind_eq_Inr)

lemma deref_Some [simp]: "m a = Some x \<Longrightarrow> deref m a = Inr x"
  by (simp add: deref_def)

lemma deref_None [simp]: "m a = None \<Longrightarrow> deref m a = Inl (UseAfterFree a)"
  by (simp add: deref_def)

lemma deref_eq_Inr [simp]: "deref m a = Inr x \<longleftrightarrow> m a = Some x"
  by (simp add: deref_def split: option.splits)

lemma sfold_append: "sfold f (xs @ ys) s = sbind (sfold f xs s) (sfold f ys)"
proof (induction xs arbitrary: s)
  case Nil
  show ?case by simp
next
  case (Cons x xs)
  then show ?case by (cases "f x s") simp_all
qed

text \<open>The loop rule: an invariant over the rest of the list still to be processed.\<close>

lemma sfold_invariant:
  assumes "P xs s"
    and "\<And>y ys s. P (y # ys) s \<Longrightarrow> \<exists>s'. f y s = Inr s' \<and> P ys s'"
  shows "\<exists>s'. sfold f xs s = Inr s' \<and> P [] s'"
  using assms(1)
proof (induction xs arbitrary: s)
  case Nil
  then show ?case by simp
next
  case (Cons x xs)
  from assms(2) [OF Cons.prems] obtain s1 where s1: "f x s = Inr s1" "P xs s1" by blast
  from Cons.IH [OF s1(2)] s1(1) show ?case by simp
qed

section \<open>Sums over the objects of a heap\<close>

definition msum :: "('a \<Rightarrow> 'b multiset) \<Rightarrow> (addr \<rightharpoonup> 'a) \<Rightarrow> 'b multiset" where
  "msum f m = (\<Sum>a\<in>dom m. f (the (m a)))"

definition opt_task :: "addr \<Rightarrow> addr multiset" where
  "opt_task a = (if a = nullptr then {#} else {#a#})"

lemma opt_task_simps [simp]:
  "opt_task 0 = {#}"
  "a \<noteq> 0 \<Longrightarrow> opt_task a = {#a#}"
  by (simp_all add: opt_task_def)

lemma msum_empty [simp]: "msum f Map.empty = {#}"
  by (simp add: msum_def)

lemma msum_split:
  assumes "finite (dom m)" and "m a = Some v"
  shows "msum f m = f v + msum f (m(a := None))"
proof -
  have d: "dom m = insert a (dom (m(a := None)))" using assms(2) by auto
  have "msum f m = f (the (m a)) + (\<Sum>b\<in>dom (m(a := None)). f (the (m b)))"
    unfolding msum_def by (subst d, subst sum.insert) (simp_all add: assms(1))
  also have "(\<Sum>b\<in>dom (m(a := None)). f (the (m b))) = msum f (m(a := None))"
    unfolding msum_def by (rule sum.cong) auto
  finally show ?thesis using assms(2) by simp
qed

lemma msum_new:
  assumes "finite (dom m)" and "m a = None"
  shows "msum f (m(a \<mapsto> v)) = f v + msum f m"
proof -
  have "msum f (m(a \<mapsto> v)) = f v + msum f ((m(a \<mapsto> v))(a := None))"
    by (rule msum_split) (simp_all add: assms(1))
  moreover have "m(a := None) = m" using assms(2) by auto
  ultimately show ?thesis by simp
qed

lemma msum_upd:
  assumes "finite (dom m)" and "m a = Some v"
  shows "f v + msum f (m(a \<mapsto> v')) = f v' + msum f m"
proof -
  have "msum f (m(a \<mapsto> v')) = f v' + msum f ((m(a \<mapsto> v'))(a := None))"
    by (rule msum_split) (simp_all add: assms(1))
  then show ?thesis using msum_split [OF assms, of f] by simp
qed

text \<open>An object update that keeps the object's share keeps the sum.\<close>

lemma msum_upd_same:
  assumes "finite (dom m)" and "m a = Some v" and "f v' = f v"
  shows "msum f (m(a \<mapsto> v')) = msum f m"
  using msum_upd [OF assms(1,2), of f v'] assms(3) by simp

lemma msum_delete:
  assumes "finite (dom m)" and "m a = Some v"
  shows "f v + msum f (m(a := None)) = msum f m"
  using msum_split [OF assms, of f] by simp

lemma msum_member:
  assumes "finite (dom m)" and "x \<in># msum f m"
  obtains a v where "m a = Some v" and "x \<in># f v"
proof -
  have "x \<in># (\<Sum>a\<in>dom m. f (the (m a)))" using assms(2) by (simp add: msum_def)
  then have "\<exists>a\<in>dom m. x \<in># f (the (m a))"
    using assms(1) by (simp add: set_mset_sum)
  then show ?thesis using that by auto
qed

lemma member_msum:
  assumes "finite (dom m)" and "m a = Some v" and "x \<in># f v"
  shows "x \<in># msum f m"
  using msum_split [OF assms(1,2), of f] assms(3) by simp

section \<open>Finite sets as multisets, and cardinalities\<close>

lemma mset_set_insert_new:
  "finite A \<Longrightarrow> a \<notin> A \<Longrightarrow> mset_set (insert a A) = add_mset a (mset_set A)"
  by simp

lemma mset_set_remove:
  "finite A \<Longrightarrow> a \<in> A \<Longrightarrow> add_mset a (mset_set (A - {a})) = mset_set A"
  by (metis finite_Diff insert_Diff Diff_iff insertI1 mset_set.insert)

lemma count_mset_set_le_1: "count (mset_set A) x \<le> 1"
  by (cases "finite A"; cases "x \<in> A") simp_all

lemma dom_upd_None [simp]: "dom (m(a := None)) = dom m - {a}"
  by auto

end
