(* ===== verification/Runtime_State.thy ===== *)
theory Runtime_State
  imports Prelude
begin

text \<open>
  The data of the C++ task runtime: the operation codes and the \<open>Task\<close> and
  \<open>CompletionQueue\<close> objects of \<^verbatim>\<open>task.hpp\<close>, the persistent loop handles of
  \<^verbatim>\<open>net.hpp\<close>, the members of \<open>Runtime\<close> (\<^verbatim>\<open>runtime.hpp\<close>) and the heap they live in.

  Objects are addressed by \<open>addr\<close>; one map per C++ type holds the live ones, so that
  \<open>delete\<close> is the removal from the map and a later access is a \<open>UseAfterFree\<close>.
  libuv is not part of the program: what it does at a call is a parameter
  (\<open>uv_env\<close>), and what the program has asked it to do later (the callbacks still to
  come) is recorded in \<open>uv_pending\<close> and in the \<open>uv_\<close> fields of the handles.
\<close>

section \<open>libuv constants and arguments\<close>

definition UV_EOF :: int where "UV_EOF = - 4095"
definition UV_ECANCELED :: int where "UV_ECANCELED = - 125"
definition UV_EBUSY :: int where "UV_EBUSY = - 16"
definition UV_EAI_NONAME :: int where "UV_EAI_NONAME = - 3008"

datatype uv_handle_type =
  UV_TTY | UV_NAMED_PIPE | UV_FILE | UV_TCP | UV_UDP | UV_UNKNOWN_HANDLE

text \<open>The address family of a name lookup's hints and of an entry of its answer.\<close>

datatype ai_family = AF_INET | AF_INET6 | AF_UNSPEC | AF_OTHER int

text \<open>
  Where the bytes of an I/O request live: inside a pinned Scheme bytevector, or in the
  \<open>buffer\<close> vector of a task.
\<close>

datatype iobuf = ExtBuf addr | TaskBuf addr

datatype fs_call =
    UvFsOpen string int int
  | UvFsRead int iobuf "32 word" int
  | UvFsWrite int iobuf "32 word" int
  | UvFsClose int
  | UvFsStat string
  | UvFsMkdir string int
  | UvFsRmdir string
  | UvFsUnlink string
  | UvFsRename string string
  | UvFsRealpath string
  | UvFsScandir string int

text \<open>Requests handed to libuv whose callback has not run yet.\<close>

datatype uv_req =
    TimerReq addr "64 word"
  | TimerClosing addr
  | FsReq addr fs_call
  | ConnectReq addr addr
  | WriteReq addr addr iobuf "32 word"
  | AddrReq addr string "string option" ai_family

datatype uv_stdio = CreatePipe bool addr | InheritFd int

record uv_process_options =
  po_file :: "byte list option"
  po_args :: "byte list list"
  po_env :: "byte list list option"
  po_cwd :: "string option"
  po_stdio :: "uv_stdio list"

record uv_stat =
  st_size :: "64 word"
  st_mtim_sec :: int
  st_mode :: "64 word"

text \<open>
  One call into the runtime sees one \<open>uv_env\<close>: the return values of the libuv calls it
  may make (for \<open>uv_tty_init\<close> also whether it got as far as initialising the handle), where Chez keeps the bytes of a bytevector, the addresses \<open>new\<close> returns
  (the k-th allocation of the call), the order
  in which an \<open>unordered_set\<close> is iterated and whether \<open>assert\<close> is compiled in.
\<close>

record uv_env =
  uv_ip4_addr :: "string \<Rightarrow> int \<Rightarrow> int \<times> byte list"
  uv_ip6_addr :: "string \<Rightarrow> int \<Rightarrow> int \<times> byte list"
  uv_tcp_connect :: "byte list \<Rightarrow> int"
  uv_tcp_bind :: "byte list \<Rightarrow> int"
  uv_listen :: "int \<Rightarrow> int"
  uv_accept :: int
  uv_read_start :: "addr \<Rightarrow> int"
  uv_write :: "addr \<Rightarrow> iobuf \<Rightarrow> 32 word \<Rightarrow> int"
  uv_fs :: "fs_call \<Rightarrow> int"
  uv_ip4_name :: "byte list \<Rightarrow> string"
  uv_ip6_name :: "byte list \<Rightarrow> string"
  uv_getaddrinfo :: "string \<Rightarrow> string option \<Rightarrow> ai_family \<Rightarrow> int"
  uv_spawn :: "uv_process_options \<Rightarrow> int"
  uv_process_kill :: "addr \<Rightarrow> int \<Rightarrow> int"
  uv_fs_event_start :: "string \<Rightarrow> int"
  uv_guess_handle :: "int \<Rightarrow> uv_handle_type"
  uv_tty_init :: "int \<Rightarrow> int \<times> bool"
  uv_pipe_init :: int
  uv_pipe_open :: "int \<Rightarrow> int"
  bytevector_data :: "addr \<Rightarrow> addr"
  new_addr :: "nat \<Rightarrow> addr"
  iter_order :: "addr list \<Rightarrow> addr list"
  ndebug :: bool

section \<open>Tasks and completion queues (task.hpp)\<close>

datatype Op =
    Timer
  | FsOpen | FsRead | FsWrite | FsClose | FsStat | FsMkdir | FsRmdir | FsUnlink
  | FsRename | FsRealpath | FsScandir
  | TcpConnect | TcpListen | TcpAccept
  | StreamRead | StreamWrite | StreamClose
  | ListenerClose
  | DnsResolve
  | ProcSpawn | ProcWait | ProcKill | ProcClose
  | FsWatchOpen | FsWatchNext | FsWatchClose
  | StdioOpen

record task =
  t_op :: Op
  t_timeout_ms :: "64 word"
  t_fd :: int
  t_offset :: int
  t_nbytes :: "32 word"
  t_path :: string
  t_flags :: int
  t_mode :: int
  t_port :: int
  t_backlog :: int
  t_signum :: int
  t_family :: int
  t_argc :: int
  t_envc :: int
  t_stdio_mode :: int
  t_buffer :: "byte list"
  t_pinned_obj :: addr
  t_ext_data :: addr
  t_env_buf :: "byte list"
  t_new_path :: string
  t_service :: string
  t_cwd :: string
  t_stream :: addr
  t_listener :: addr
  t_process :: addr
  t_watcher :: addr
  t_result :: int
  t_statbuf :: uv_stat
  t_str_out :: string
  t_names :: "string list"
  t_cq :: addr
  t_done :: bool

text \<open>The member initialisers of \<open>Task\<close> and its constructor.\<close>

definition Task_ctor :: "Op \<Rightarrow> task" where
  "Task_ctor op = \<lparr>
     t_op = op, t_timeout_ms = 0, t_fd = - 1, t_offset = - 1, t_nbytes = 0, t_path = [],
     t_flags = 0, t_mode = 0, t_port = 0, t_backlog = 0, t_signum = 0, t_family = 0,
     t_argc = 0, t_envc = - 1, t_stdio_mode = 0, t_buffer = [], t_pinned_obj = nullptr,
     t_ext_data = nullptr, t_env_buf = [], t_new_path = [], t_service = [], t_cwd = [],
     t_stream = nullptr, t_listener = nullptr, t_process = nullptr, t_watcher = nullptr,
     t_result = 0, t_statbuf = \<lparr>st_size = 0, st_mtim_sec = 0, st_mode = 0\<rparr>,
     t_str_out = [], t_names = [], t_cq = nullptr, t_done = False\<rparr>"

record completion_queue =
  cq_q :: "addr list"
  cq_refs :: int

definition CompletionQueue_ctor :: completion_queue where
  "CompletionQueue_ctor = \<lparr>cq_q = [], cq_refs = 1\<rparr>"

section \<open>Persistent loop handles (net.hpp)\<close>

text \<open>
  \<open>uv_closing\<close> is libuv's own flag of the embedded handle, set by \<open>uv_close\<close>; the
  close callback is still to come as long as a closing object is alive.
\<close>

record loop_handle =
  close_task :: addr
  uv_closing :: bool

record stream_obj = loop_handle +
  s_read_queue :: "addr list"
  s_read_active :: bool
  uv_reading :: bool

record listener_obj = loop_handle +
  l_accepted :: "addr list"
  l_pending_accepts :: "addr list"

record process_obj = loop_handle +
  p_exited :: bool
  p_exit_status :: int
  p_term_signal :: int
  p_stdin_s :: addr
  p_stdout_s :: addr
  p_stderr_s :: addr
  p_wait_task :: addr

record watcher_obj = loop_handle +
  w_events :: "(string \<times> int) list"
  w_pending_next :: addr

definition Stream_ctor :: stream_obj where
  "Stream_ctor = \<lparr>close_task = nullptr, uv_closing = False,
     s_read_queue = [], s_read_active = False, uv_reading = False\<rparr>"

definition Listener_ctor :: listener_obj where
  "Listener_ctor = \<lparr>close_task = nullptr, uv_closing = False,
     l_accepted = [], l_pending_accepts = []\<rparr>"

definition Process_ctor :: process_obj where
  "Process_ctor = \<lparr>close_task = nullptr, uv_closing = False,
     p_exited = False, p_exit_status = 0, p_term_signal = 0,
     p_stdin_s = nullptr, p_stdout_s = nullptr, p_stderr_s = nullptr,
     p_wait_task = nullptr\<rparr>"

definition Watcher_ctor :: watcher_obj where
  "Watcher_ctor = \<lparr>close_task = nullptr, uv_closing = False,
     w_events = [], w_pending_next = nullptr\<rparr>"

section \<open>The runtime and its heap (runtime.hpp)\<close>

text \<open>The types that derive from \<open>Counted\<close>, each with its own live-instance counter.\<close>

datatype counted =
  CTask | CCompletionQueue | CStream | CListener | CProcess | CWatcher

text \<open>The libuv handles that are members of \<open>Runtime\<close>.\<close>

datatype uvh = Uninit | Active | Closed

text \<open>
  Two fields are not members of the class: \<open>uv_pending\<close>, the requests libuv has accepted and
  not called back yet, and \<open>uv_refused\<close>, a history of the file requests libuv has refused
  (the task and the call), which the code does not notice and libuv never calls back.
\<close>

record runtime =
  h_tasks :: "addr \<rightharpoonup> task"
  h_cqs :: "addr \<rightharpoonup> completion_queue"
  h_streams :: "addr \<rightharpoonup> stream_obj"
  h_listeners :: "addr \<rightharpoonup> listener_obj"
  h_processes :: "addr \<rightharpoonup> process_obj"
  h_watchers :: "addr \<rightharpoonup> watcher_obj"
  live :: "counted \<Rightarrow> int"
  locked :: "addr multiset"
  ext_mem :: "addr \<Rightarrow> byte"
  queue :: "addr list"
  running :: bool
  stopping :: bool
  exit_on_signal :: bool
  listeners :: "addr list"
  reading_streams :: "addr list"
  async :: uvh
  async_sent :: bool
  sig_int :: uvh
  sig_term :: uvh
  shutdown_timer :: uvh
  shutdown_timer_due :: "32 word"
  shutdown_timer_started :: bool
  shutdown_signum :: int
  shutdown_signaled :: bool
  shutdown_timeout_ms :: "32 word"
  uv_pending :: "uv_req list"
  uv_refused :: "(addr \<times> fs_call) list"
  exit_code :: "int option"

text \<open>The process before \<open>rt_runtime_start\<close>: the singleton's member initialisers.\<close>

definition runtime_init :: runtime where
  "runtime_init = \<lparr>
     h_tasks = Map.empty, h_cqs = Map.empty, h_streams = Map.empty,
     h_listeners = Map.empty, h_processes = Map.empty, h_watchers = Map.empty,
     live = (\<lambda>_. 0), locked = {#}, ext_mem = (\<lambda>_. 0),
     queue = [], running = False, stopping = False, exit_on_signal = False,
     listeners = [], reading_streams = [],
     async = Uninit, async_sent = False, sig_int = Uninit, sig_term = Uninit,
     shutdown_timer = Uninit, shutdown_timer_due = 0, shutdown_timer_started = False,
     shutdown_signum = 0, shutdown_signaled = False, shutdown_timeout_ms = 30000,
     uv_pending = [], uv_refused = [], exit_code = None\<rparr>"

section \<open>Counted\<close>

definition Counted_ctor :: "counted \<Rightarrow> runtime \<Rightarrow> runtime" where
  "Counted_ctor k s = s\<lparr>live := (live s)(k := live s k + 1)\<rparr>"

definition Counted_dtor :: "counted \<Rightarrow> runtime \<Rightarrow> runtime" where
  "Counted_dtor k s = s\<lparr>live := (live s)(k := live s k - 1)\<rparr>"

section \<open>Results and sets\<close>

text \<open>\<open>as_result\<close>: a pointer seen as a signed 64-bit integer.\<close>

definition as_result :: "addr \<Rightarrow> int" where
  "as_result p = sint p"

definition us_insert :: "addr \<Rightarrow> addr list \<Rightarrow> addr list" where
  "us_insert x xs = (if x \<in> set xs then xs else xs @ [x])"

definition us_erase :: "addr \<Rightarrow> addr list \<Rightarrow> addr list" where
  "us_erase x xs = removeAll x xs"

lemma set_us_insert [simp]: "set (us_insert x xs) = insert x (set xs)"
  by (auto simp: us_insert_def)

lemma set_us_erase [simp]: "set (us_erase x xs) = set xs - {x}"
  by (simp add: us_erase_def)

lemma distinct_us_insert [simp]: "distinct xs \<Longrightarrow> distinct (us_insert x xs)"
  by (simp add: us_insert_def)

lemma distinct_us_erase [simp]: "distinct xs \<Longrightarrow> distinct (us_erase x xs)"
  by (simp add: us_erase_def distinct_removeAll)

text \<open>The constants are error codes: negative, and told apart.\<close>

lemma uv_codes_negative [simp]:
  "UV_EOF < 0" "UV_ECANCELED < 0" "UV_EBUSY < 0" "UV_EAI_NONAME < 0"
  by (simp_all add: UV_EOF_def UV_ECANCELED_def UV_EBUSY_def UV_EAI_NONAME_def)

lemma Counted_frame [simp]:
  "h_tasks (Counted_ctor k s) = h_tasks s" "h_tasks (Counted_dtor k s) = h_tasks s"
  "h_cqs (Counted_ctor k s) = h_cqs s" "h_cqs (Counted_dtor k s) = h_cqs s"
  "h_streams (Counted_ctor k s) = h_streams s" "h_streams (Counted_dtor k s) = h_streams s"
  "h_listeners (Counted_ctor k s) = h_listeners s"
  "h_listeners (Counted_dtor k s) = h_listeners s"
  "h_processes (Counted_ctor k s) = h_processes s"
  "h_processes (Counted_dtor k s) = h_processes s"
  "h_watchers (Counted_ctor k s) = h_watchers s"
  "h_watchers (Counted_dtor k s) = h_watchers s"
  "live (Counted_ctor k s) = (live s)(k := live s k + 1)"
  "live (Counted_dtor k s) = (live s)(k := live s k - 1)"
  by (simp_all add: Counted_ctor_def Counted_dtor_def)

end
