(* ===== verification/Ownership.thy ===== *)
theory Ownership
  imports Runtime_State
begin

text \<open>
  Who owns a task. A task that has been submitted and is not completed must sit in
  exactly one place: the submission queue, a libuv request still to call back, the
  read queue of a stream, the accept queue of a listener, the wait slot of a process,
  the next slot of a watcher, the close slot of a closing handle, or a local variable
  of the loop thread. \<open>core L s\<close> says so for a state \<open>s\<close> whose loop thread holds the
  tasks \<open>L\<close> in its locals, together with the reference counts of the completion
  queues, the live-instance counters and the locks on pinned bytevectors.

  The one exception are the file requests libuv has refused (\<open>refused\<close>): the code
  drops their tasks. A task in no place never completes (its awaiter hangs); a task in two places
  would complete twice (its completion queue loses a reference it does not own).

  The locale \<open>handle_heap\<close> is the interface of a heap of objects that hold tasks: the
  update law every component uses is proved in it once and interpreted for the four
  handle types.
\<close>

section \<open>Definitions\<close>

definition undone :: "(addr \<rightharpoonup> task) \<Rightarrow> addr set" where
  "undone m = {t. \<exists>tk. m t = Some tk \<and> \<not> t_done tk}"

fun req_task :: "uv_req \<Rightarrow> addr" where
  "req_task (TimerReq t ms) = t"
| "req_task (TimerClosing t) = t"
| "req_task (FsReq t c) = t"
| "req_task (ConnectReq t x) = t"
| "req_task (WriteReq t x b n) = t"
| "req_task (AddrReq t n v f) = t"

definition stream_held :: "stream_obj \<Rightarrow> addr multiset" where
  "stream_held st = mset (s_read_queue st) + opt_task (close_task st)"

definition listener_held :: "listener_obj \<Rightarrow> addr multiset" where
  "listener_held l = mset (l_pending_accepts l) + opt_task (close_task l)"

definition process_held :: "process_obj \<Rightarrow> addr multiset" where
  "process_held p = opt_task (p_wait_task p) + opt_task (close_task p)"

definition watcher_held :: "watcher_obj \<Rightarrow> addr multiset" where
  "watcher_held w = opt_task (w_pending_next w) + opt_task (close_task w)"

definition held :: "runtime \<Rightarrow> addr multiset" where
  "held s = mset (queue s) + image_mset req_task (mset (uv_pending s))
     + msum stream_held (h_streams s) + msum listener_held (h_listeners s)
     + msum process_held (h_processes s) + msum watcher_held (h_watchers s)"

text \<open>The tasks whose file request libuv refused: nothing holds them.\<close>

definition refused :: "runtime \<Rightarrow> addr multiset" where
  "refused s = mset (map fst (uv_refused s))"

definition cq_users :: "(addr \<rightharpoonup> task) \<Rightarrow> addr \<Rightarrow> addr set" where
  "cq_users m q = {t \<in> undone m. t_cq (the (m t)) = q}"

text \<open>
  A queue has one reference per uncompleted task routed to it, plus the creator's as
  long as \<open>rt_cq_free\<close> has not dropped it; a queue with no reference is gone.
\<close>

definition refs_ok :: "(addr \<rightharpoonup> task) \<Rightarrow> (addr \<rightharpoonup> completion_queue) \<Rightarrow> bool" where
  "refs_ok m cs \<longleftrightarrow> (\<forall>q. q \<noteq> nullptr \<longrightarrow>
     (cs q = None \<longrightarrow> cq_users m q = {}) \<and>
     (\<forall>c. cs q = Some c \<longrightarrow> 0 < cq_refs c \<and> int (card (cq_users m q)) \<le> cq_refs c
        \<and> cq_refs c \<le> int (card (cq_users m q)) + 1))"

definition heap_ok :: "(addr \<rightharpoonup> 'a) \<Rightarrow> int \<Rightarrow> bool" where
  "heap_ok m n \<longleftrightarrow> finite (dom m) \<and> m nullptr = None \<and> n = int (card (dom m))"

definition heaps_ok :: "runtime \<Rightarrow> bool" where
  "heaps_ok s \<longleftrightarrow>
     heap_ok (h_tasks s) (live s CTask) \<and> heap_ok (h_cqs s) (live s CCompletionQueue)
     \<and> heap_ok (h_streams s) (live s CStream) \<and> heap_ok (h_listeners s) (live s CListener)
     \<and> heap_ok (h_processes s) (live s CProcess) \<and> heap_ok (h_watchers s) (live s CWatcher)"

definition locks_of :: "(addr \<rightharpoonup> task) \<Rightarrow> addr multiset" where
  "locks_of m = msum (\<lambda>tk. opt_task (t_pinned_obj tk)) m"

definition core :: "addr multiset \<Rightarrow> runtime \<Rightarrow> bool" where
  "core L s \<longleftrightarrow> heaps_ok s \<and> refs_ok (h_tasks s) (h_cqs s)
     \<and> locked s = locks_of (h_tasks s) \<and> held s + refused s + L = mset_set (undone (h_tasks s))"

section \<open>First consequences\<close>

lemma core_finite:
  assumes "core L s"
  shows "finite (dom (h_tasks s))" "finite (dom (h_cqs s))" "finite (dom (h_streams s))"
    "finite (dom (h_listeners s))" "finite (dom (h_processes s))"
    "finite (dom (h_watchers s))"
  using assms by (simp_all add: core_def heaps_ok_def heap_ok_def)

lemma undone_subset: "undone m \<subseteq> dom m"
  by (auto simp: undone_def)

lemma core_finite_undone: "core L s \<Longrightarrow> finite (undone (h_tasks s))"
  using core_finite(1) finite_subset [OF undone_subset] by blast

lemma core_member_undone:
  assumes "core L s" and "t \<in># held s + L"
  shows "t \<in> undone (h_tasks s)"
proof -
  have "t \<in># held s + refused s + L" using assms(2) by auto
  moreover have "held s + refused s + L = mset_set (undone (h_tasks s))" using assms(1) by (simp add: core_def)
  ultimately have "t \<in># mset_set (undone (h_tasks s))" by (simp only:)
  then show ?thesis using core_finite_undone [OF assms(1)] by simp
qed

lemma core_local_task:
  assumes "core (add_mset t L) s"
  obtains tk where "h_tasks s t = Some tk" and "\<not> t_done tk"
  using core_member_undone [OF assms, of t] that by (auto simp: undone_def)

text \<open>A task a local variable owns is held nowhere else, and only once.\<close>

lemma core_refused_once:
  assumes "core L s"
  shows "count (held s + L) t + count (refused s) t \<le> 1"
proof -
  have "count (held s + refused s + L) t \<le> 1"
    using assms count_mset_set_le_1 [of "undone (h_tasks s)" t] by (simp add: core_def)
  then show ?thesis by simp
qed

lemma core_once:
  assumes "core L s"
  shows "count (held s + L) t \<le> 1"
  using core_refused_once [OF assms, of t] by simp

text \<open>An uncompleted task is somewhere, or was refused.\<close>

lemma core_placed:
  assumes "core {#} s" and "t \<in> undone (h_tasks s)"
  shows "t \<in># held s \<or> t \<in># refused s"
proof -
  have "held s + refused s = mset_set (undone (h_tasks s))" using assms(1) by (simp add: core_def)
  moreover have "t \<in># mset_set (undone (h_tasks s))" using assms core_finite_undone by simp
  ultimately have "t \<in># held s + refused s" by simp
  then show ?thesis by simp
qed

lemma core_unique:
  assumes "core (add_mset t L) s"
  shows "t \<notin># held s" and "t \<notin># L"
  using core_once [OF assms, of t] by (auto simp: not_in_iff)

lemma core_nonnull:
  assumes "core L s" and "t \<in># held s + L"
  shows "t \<noteq> nullptr"
  using core_member_undone [OF assms] assms(1)
  by (auto simp: undone_def core_def heaps_ok_def heap_ok_def)

lemma core_local_nonnull: "core (add_mset t L) s \<Longrightarrow> t \<noteq> 0"
  by (erule core_nonnull) simp

text \<open>
  The ownership part looks at the heaps, the counters, the queue and the requests only;
  every other field may change freely.
\<close>

lemma core_cong:
  assumes "core L s"
    and "h_tasks s' = h_tasks s" "h_cqs s' = h_cqs s" "h_streams s' = h_streams s"
    and "h_listeners s' = h_listeners s" "h_processes s' = h_processes s"
    and "h_watchers s' = h_watchers s" "live s' = live s" "locked s' = locked s"
    and "queue s' = queue s" "uv_pending s' = uv_pending s" "uv_refused s' = uv_refused s"
  shows "core L s'"
  using assms
  by (simp add: core_def heaps_ok_def held_def refused_def)

text \<open>Moving tasks between a local variable and the submission queue or a request.\<close>

lemma core_queue_upd:
  assumes "core L s" and "mset (queue s) + L = mset ts + L'"
  shows "core L' (s\<lparr>queue := ts\<rparr>)"
proof -
  have "held (s\<lparr>queue := ts\<rparr>) + refused (s\<lparr>queue := ts\<rparr>) + L' = held s + refused s + L"
    using assms(2) by (simp add: held_def refused_def ac_simps)
  then show ?thesis using assms(1)
    by (simp add: core_def heaps_ok_def)
qed

lemma core_pending_upd:
  assumes "core L s"
    and "image_mset req_task (mset (uv_pending s)) + L = image_mset req_task (mset rs) + L'"
  shows "core L' (s\<lparr>uv_pending := rs\<rparr>)"
proof -
  have "held (s\<lparr>uv_pending := rs\<rparr>) + refused (s\<lparr>uv_pending := rs\<rparr>) + L' = held s + refused s + L"
    using assms(2) by (simp add: held_def refused_def ac_simps)
  then show ?thesis using assms(1)
    by (simp add: core_def heaps_ok_def)
qed

text \<open>A file request that libuv refuses: its task leaves the locals and is nowhere.\<close>

lemma core_refuse:
  assumes "core (add_mset t L) s"
  shows "core L (s\<lparr>uv_refused := uv_refused s @ [(t, call)]\<rparr>)"
  using assms by (simp add: core_def heaps_ok_def held_def refused_def ac_simps)

text \<open>Updating, allocating and deleting an object keep a heap and its counter in step.\<close>

lemma heap_ok_upd: "heap_ok m n \<Longrightarrow> m a = Some h \<Longrightarrow> heap_ok (m(a \<mapsto> h')) n"
proof -
  assume ok: "heap_ok m n" and o: "m a = Some h"
  have "dom (m(a \<mapsto> h')) = dom m" using o by auto
  then show ?thesis using ok o by (auto simp: heap_ok_def)
qed

lemma heap_ok_new: "heap_ok m n \<Longrightarrow> m a = None \<Longrightarrow> a \<noteq> 0 \<Longrightarrow> heap_ok (m(a \<mapsto> h)) (n + 1)"
proof -
  assume ok: "heap_ok m n" and o: "m a = None" "a \<noteq> 0"
  have "dom (m(a \<mapsto> h)) = insert a (dom m)" "a \<notin> dom m" using o by auto
  then show ?thesis using ok o by (simp add: heap_ok_def)
qed

lemma heap_ok_delete: "heap_ok m n \<Longrightarrow> m a = Some h \<Longrightarrow> heap_ok (m(a := None)) (n - 1)"
proof -
  assume ok: "heap_ok m n" and o: "m a = Some h"
  then have "card (dom m) > 0" by (auto simp: card_gt_0_iff heap_ok_def)
  moreover have "a \<in> dom m" using o by auto
  ultimately show ?thesis using ok by (auto simp: heap_ok_def card_Diff_singleton of_nat_diff)
qed

section \<open>The interface of a heap of task holders\<close>

locale handle_heap =
  fixes get :: "runtime \<Rightarrow> (addr \<rightharpoonup> 'h)"
    and upd :: "((addr \<rightharpoonup> 'h) \<Rightarrow> (addr \<rightharpoonup> 'h)) \<Rightarrow> runtime \<Rightarrow> runtime"
    and share :: "'h \<Rightarrow> addr multiset"
    and kind :: counted
  assumes get_upd: "get (upd f s) = f (get s)"
    and tasks_upd: "h_tasks (upd f s) = h_tasks s" "h_cqs (upd f s) = h_cqs s"
      "live (upd f s) = live s" "locked (upd f s) = locked s" "uv_refused (upd f s) = uv_refused s"
    and held_upd: "held (upd f s) + msum share (get s) = held s + msum share (f (get s))"
    and heaps_upd: "heaps_ok s \<Longrightarrow> heap_ok (f (get s)) n \<Longrightarrow>
      heaps_ok ((upd f s)\<lparr>live := (live s)(kind := n)\<rparr>)"
    and heap_get: "heaps_ok s \<Longrightarrow> heap_ok (get s) (live s kind)"
    and kind_upd: "upd f (s\<lparr>live := c\<rparr>) = (upd f s)\<lparr>live := c\<rparr>"
begin

lemmas upd_simps = get_upd tasks_upd

text \<open>What an object holds is owed a completion.\<close>

lemma share_held:
  assumes "finite (dom (get s))" and "get s a = Some h"
  shows "share h \<subseteq># held s"
proof -
  have "held s = held (upd (\<lambda>_. Map.empty) s) + msum share (get s)" using held_upd [of "\<lambda>_. Map.empty" s] by simp
  then have "msum share (get s) \<subseteq># held s" by simp
  moreover have "share h \<subseteq># msum share (get s)" using msum_split [OF assms, of share] by simp
  ultimately show ?thesis by (rule subset_mset.order_trans [rotated])
qed

lemma finite_get: "core L s \<Longrightarrow> finite (dom (get s))"
  using heap_get by (auto simp: core_def heap_ok_def)

lemma core_heap_upd:
  assumes "core L s" and "heap_ok (f (get s)) n"
    and "msum share (get s) + L = msum share (f (get s)) + L'"
  shows "core L' ((upd f s)\<lparr>live := (live s)(kind := n)\<rparr>)" (is "core L' ?s'")
proof -
  have h: "held ?s' = held (upd f s)" by (simp add: held_def)
  have r: "refused ?s' = refused s" by (simp add: refused_def upd_simps)
  have "held (upd f s) + L' + msum share (get s) = held s + L + msum share (get s)"
    using held_upd [of f s] assms(3) by (metis (no_types, lifting) add.assoc add.commute)
  then have "held ?s' + L' = held s + L" using h by simp
  then have "held ?s' + refused ?s' + L' = held s + refused s + L"
    unfolding r by (metis (no_types, lifting) add.assoc add.commute)
  then show ?thesis
    using assms(1) heaps_upd [of s f n] assms(2) by (simp add: core_def upd_simps)
qed

lemma share_undone:
  assumes c: "core L s" and "get s a = Some h"
  shows "set_mset (share h) \<subseteq> undone (h_tasks s)"
  using mset_subset_eqD [OF share_held [OF finite_get [OF c] assms(2)]] core_member_undone [OF c] by fastforce

text \<open>An object changes what it holds: the difference moves from or to the locals.\<close>

lemma core_obj_upd:
  assumes c: "core L s" and o: "get s a = Some h" and sh: "share h + L = share h' + L'"
  shows "core L' (upd (\<lambda>_. (get s)(a \<mapsto> h')) s)"
proof -
  let ?f = "\<lambda>_. (get s)(a \<mapsto> h')"
  have ok: "heap_ok (get s) (live s kind)" using c heap_get by (simp add: core_def)
  then have fin: "finite (dom (get s))" by (simp add: heap_ok_def)
  have ok': "heap_ok (?f (get s)) (live s kind)"
    using ok o by (rule heap_ok_upd)
  have "share h + msum share (?f (get s)) = share h' + msum share (get s)"
    using msum_upd [OF fin o] .
  then have "msum share (get s) + L + (share h + share h')
      = msum share (?f (get s)) + L' + (share h + share h')"
    using sh by (metis (no_types, lifting) add.assoc add.commute)
  then have "msum share (get s) + L = msum share (?f (get s)) + L'" by simp
  then have "core L' ((upd ?f s)\<lparr>live := live s\<rparr>)"
    using core_heap_upd [OF c, of ?f "live s kind" L'] ok' by simp
  then show ?thesis by (rule core_cong) (simp_all add: upd_simps)
qed

text \<open>Allocation of an object that holds nothing yet.\<close>

lemma core_obj_new:
  assumes c: "core L s" and fresh: "get s a = None" "a \<noteq> 0" and sh: "share h = {#}"
  shows "core L ((upd (\<lambda>_. (get s)(a \<mapsto> h)) s)\<lparr>live := (live s)(kind := live s kind + 1)\<rparr>)"
proof (rule core_heap_upd [OF c])
  have ok: "heap_ok (get s) (live s kind)" using c heap_get by (simp add: core_def)
  then show "heap_ok ((get s)(a \<mapsto> h)) (live s kind + 1)"
    using fresh by (rule heap_ok_new)
  show "msum share (get s) + L = msum share ((get s)(a \<mapsto> h)) + L"
    using msum_new [of "get s" a share h] ok fresh sh by (simp add: heap_ok_def)
qed

text \<open>\<open>delete\<close>: what the object held goes back to the locals.\<close>

lemma core_obj_delete:
  assumes c: "core L s" and o: "get s a = Some h"
  shows "core (share h + L)
    ((upd (\<lambda>_. (get s)(a := None)) s)\<lparr>live := (live s)(kind := live s kind - 1)\<rparr>)"
proof (rule core_heap_upd [OF c])
  have ok: "heap_ok (get s) (live s kind)" using c heap_get by (simp add: core_def)
  then have fin: "finite (dom (get s))" by (simp add: heap_ok_def)
  show "heap_ok ((get s)(a := None)) (live s kind - 1)"
    using ok o by (rule heap_ok_delete)
  show "msum share (get s) + L = msum share ((get s)(a := None)) + (share h + L)"
    using msum_delete [OF fin o, of share] by (metis add.assoc add.commute)
qed

end

interpretation stream_heap: handle_heap h_streams h_streams_update stream_held CStream
  by unfold_locales (simp_all add: held_def heaps_ok_def)

interpretation listener_heap: handle_heap h_listeners h_listeners_update listener_held CListener
  by unfold_locales (simp_all add: held_def heaps_ok_def)

interpretation process_heap: handle_heap h_processes h_processes_update process_held CProcess
  by unfold_locales (simp_all add: held_def heaps_ok_def)

interpretation watcher_heap: handle_heap h_watchers h_watchers_update watcher_held CWatcher
  by unfold_locales (simp_all add: held_def heaps_ok_def)

end
