(* ===== verification/Completion.thy ===== *)
theory Completion
  imports Ownership
begin

text \<open>
  Completion (\<^verbatim>\<open>task.hpp\<close>): the operations of \<open>CompletionQueue\<close> (\<open>Retain\<close>,
  \<open>Release\<close>, \<open>Post\<close>, \<open>WaitOne\<close>, \<open>TryPop\<close>), and \<open>Task::Complete\<close> and
  \<open>Task::Wait\<close>. The two blocking operations return \<open>None\<close> where the caller would
  still sleep on its condition variable.

  The lemmas show that completing a task the loop thread owns never faults, takes the
  task out of the ownership account and drops exactly the reference it held on its
  queue, and that a queue hands tasks out in the order they completed.
\<close>

section \<open>The queue\<close>

definition CompletionQueue_Post :: "addr \<Rightarrow> completion_queue \<Rightarrow> completion_queue" where
  "CompletionQueue_Post t c = c\<lparr>cq_q := cq_q c @ [t]\<rparr>"

definition CompletionQueue_pop :: "completion_queue \<Rightarrow> (addr \<times> completion_queue) option" where
  "CompletionQueue_pop c =
     (case cq_q c of [] \<Rightarrow> None | t # ts \<Rightarrow> Some (t, c\<lparr>cq_q := ts\<rparr>))"

definition Retain :: "addr \<Rightarrow> runtime \<Rightarrow> fault + runtime" where
  "Retain q s = sbind (deref (h_cqs s) q) (\<lambda>c.
     Inr (s\<lparr>h_cqs := (h_cqs s)(q \<mapsto> c\<lparr>cq_refs := cq_refs c + 1\<rparr>)\<rparr>))"

definition Release :: "addr \<Rightarrow> runtime \<Rightarrow> fault + runtime" where
  "Release q s = sbind (deref (h_cqs s) q) (\<lambda>c.
     if cq_refs c = 1
     then Inr (Counted_dtor CCompletionQueue (s\<lparr>h_cqs := (h_cqs s)(q := None)\<rparr>))
     else Inr (s\<lparr>h_cqs := (h_cqs s)(q \<mapsto> c\<lparr>cq_refs := cq_refs c - 1\<rparr>)\<rparr>))"

definition Post :: "addr \<Rightarrow> addr \<Rightarrow> runtime \<Rightarrow> fault + runtime" where
  "Post q t s = sbind (deref (h_cqs s) q) (\<lambda>c.
     Inr (s\<lparr>h_cqs := (h_cqs s)(q \<mapsto> CompletionQueue_Post t c)\<rparr>))"

definition WaitOne :: "addr \<Rightarrow> runtime \<Rightarrow> fault + (addr option \<times> runtime)" where
  "WaitOne q s = sbind (deref (h_cqs s) q) (\<lambda>c.
     case CompletionQueue_pop c of
       None \<Rightarrow> Inr (None, s)
     | Some (t, c') \<Rightarrow> Inr (Some t, s\<lparr>h_cqs := (h_cqs s)(q \<mapsto> c')\<rparr>))"

definition TryPop :: "addr \<Rightarrow> runtime \<Rightarrow> fault + (addr \<times> runtime)" where
  "TryPop q s = sbind (deref (h_cqs s) q) (\<lambda>c.
     case CompletionQueue_pop c of
       None \<Rightarrow> Inr (nullptr, s)
     | Some (t, c') \<Rightarrow> Inr (t, s\<lparr>h_cqs := (h_cqs s)(q \<mapsto> c')\<rparr>))"

section \<open>The task\<close>

definition completed :: "int \<Rightarrow> task \<Rightarrow> task" where
  "completed r tk = tk\<lparr>t_result := r, t_done := True\<rparr>"

definition Complete :: "addr \<Rightarrow> int \<Rightarrow> runtime \<Rightarrow> fault + runtime" where
  "Complete t r s = sbind (deref (h_tasks s) t) (\<lambda>tk.
     let q = t_cq tk;
         s1 = s\<lparr>h_tasks := (h_tasks s)(t \<mapsto> completed r tk)\<rparr>
     in if q \<noteq> nullptr then sbind (Post q t s1) (Release q) else Inr s1)"

definition Wait :: "addr \<Rightarrow> runtime \<Rightarrow> fault + unit option" where
  "Wait t s = sbind (deref (h_tasks s) t) (\<lambda>tk. Inr (if t_done tk then Some () else None))"

text \<open>The effect of completing some tasks with one result on the task heap.\<close>

definition done_with :: "addr list \<Rightarrow> int \<Rightarrow> (addr \<rightharpoonup> task) \<Rightarrow> (addr \<rightharpoonup> task)" where
  "done_with ps r m = (\<lambda>p. if p \<in> set ps then map_option (completed r) (m p) else m p)"

text \<open>A state that differs in tasks, completion queues and the live counters only.\<close>

definition same_handles :: "runtime \<Rightarrow> runtime \<Rightarrow> bool" where
  "same_handles s s' \<longleftrightarrow>
     h_streams s' = h_streams s \<and> h_listeners s' = h_listeners s \<and> h_processes s' = h_processes s
     \<and> h_watchers s' = h_watchers s \<and> locked s' = locked s \<and> ext_mem s' = ext_mem s
     \<and> queue s' = queue s \<and> running s' = running s \<and> stopping s' = stopping s
     \<and> exit_on_signal s' = exit_on_signal s \<and> listeners s' = listeners s
     \<and> reading_streams s' = reading_streams s \<and> async s' = async s
     \<and> async_sent s' = async_sent s \<and> sig_int s' = sig_int s \<and> sig_term s' = sig_term s
     \<and> shutdown_timer s' = shutdown_timer s \<and> shutdown_timer_due s' = shutdown_timer_due s
     \<and> shutdown_timer_started s' = shutdown_timer_started s \<and> shutdown_signum s' = shutdown_signum s
     \<and> shutdown_signaled s' = shutdown_signaled s \<and> shutdown_timeout_ms s' = shutdown_timeout_ms s
     \<and> uv_pending s' = uv_pending s \<and> uv_refused s' = uv_refused s \<and> exit_code s' = exit_code s"

section \<open>First in, first out\<close>

text \<open>The interface a waiter relies on.\<close>

locale completion_fifo =
  fixes post :: "'t \<Rightarrow> 'q \<Rightarrow> 'q"
    and pop :: "'q \<Rightarrow> ('t \<times> 'q) option"
    and content :: "'q \<Rightarrow> 't list"
  assumes content_post: "content (post t q) = content q @ [t]"
    and pop_None: "pop q = None \<longleftrightarrow> content q = []"
    and pop_Some: "pop q = Some (t, q') \<Longrightarrow> content q = t # content q'"
begin

primrec pops :: "nat \<Rightarrow> 'q \<Rightarrow> 't list \<times> 'q" where
  "pops 0 q = ([], q)"
| "pops (Suc n) q =
     (case pop q of None \<Rightarrow> ([], q)
      | Some (t, q') \<Rightarrow> (let (ts, q'') = pops n q' in (t # ts, q'')))"

lemma content_posts: "content (fold post ts q) = content q @ ts"
  by (induction ts arbitrary: q) (simp_all add: content_post)

lemma pops_spec: "pops n q = (ts, q') \<Longrightarrow> ts = take n (content q) \<and> content q' = drop n (content q)"
proof (induction n arbitrary: q ts q')
  case 0
  then show ?case by simp
next
  case (Suc n)
  show ?case
  proof (cases "pop q")
    case None
    then show ?thesis using Suc.prems pop_None [of q] by simp
  next
    case (Some tq)
    obtain t q1 where tq: "tq = (t, q1)" by fastforce
    obtain us q2 where us: "pops n q1 = (us, q2)" by fastforce
    have "content q = t # content q1" using pop_Some Some tq by simp
    then show ?thesis using Suc.prems Suc.IH [OF us] Some tq us by simp
  qed
qed

text \<open>What is posted comes out once, in posting order, after what was there before.\<close>

lemma post_then_pop:
  assumes "pops (length (content q) + length ts) (fold post ts q) = (us, q')"
  shows "us = content q @ ts \<and> content q' = []"
  using pops_spec [OF assms] by (simp add: content_posts)

end

interpretation cq: completion_fifo CompletionQueue_Post CompletionQueue_pop cq_q
  by unfold_locales
    (auto simp: CompletionQueue_Post_def CompletionQueue_pop_def split: list.splits)

section \<open>Frames\<close>

lemma completed_simps [simp]:
  "t_done (completed r tk)" "t_result (completed r tk) = r" "t_op (completed r tk) = t_op tk"
  "t_cq (completed r tk) = t_cq tk" "t_pinned_obj (completed r tk) = t_pinned_obj tk"
  "t_stream (completed r tk) = t_stream tk" "t_listener (completed r tk) = t_listener tk"
  "t_process (completed r tk) = t_process tk" "t_watcher (completed r tk) = t_watcher tk"
  "t_buffer (completed r tk) = t_buffer tk" "t_str_out (completed r tk) = t_str_out tk"
  "t_names (completed r tk) = t_names tk" "t_nbytes (completed r tk) = t_nbytes tk"
  "t_ext_data (completed r tk) = t_ext_data tk"
  "completed r (completed r' tk) = completed r tk"
  by (simp_all add: completed_def)

lemma same_handles_refl [simp]: "same_handles s s"
  by (simp add: same_handles_def)

lemma same_handles_fields:
  assumes "same_handles s s'"
  shows "h_streams s' = h_streams s" "h_listeners s' = h_listeners s"
    "h_processes s' = h_processes s" "h_watchers s' = h_watchers s"
    "locked s' = locked s" "ext_mem s' = ext_mem s" "queue s' = queue s"
    "running s' = running s" "stopping s' = stopping s"
    "exit_on_signal s' = exit_on_signal s" "listeners s' = listeners s"
    "reading_streams s' = reading_streams s" "async s' = async s"
    "async_sent s' = async_sent s" "sig_int s' = sig_int s" "sig_term s' = sig_term s"
    "shutdown_timer s' = shutdown_timer s" "shutdown_timer_due s' = shutdown_timer_due s"
    "shutdown_timer_started s' = shutdown_timer_started s"
    "shutdown_signum s' = shutdown_signum s" "shutdown_signaled s' = shutdown_signaled s"
    "shutdown_timeout_ms s' = shutdown_timeout_ms s" "uv_pending s' = uv_pending s"
    "uv_refused s' = uv_refused s" "exit_code s' = exit_code s"
  using assms by (simp_all add: same_handles_def)

lemma same_handles_trans: "same_handles s s1 \<Longrightarrow> same_handles s1 s2 \<Longrightarrow> same_handles s s2"
  by (simp add: same_handles_def)

lemma done_with_simps [simp]:
  "done_with [] r m = m"
  "t \<in> set ps \<Longrightarrow> done_with ps r m t = map_option (completed r) (m t)"
  "t \<notin> set ps \<Longrightarrow> done_with ps r m t = m t"
  by (simp_all add: done_with_def)

lemma dom_done_with [simp]: "dom (done_with ps r m) = dom m"
proof (rule set_eqI)
  show "x \<in> dom (done_with ps r m) \<longleftrightarrow> x \<in> dom m" for x
    by (cases "x \<in> set ps") (auto simp: domIff)
qed

lemma done_with_single: "m t = Some tk \<Longrightarrow> done_with [t] r m = m(t \<mapsto> completed r tk)"
  by (auto simp: done_with_def fun_eq_iff)

lemma done_with_append: "done_with ps r (done_with qs r m) = done_with (qs @ ps) r m"
  by (auto simp: done_with_def fun_eq_iff option.map_comp o_def)

lemma undone_done_with: "undone (done_with ps r m) = undone m - set ps"
proof -
  have "t \<in> undone (done_with ps r m) \<longleftrightarrow> t \<in> undone m \<and> t \<notin> set ps" for t
    by (cases "t \<in> set ps") (auto simp: undone_def)
  then show ?thesis by blast
qed

lemma cq_users_done_with: "cq_users (done_with ps r m) q = cq_users m q - set ps"
  by (auto simp: cq_users_def undone_done_with)

lemma Complete_posts:
  assumes "h_tasks s t = Some tk" and "t_cq tk \<noteq> 0" and "h_cqs s (t_cq tk) = Some d"
  shows "Complete t r s = Inr (s\<lparr>h_tasks := done_with [t] r (h_tasks s),
    h_cqs := (h_cqs s)(t_cq tk := if cq_refs d = 1 then None
      else Some ((CompletionQueue_Post t d)\<lparr>cq_refs := cq_refs d - 1\<rparr>)),
    live := (if cq_refs d = 1
      then (live s)(CCompletionQueue := live s CCompletionQueue - 1) else live s)\<rparr>)"
  using assms
  by (cases "cq_refs d = 1")
    (simp_all add: Complete_def Post_def Release_def Counted_dtor_def CompletionQueue_Post_def
      done_with_single)

lemma Complete_plain:
  assumes "h_tasks s t = Some tk" and "t_cq tk = 0"
  shows "Complete t r s = Inr (s\<lparr>h_tasks := done_with [t] r (h_tasks s)\<rparr>)"
  using assms by (simp add: Complete_def done_with_single)

text \<open>Where \<open>Complete\<close> succeeds, its effect on everything but the queue it posts to.\<close>

lemma Complete_effect:
  assumes "Complete t r s = Inr s'"
  shows "h_tasks s' = done_with [t] r (h_tasks s)" and "same_handles s s'"
    and "q \<noteq> t_cq (the (h_tasks s t)) \<Longrightarrow> h_cqs s' q = h_cqs s q"
proof -
  from assms obtain tk where t: "h_tasks s t = Some tk"
    by (auto simp: Complete_def sbind_eq_Inr)
  have "h_tasks s' = done_with [t] r (h_tasks s) \<and> same_handles s s'
    \<and> (q \<noteq> t_cq tk \<longrightarrow> h_cqs s' q = h_cqs s q)"
  proof (cases "t_cq tk = 0")
    case True
    then show ?thesis using assms Complete_plain [OF t, of r] by (auto simp: same_handles_def)
  next
    case False
    then obtain d where d: "h_cqs s (t_cq tk) = Some d"
      using assms t by (cases "h_cqs s (t_cq tk)") (simp_all add: Complete_def Post_def)
    show ?thesis using assms Complete_posts [OF t False d, of r] by (auto simp: same_handles_def)
  qed
  then show "h_tasks s' = done_with [t] r (h_tasks s)" and "same_handles s s'"
    and "q \<noteq> t_cq (the (h_tasks s t)) \<Longrightarrow> h_cqs s' q = h_cqs s q"
    using t by simp_all
qed

section \<open>Ownership\<close>

lemma held_same_handles: "same_handles s s' \<Longrightarrow> held s' = held s"
  by (simp add: held_def same_handles_fields)

lemma refused_same_handles: "same_handles s s' \<Longrightarrow> refused s' = refused s"
  by (simp add: refused_def same_handles_fields)

lemma locks_done_with: "locks_of (done_with ps r m) = locks_of m"
  unfolding locks_of_def msum_def
proof (rule sum.cong [OF dom_done_with])
  show "opt_task (t_pinned_obj (the (done_with ps r m a))) = opt_task (t_pinned_obj (the (m a)))"
    if "a \<in> dom m" for a
    using that by (cases "a \<in> set ps") auto
qed

lemma mset_set_undone_done:
  assumes "finite (undone m)" and "t \<in> undone m"
  shows "add_mset t (mset_set (undone (done_with [t] r m))) = mset_set (undone m)"
  using mset_set_remove [OF assms] by (simp add: undone_done_with)

text \<open>
  The reference a task holds on its queue: the queue is alive, and after the task
  completed the queue still has one reference per remaining user, plus the creator's.
\<close>

lemma refs_ok_queue:
  assumes "refs_ok m cs" and "t \<in> undone m" and "q = t_cq (the (m t))" and "q \<noteq> 0"
  obtains c where "cs q = Some c"
proof (cases "cs q")
  case None
  then have "cq_users m q = {}" using assms(1,4) by (auto simp: refs_ok_def)
  then show ?thesis using assms(2,3) by (auto simp: cq_users_def)
next
  case (Some c)
  then show ?thesis using that by blast
qed

lemma refs_ok_complete_null:
  assumes "refs_ok m cs" and "m t = Some tk" and "t_cq tk = 0"
  shows "refs_ok (done_with [t] r m) cs"
proof -
  have "cq_users (done_with [t] r m) q = cq_users m q" if "q \<noteq> 0" for q
  proof -
    have "t \<notin> cq_users m q" using assms(2,3) that by (simp add: cq_users_def)
    then show ?thesis by (simp add: cq_users_done_with)
  qed
  then show ?thesis using assms(1) by (simp add: refs_ok_def)
qed

lemma refs_ok_complete:
  assumes ok: "refs_ok m cs" and fin: "finite (undone m)"
    and t: "m t = Some tk" "\<not> t_done tk" "t_cq tk = q" "q \<noteq> 0"
    and c: "cs q = Some c"
    and new: "cs' q = (if cq_refs c = 1 then None else Some c')"
      "cq_refs c' = cq_refs c - 1" "\<And>p. p \<noteq> q \<Longrightarrow> cs' p = cs p"
  shows "refs_ok (done_with [t] r m) cs'"
proof -
  have tu: "t \<in> cq_users m q" using t by (simp add: cq_users_def undone_def)
  have finu: "finite (cq_users m q)" using fin by (simp add: cq_users_def)
  have card: "card (cq_users (done_with [t] r m) q) = card (cq_users m q) - 1"
    using tu by (simp add: cq_users_done_with card_Diff_singleton)
  have pos: "card (cq_users m q) > 0" using tu finu by (auto simp: card_gt_0_iff)
  have rq: "0 < cq_refs c" "int (card (cq_users m q)) \<le> cq_refs c"
      "cq_refs c \<le> int (card (cq_users m q)) + 1"
    using ok t(4) c by (auto simp: refs_ok_def)
  have other: "cq_users (done_with [t] r m) p = cq_users m p" if "p \<noteq> q" for p
  proof -
    have "t \<notin> cq_users m p" using t that by (simp add: cq_users_def)
    then show ?thesis by (simp add: cq_users_done_with)
  qed
  have "(cs' p = None \<longrightarrow> cq_users (done_with [t] r m) p = {}) \<and>
     (\<forall>d. cs' p = Some d \<longrightarrow> 0 < cq_refs d
        \<and> int (card (cq_users (done_with [t] r m) p)) \<le> cq_refs d
        \<and> cq_refs d \<le> int (card (cq_users (done_with [t] r m) p)) + 1)" if "p \<noteq> 0" for p
  proof (cases "p = q")
    case False
    then show ?thesis using ok that new(3) other by (simp add: refs_ok_def)
  next
    case True
    have "cq_users (done_with [t] r m) q = {}" if "cq_refs c = 1"
      using that rq card pos finu by (simp add: cq_users_done_with)
    then show ?thesis using True rq card pos new(1,2) by (auto simp: of_nat_diff)
  qed
  then show ?thesis by (simp add: refs_ok_def)
qed

text \<open>
  The rule for completion: the loop thread owns \<open>t\<close>, completes it, and owns it no more.
\<close>

lemma Complete_core [core_intros]:
  assumes c: "core (add_mset t L) s"
  shows "\<exists>s'. Complete t r s = Inr s' \<and> core L s' \<and> same_handles s s'
     \<and> h_tasks s' = done_with [t] r (h_tasks s)"
proof -
  from c obtain tk where t: "h_tasks s t = Some tk" "\<not> t_done tk" by (rule core_local_task)
  have fin: "finite (undone (h_tasks s))" "finite (dom (h_tasks s))"
    using c core_finite_undone core_finite(1) by blast+
  have tu: "t \<in> undone (h_tasks s)" using t by (simp add: undone_def)
  have bal: "held s + refused s + L = mset_set (undone (done_with [t] r (h_tasks s)))"
  proof -
    have "add_mset t (held s + refused s + L) = mset_set (undone (h_tasks s))"
      using c by (simp add: core_def)
    also have "\<dots> = add_mset t (mset_set (undone (done_with [t] r (h_tasks s))))"
      using mset_set_undone_done [OF fin(1) tu, of r] by simp
    finally show ?thesis by simp
  qed
  let ?q = "t_cq tk"
  let ?s1 = "s\<lparr>h_tasks := done_with [t] r (h_tasks s)\<rparr>"
  have ok1: "heap_ok (done_with [t] r (h_tasks s)) (live s CTask)"
    using c t heap_ok_upd [of "h_tasks s" "live s CTask" t tk]
    by (simp add: core_def heaps_ok_def done_with_single)
  show ?thesis
  proof (cases "?q = 0")
    case True
    then have r: "Complete t r s = Inr ?s1" by (rule Complete_plain [OF t(1)])
    have "core L ?s1"
      using c ok1 bal refs_ok_complete_null [of "h_tasks s" "h_cqs s" t tk r] t True
        locks_done_with
      by (simp add: core_def heaps_ok_def held_def refused_def)
    then show ?thesis using r Complete_effect(2) [OF r] by auto
  next
    case False
    have refs: "refs_ok (h_tasks s) (h_cqs s)" using c by (simp add: core_def)
    obtain d where d: "h_cqs s ?q = Some d"
      using refs_ok_queue [OF refs tu, of ?q] t False by auto
    obtain s' where s': "Complete t r s = Inr s'"
      and cqs: "h_cqs s' = (h_cqs s)(?q := if cq_refs d = 1 then None
         else Some ((CompletionQueue_Post t d)\<lparr>cq_refs := cq_refs d - 1\<rparr>))"
      and lv: "live s' = (if cq_refs d = 1
         then (live s)(CCompletionQueue := live s CCompletionQueue - 1) else live s)"
      using Complete_posts [OF t(1) False d] by simp
    note eff = Complete_effect(1,2) [OF s']
    have "refs_ok (done_with [t] r (h_tasks s)) (h_cqs s')"
      by (rule refs_ok_complete [OF refs fin(1) t refl False d]) (auto simp: cqs)
    moreover have "heap_ok (h_cqs s') (live s' CCompletionQueue)"
      using c d heap_ok_delete [of "h_cqs s" "live s CCompletionQueue" ?q d]
        heap_ok_upd [of "h_cqs s" "live s CCompletionQueue" ?q d]
      by (simp add: core_def heaps_ok_def cqs lv)
    moreover have "live s' k = live s k" if "k \<noteq> CCompletionQueue" for k
      using that by (simp add: lv)
    ultimately have "core L s'"
      using c ok1 bal locks_done_with eff
      by (simp add: core_def heaps_ok_def same_handles_fields held_same_handles refused_same_handles)
    then show ?thesis using s' eff by auto
  qed
qed

end
