(* ===== verification/Handles.thy ===== *)
theory Handles
  imports Completion
begin

text \<open>
  Persistent loop handles (\<^verbatim>\<open>net.hpp\<close>, class template \<open>LoopHandle\<close>): \<open>Close\<close> and the
  close callback \<open>OnClosed\<close>, as definitions over the heap of the derived type (the
  template parameter), and their instances for \<open>Stream\<close>, \<open>Listener\<close>, \<open>Process\<close>
  and \<open>Watcher\<close>.

  The locale \<open>handle_close\<close> extends \<open>handle_heap\<close> by what the template relies on, the
  close slot; the ownership rules of closing are proved in it once: \<open>Close\<close> moves the
  close task into the handle, \<open>OnClosed\<close> destroys the handle and completes that task
  with 0, and neither touches a task it does not own.
\<close>

section \<open>Definitions\<close>

definition LoopHandle_Close ::
  "(runtime \<Rightarrow> (addr \<rightharpoonup> 'a loop_handle_scheme)) \<Rightarrow>
   (((addr \<rightharpoonup> 'a loop_handle_scheme) \<Rightarrow> (addr \<rightharpoonup> 'a loop_handle_scheme)) \<Rightarrow> runtime \<Rightarrow> runtime) \<Rightarrow>
   addr \<Rightarrow> addr \<Rightarrow> runtime \<Rightarrow> fault + runtime" where
  "LoopHandle_Close get upd a ct s = sbind (deref (get s) a) (\<lambda>h.
     if uv_closing h then Inl (DoubleClose a)
     else Inr (upd (\<lambda>_. (get s)(a \<mapsto> h\<lparr>close_task := ct, uv_closing := True\<rparr>)) s))"

definition LoopHandle_OnClosed ::
  "(runtime \<Rightarrow> (addr \<rightharpoonup> 'a loop_handle_scheme)) \<Rightarrow>
   (((addr \<rightharpoonup> 'a loop_handle_scheme) \<Rightarrow> (addr \<rightharpoonup> 'a loop_handle_scheme)) \<Rightarrow> runtime \<Rightarrow> runtime) \<Rightarrow>
   counted \<Rightarrow> addr \<Rightarrow> runtime \<Rightarrow> fault + runtime" where
  "LoopHandle_OnClosed get upd k a s = sbind (deref (get s) a) (\<lambda>h.
     let ct = close_task h;
         s1 = Counted_dtor k (upd (\<lambda>_. (get s)(a := None)) s)
     in if ct \<noteq> nullptr then Complete ct 0 s1 else Inr s1)"

definition Stream_Close :: "addr \<Rightarrow> addr \<Rightarrow> runtime \<Rightarrow> fault + runtime" where
  "Stream_Close = LoopHandle_Close h_streams h_streams_update"

definition Listener_Close :: "addr \<Rightarrow> addr \<Rightarrow> runtime \<Rightarrow> fault + runtime" where
  "Listener_Close = LoopHandle_Close h_listeners h_listeners_update"

definition Process_Close :: "addr \<Rightarrow> addr \<Rightarrow> runtime \<Rightarrow> fault + runtime" where
  "Process_Close = LoopHandle_Close h_processes h_processes_update"

definition Watcher_Close :: "addr \<Rightarrow> addr \<Rightarrow> runtime \<Rightarrow> fault + runtime" where
  "Watcher_Close = LoopHandle_Close h_watchers h_watchers_update"

definition Stream_OnClosed :: "addr \<Rightarrow> runtime \<Rightarrow> fault + runtime" where
  "Stream_OnClosed = LoopHandle_OnClosed h_streams h_streams_update CStream"

definition Listener_OnClosed :: "addr \<Rightarrow> runtime \<Rightarrow> fault + runtime" where
  "Listener_OnClosed = LoopHandle_OnClosed h_listeners h_listeners_update CListener"

definition Process_OnClosed :: "addr \<Rightarrow> runtime \<Rightarrow> fault + runtime" where
  "Process_OnClosed = LoopHandle_OnClosed h_processes h_processes_update CProcess"

definition Watcher_OnClosed :: "addr \<Rightarrow> runtime \<Rightarrow> fault + runtime" where
  "Watcher_OnClosed = LoopHandle_OnClosed h_watchers h_watchers_update CWatcher"

text \<open>A \<open>new\<close> of each type: construct the object at the address and count it.\<close>

definition new_Stream :: "addr \<Rightarrow> runtime \<Rightarrow> runtime" where
  "new_Stream a s = Counted_ctor CStream (s\<lparr>h_streams := (h_streams s)(a \<mapsto> Stream_ctor)\<rparr>)"

definition new_Listener :: "addr \<Rightarrow> runtime \<Rightarrow> runtime" where
  "new_Listener a s =
     Counted_ctor CListener (s\<lparr>h_listeners := (h_listeners s)(a \<mapsto> Listener_ctor)\<rparr>)"

definition new_Process :: "addr \<Rightarrow> runtime \<Rightarrow> runtime" where
  "new_Process a s =
     Counted_ctor CProcess (s\<lparr>h_processes := (h_processes s)(a \<mapsto> Process_ctor)\<rparr>)"

definition new_Watcher :: "addr \<Rightarrow> runtime \<Rightarrow> runtime" where
  "new_Watcher a s =
     Counted_ctor CWatcher (s\<lparr>h_watchers := (h_watchers s)(a \<mapsto> Watcher_ctor)\<rparr>)"

text \<open>A handle is open while \<open>uv_close\<close> has not been called on it.\<close>

definition open_in :: "(addr \<rightharpoonup> 'a loop_handle_scheme) \<Rightarrow> addr \<Rightarrow> bool" where
  "open_in m a \<longleftrightarrow> (\<exists>h. m a = Some h \<and> \<not> uv_closing h)"

text \<open>Only a closing handle has a close task.\<close>

definition close_slots_ok :: "(addr \<rightharpoonup> 'a loop_handle_scheme) \<Rightarrow> bool" where
  "close_slots_ok m \<longleftrightarrow> (\<forall>a h. m a = Some h \<longrightarrow> \<not> uv_closing h \<longrightarrow> close_task h = nullptr)"

section \<open>The rules of closing\<close>

locale handle_close = handle_heap get upd share kind
  for get :: "runtime \<Rightarrow> (addr \<rightharpoonup> 'a loop_handle_scheme)"
    and upd :: "((addr \<rightharpoonup> 'a loop_handle_scheme) \<Rightarrow> (addr \<rightharpoonup> 'a loop_handle_scheme))
      \<Rightarrow> runtime \<Rightarrow> runtime"
    and share :: "'a loop_handle_scheme \<Rightarrow> addr multiset"
    and kind :: counted +
  assumes share_close: "close_task h = nullptr \<Longrightarrow>
    share (h\<lparr>close_task := c, uv_closing := b\<rparr>) = share h + opt_task c"
begin

lemma Close_core:
  assumes "core (opt_task ct + L) s" and "get s a = Some h"
    and "\<not> uv_closing h" and "close_task h = nullptr"
  shows "LoopHandle_Close get upd a ct s
      = Inr (upd (\<lambda>_. (get s)(a \<mapsto> h\<lparr>close_task := ct, uv_closing := True\<rparr>)) s)"
    and "core L (upd (\<lambda>_. (get s)(a \<mapsto> h\<lparr>close_task := ct, uv_closing := True\<rparr>)) s)"
proof -
  show "LoopHandle_Close get upd a ct s
      = Inr (upd (\<lambda>_. (get s)(a \<mapsto> h\<lparr>close_task := ct, uv_closing := True\<rparr>)) s)"
    using assms by (simp add: LoopHandle_Close_def)
  show "core L (upd (\<lambda>_. (get s)(a \<mapsto> h\<lparr>close_task := ct, uv_closing := True\<rparr>)) s)"
    by (rule core_obj_upd [OF assms(1,2)]) (simp add: share_close [OF assms(4)] ac_simps)
qed

lemma OnClosed_core:
  assumes c: "core L s" and o: "get s a = Some h" and sh: "share h = opt_task (close_task h)"
  shows "\<exists>s'. LoopHandle_OnClosed get upd kind a s = Inr s' \<and> core L s'
    \<and> same_handles (upd (\<lambda>_. (get s)(a := None)) s) s'
    \<and> h_tasks s' = (if close_task h = nullptr then h_tasks s
        else done_with [close_task h] 0 (h_tasks s))"
proof -
  let ?s1 = "Counted_dtor kind (upd (\<lambda>_. (get s)(a := None)) s)"
  have "?s1 = (upd (\<lambda>_. (get s)(a := None)) s)\<lparr>live := (live s)(kind := live s kind - 1)\<rparr>"
    by (simp add: Counted_dtor_def upd_simps)
  then have c1: "core (opt_task (close_task h) + L) ?s1"
    using core_obj_delete [OF c o] sh by simp
  have sm: "same_handles (upd (\<lambda>_. (get s)(a := None)) s) ?s1"
    by (simp add: same_handles_def Counted_dtor_def)
  have tk: "h_tasks ?s1 = h_tasks s" by (simp add: upd_simps)
  show ?thesis
  proof (cases "close_task h = nullptr")
    case True
    then show ?thesis using c1 sm tk o by (simp add: LoopHandle_OnClosed_def)
  next
    case False
    then have "core (add_mset (close_task h) L) ?s1" using c1 by simp
    from Complete_core [OF this, of 0] obtain s' where "Complete (close_task h) 0 ?s1 = Inr s'"
      "core L s'" "same_handles ?s1 s'" "h_tasks s' = done_with [close_task h] 0 (h_tasks ?s1)"
      by blast
    then show ?thesis using False o sm same_handles_trans tk
      by (auto simp: LoopHandle_OnClosed_def Let_def)
  qed
qed

end

interpretation stream_close: handle_close h_streams h_streams_update stream_held CStream
  by unfold_locales (simp add: stream_held_def)

interpretation listener_close: handle_close h_listeners h_listeners_update listener_held CListener
  by unfold_locales (simp add: listener_held_def)

interpretation process_close: handle_close h_processes h_processes_update process_held CProcess
  by unfold_locales (simp add: process_held_def)

interpretation watcher_close: handle_close h_watchers h_watchers_update watcher_held CWatcher
  by unfold_locales (simp add: watcher_held_def)

section \<open>Allocation\<close>

lemma new_Stream_core:
  "core L s \<Longrightarrow> h_streams s a = None \<Longrightarrow> a \<noteq> 0 \<Longrightarrow> core L (new_Stream a s)"
  using stream_heap.core_obj_new [of L s a Stream_ctor]
  by (simp add: new_Stream_def Counted_ctor_def stream_held_def Stream_ctor_def)

lemma new_Listener_core:
  "core L s \<Longrightarrow> h_listeners s a = None \<Longrightarrow> a \<noteq> 0 \<Longrightarrow> core L (new_Listener a s)"
  using listener_heap.core_obj_new [of L s a Listener_ctor]
  by (simp add: new_Listener_def Counted_ctor_def listener_held_def Listener_ctor_def)

lemma new_Process_core:
  "core L s \<Longrightarrow> h_processes s a = None \<Longrightarrow> a \<noteq> 0 \<Longrightarrow> core L (new_Process a s)"
  using process_heap.core_obj_new [of L s a Process_ctor]
  by (simp add: new_Process_def Counted_ctor_def process_held_def Process_ctor_def)

lemma new_Watcher_core:
  "core L s \<Longrightarrow> h_watchers s a = None \<Longrightarrow> a \<noteq> 0 \<Longrightarrow> core L (new_Watcher a s)"
  using watcher_heap.core_obj_new [of L s a Watcher_ctor]
  by (simp add: new_Watcher_def Counted_ctor_def watcher_held_def Watcher_ctor_def)

end
