(* ===== verification/Streams.thy ===== *)
theory Streams
  imports Handles
begin

text \<open>
  Byte streams (\<^verbatim>\<open>net.hpp\<close> \<open>Stream\<close>; \<^verbatim>\<open>runtime.cpp\<close>): connecting, reading on demand,
  writing, closing, and the shutdown sweep over parked readers.

  Reads are on demand: a read is active on the socket exactly while read tasks are
  queued on the stream, and \<open>reading_streams\<close> holds exactly the streams with a queued
  reader (\<open>reads_ok\<close>). Readers are served first in, first out; end of file, an error
  and a cancellation reach every queued reader.
\<close>

section \<open>Definitions\<close>

definition put_task :: "addr \<Rightarrow> task \<Rightarrow> runtime \<Rightarrow> runtime" where
  "put_task t tk s = s\<lparr>h_tasks := (h_tasks s)(t \<mapsto> tk)\<rparr>"

definition put_stream :: "addr \<Rightarrow> stream_obj \<Rightarrow> runtime \<Rightarrow> runtime" where
  "put_stream x st s = s\<lparr>h_streams := (h_streams s)(x \<mapsto> st)\<rparr>"

text \<open>\<open>task_data\<close>: the pinned bytes when the zero-copy path is in use, else the buffer.\<close>

definition task_data :: "addr \<Rightarrow> task \<Rightarrow> iobuf" where
  "task_data t tk = (if t_ext_data tk \<noteq> nullptr then ExtBuf (t_ext_data tk) else TaskBuf t)"

definition parse_ip_addr :: "uv_env \<Rightarrow> string \<Rightarrow> int \<Rightarrow> int \<times> byte list" where
  "parse_ip_addr env host port =
     (let (r, sa) = uv_ip4_addr env host port
      in if r < 0 then uv_ip6_addr env host port else (r, sa))"

subsection \<open>Connecting\<close>

definition on_connect :: "addr \<Rightarrow> int \<Rightarrow> runtime \<Rightarrow> fault + runtime" where
  "on_connect t status s = sbind (deref (h_tasks s) t) (\<lambda>tk.
     let x = t_stream tk in
     if status < 0 then
       sbind (Stream_Close x nullptr (put_task t (tk\<lparr>t_stream := nullptr\<rparr>) s)) (Complete t status)
     else Complete t (as_result x) s)"

definition Dispatch_TcpConnect :: "uv_env \<Rightarrow> addr \<Rightarrow> runtime \<Rightarrow> fault + runtime" where
  "Dispatch_TcpConnect env t s = sbind (deref (h_tasks s) t) (\<lambda>tk.
     let x = new_addr env 0;
         s1 = put_task t (tk\<lparr>t_stream := x\<rparr>) (new_Stream x s);
         (r0, sa) = parse_ip_addr env (t_path tk) (t_port tk);
         r = (if r0 = 0 then uv_tcp_connect env sa else r0)
     in if r < 0 then
          sbind (Stream_Close x nullptr (put_task t (tk\<lparr>t_stream := nullptr\<rparr>) s1)) (Complete t r)
        else if r0 = 0 then Inr (s1\<lparr>uv_pending := uv_pending s1 @ [ConnectReq t x]\<rparr>)
        else Inr s1)"

subsection \<open>Reading\<close>

definition uv_read_stop :: "stream_obj \<Rightarrow> stream_obj" where
  "uv_read_stop st = st\<lparr>uv_reading := False\<rparr>"

definition on_alloc :: "addr \<Rightarrow> runtime \<Rightarrow> fault + (iobuf option \<times> 32 word)" where
  "on_alloc x s = sbind (deref (h_streams s) x) (\<lambda>st.
     case s_read_queue st of
       t # _ \<Rightarrow> sbind (deref (h_tasks s) t) (\<lambda>tk. Inr (Some (task_data t tk), t_nbytes tk))
     | [] \<Rightarrow> Inr (None, 0))"

text \<open>
  The loop \<open>while (!read_queue.empty()) { pop; Complete(r); }\<close>, with the length of the
  queue as its bound; the queue is empty afterwards (\<open>fan_out_core\<close>).
\<close>

fun drain_reads :: "nat \<Rightarrow> addr \<Rightarrow> int \<Rightarrow> runtime \<Rightarrow> fault + runtime" where
  "drain_reads 0 x r s = Inr s"
| "drain_reads (Suc n) x r s = sbind (deref (h_streams s) x) (\<lambda>st.
     case s_read_queue st of
       [] \<Rightarrow> Inr s
     | p # ps \<Rightarrow>
         sbind (Complete p r (put_stream x (st\<lparr>s_read_queue := ps\<rparr>) s)) (drain_reads n x r))"

definition fan_out :: "addr \<Rightarrow> int \<Rightarrow> runtime \<Rightarrow> fault + runtime" where
  "fan_out x r s = sbind (deref (h_streams s) x) (\<lambda>st.
     drain_reads (length (s_read_queue st)) x r s)"

definition on_read :: "addr \<Rightarrow> int \<Rightarrow> runtime \<Rightarrow> fault + runtime" where
  "on_read x nread s = sbind (deref (h_streams s) x) (\<lambda>st.
     if nread = 0 then Inr s
     else case s_read_queue st of
       [] \<Rightarrow> Inr ((put_stream x ((uv_read_stop st)\<lparr>s_read_active := False\<rparr>) s)
                   \<lparr>reading_streams := us_erase x (reading_streams s)\<rparr>)
     | t # ts \<Rightarrow>
         if 0 < nread then
           (let st1 = st\<lparr>s_read_queue := ts\<rparr>;
                s1 = (if ts = []
                      then (put_stream x ((uv_read_stop st1)\<lparr>s_read_active := False\<rparr>) s)
                             \<lparr>reading_streams := us_erase x (reading_streams s)\<rparr>
                      else put_stream x st1 s)
            in Complete t nread s1)
         else
           (let r = (if nread = UV_EOF then 0 else nread)
            in fan_out x r ((put_stream x ((uv_read_stop st)\<lparr>s_read_active := False\<rparr>) s)
                 \<lparr>reading_streams := us_erase x (reading_streams s)\<rparr>)))"

definition Dispatch_StreamRead :: "uv_env \<Rightarrow> addr \<Rightarrow> runtime \<Rightarrow> fault + runtime" where
  "Dispatch_StreamRead env t s =
     (if shutdown_signaled s then Complete t UV_ECANCELED s
      else sbind (deref (h_tasks s) t) (\<lambda>tk.
        let x = t_stream tk in
        sbind (deref (h_streams s) x) (\<lambda>st.
          let st1 = st\<lparr>s_read_queue := s_read_queue st @ [t]\<rparr>;
              s1 = put_stream x st1 s
          in sbind
               (if \<not> s_read_active st then
                  (let r = uv_read_start env x in
                   if r < 0 then
                     Complete t r (put_stream x (st1\<lparr>s_read_queue := butlast (s_read_queue st1)\<rparr>) s1)
                   else Inr (put_stream x (st1\<lparr>s_read_active := True, uv_reading := True\<rparr>) s1))
                else Inr s1)
               (\<lambda>s2. sbind (deref (h_streams s2) x) (\<lambda>st2.
                  Inr (if s_read_queue st2 \<noteq> []
                       then s2\<lparr>reading_streams := us_insert x (reading_streams s2)\<rparr>
                       else s2))))))"

subsection \<open>Writing\<close>

definition on_write :: "addr \<Rightarrow> int \<Rightarrow> runtime \<Rightarrow> fault + runtime" where
  "on_write t status s = sbind (deref (h_tasks s) t) (\<lambda>tk.
     Complete t (if status < 0 then status else uint (t_nbytes tk)) s)"

definition Dispatch_StreamWrite :: "uv_env \<Rightarrow> addr \<Rightarrow> runtime \<Rightarrow> fault + runtime" where
  "Dispatch_StreamWrite env t s = sbind (deref (h_tasks s) t) (\<lambda>tk.
     let x = t_stream tk; buf = task_data t tk in
     sbind (deref (h_streams s) x) (\<lambda>st.
       let r = uv_write env x buf (t_nbytes tk) in
       if r < 0 then Complete t r s
       else Inr (s\<lparr>uv_pending := uv_pending s @ [WriteReq t x buf (t_nbytes tk)]\<rparr>)))"

subsection \<open>Closing and cancelling\<close>

text \<open>Stop the uv-level read and wake every parked reader with \<open>ECANCELED\<close>.\<close>

definition cancel_reads :: "addr \<Rightarrow> runtime \<Rightarrow> fault + runtime" where
  "cancel_reads x s = sbind (deref (h_streams s) x) (\<lambda>st.
     fan_out x UV_ECANCELED
       (if s_read_active st
        then put_stream x ((uv_read_stop st)\<lparr>s_read_active := False\<rparr>) s
        else s))"

definition cancel_pending_reads :: "uv_env \<Rightarrow> runtime \<Rightarrow> fault + runtime" where
  "cancel_pending_reads env s =
     sbind (sfold cancel_reads (iter_order env (reading_streams s)) s)
       (\<lambda>s'. Inr (s'\<lparr>reading_streams := []\<rparr>))"

definition Dispatch_StreamClose :: "addr \<Rightarrow> runtime \<Rightarrow> fault + runtime" where
  "Dispatch_StreamClose t s = sbind (deref (h_tasks s) t) (\<lambda>tk.
     let x = t_stream tk in
     sbind (cancel_reads x s) (\<lambda>s1.
       Stream_Close x t (s1\<lparr>reading_streams := us_erase x (reading_streams s1)\<rparr>)))"

subsection \<open>The read machine's invariant\<close>

definition reads_ok :: "(addr \<rightharpoonup> stream_obj) \<Rightarrow> addr list \<Rightarrow> bool" where
  "reads_ok m rs \<longleftrightarrow> distinct rs \<and> set rs \<subseteq> dom m \<and>
     (\<forall>x st. m x = Some st \<longrightarrow>
        (s_read_active st \<longleftrightarrow> s_read_queue st \<noteq> []) \<and>
        (uv_reading st \<longleftrightarrow> s_read_active st) \<and>
        (x \<in> set rs \<longleftrightarrow> s_read_active st) \<and>
        (uv_closing st \<longrightarrow> \<not> s_read_active st))"

text \<open>A stream with no reader.\<close>

definition idle :: "stream_obj \<Rightarrow> stream_obj" where
  "idle st = st\<lparr>s_read_queue := [], s_read_active := False, uv_reading := False\<rparr>"

section \<open>Ownership\<close>

lemma core_put_task:
  assumes c: "core L s" and t: "h_tasks s t = Some tk"
    and "t_done tk' = t_done tk" "t_cq tk' = t_cq tk" "t_pinned_obj tk' = t_pinned_obj tk"
  shows "core L (put_task t tk' s)"
proof -
  let ?m = "(h_tasks s)(t \<mapsto> tk')"
  have u: "undone ?m = undone (h_tasks s)" using assms by (auto simp: undone_def)
  then have "cq_users ?m = cq_users (h_tasks s)" using assms by (auto simp: cq_users_def fun_eq_iff)
  moreover have "locks_of ?m = locks_of (h_tasks s)"
    unfolding locks_of_def by (rule msum_upd_same) (use c t assms core_finite in auto)
  moreover have "heap_ok ?m (live s CTask)"
    using c t by (simp add: core_def heaps_ok_def heap_ok_upd)
  ultimately show ?thesis using c u
    by (simp add: core_def put_task_def heaps_ok_def refs_ok_def held_def refused_def)
qed

lemma core_put_stream:
  assumes "core L s" and "h_streams s x = Some st" and "stream_held st + L = stream_held st' + L'"
  shows "core L' (put_stream x st' s)"
  using stream_heap.core_obj_upd [OF assms] by (simp add: put_stream_def)

lemma put_stream_simps [simp]:
  "h_streams (put_stream x st s) = (h_streams s)(x \<mapsto> st)"
  "h_tasks (put_stream x st s) = h_tasks s"
  "put_stream x st' (put_stream x st s) = put_stream x st' s"
  "reading_streams (put_stream x st s) = reading_streams s"
  "shutdown_signaled (put_stream x st s) = shutdown_signaled s"
  by (simp_all add: put_stream_def)

lemma put_stream_same_handles:
  "same_handles s s' \<Longrightarrow> same_handles (put_stream x st s) (put_stream x st s')"
  by (simp add: same_handles_def put_stream_def)

lemma stream_held_simps [simp]:
  "stream_held (st\<lparr>s_read_active := b\<rparr>) = stream_held st"
  "stream_held (st\<lparr>uv_reading := b\<rparr>) = stream_held st"
  "stream_held (st\<lparr>s_read_queue := ts\<rparr>) = mset ts + opt_task (close_task st)"
  "stream_held (uv_read_stop st) = stream_held st"
  by (simp_all add: stream_held_def uv_read_stop_def)

lemma uv_read_stop_simps [simp]:
  "s_read_queue (uv_read_stop st) = s_read_queue st"
  "close_task (uv_read_stop st) = close_task st"
  "uv_closing (uv_read_stop st) = uv_closing st"
  by (simp_all add: uv_read_stop_def)

lemma same_handles_put_streamD:
  "same_handles (put_stream x st s) s' \<Longrightarrow> h_streams s' = (h_streams s)(x \<mapsto> st)"
  by (simp add: same_handles_fields)

lemma core_reading_streams [simp]: "core L (s\<lparr>reading_streams := rs\<rparr>) \<longleftrightarrow> core L s"
  by (auto intro: core_cong)

text \<open>Popping a reader puts it into the hands of the loop thread.\<close>

lemma pop_reader_core:
  assumes "core L s" and "h_streams s x = Some st" and "s_read_queue st = p # ps"
  shows "core (add_mset p L) (put_stream x (st\<lparr>s_read_queue := ps\<rparr>) s)"
  by (rule core_put_stream [OF assms(1,2)]) (simp add: assms(3) stream_held_def)

text \<open>
  The fan-out loop: every queued reader completes with \<open>r\<close>, the queue is empty after
  it, and nothing else has changed.
\<close>

lemma drain_reads_core:
  assumes "core L s" and "h_streams s x = Some st" and "length (s_read_queue st) = n"
  shows "\<exists>s'. drain_reads n x r s = Inr s' \<and> core L s'
    \<and> same_handles (put_stream x (st\<lparr>s_read_queue := []\<rparr>) s) s'
    \<and> h_tasks s' = done_with (s_read_queue st) r (h_tasks s)"
  using assms
proof (induction n arbitrary: s st)
  case 0
  then have "put_stream x (st\<lparr>s_read_queue := []\<rparr>) s = s"
    by (simp add: put_stream_def fun_upd_idem)
  then show ?case using 0 by simp
next
  case (Suc n)
  then obtain p ps where q: "s_read_queue st = p # ps" "length ps = n"
    by (auto simp: length_Suc_conv)
  let ?st1 = "st\<lparr>s_read_queue := ps\<rparr>"
  let ?s1 = "put_stream x ?st1 s"
  have "core (add_mset p L) ?s1" by (rule pop_reader_core [OF Suc.prems(1,2) q(1)])
  from Complete_core [OF this, of r] obtain s2 where s2: "Complete p r ?s1 = Inr s2"
    "core L s2" "same_handles ?s1 s2" "h_tasks s2 = done_with [p] r (h_tasks s)" by auto
  have x2: "h_streams s2 x = Some ?st1" using s2(3) by (simp add: same_handles_fields)
  from Suc.IH [OF s2(2) x2] q(2) obtain s3 where s3: "drain_reads n x r s2 = Inr s3"
    "core L s3" "same_handles (put_stream x (?st1\<lparr>s_read_queue := []\<rparr>) s2) s3"
    "h_tasks s3 = done_with ps r (h_tasks s2)" by auto
  have "same_handles (put_stream x (st\<lparr>s_read_queue := []\<rparr>) ?s1)
      (put_stream x (st\<lparr>s_read_queue := []\<rparr>) s2)"
    using s2(3) by (rule put_stream_same_handles)
  with s3(3) have "same_handles (put_stream x (st\<lparr>s_read_queue := []\<rparr>) s) s3"
    by (auto intro: same_handles_trans)
  moreover have "drain_reads (Suc n) x r s = Inr s3" using Suc.prems(2) q(1) s2(1) s3(1) by simp
  moreover have "h_tasks s3 = done_with (s_read_queue st) r (h_tasks s)"
    using s3(4) s2(4) q(1) by (simp add: done_with_append)
  ultimately show ?case using s3(2) by blast
qed

lemma fan_out_core:
  assumes "core L s" and "h_streams s x = Some st"
  shows "\<exists>s'. fan_out x r s = Inr s' \<and> core L s'
    \<and> same_handles (put_stream x (st\<lparr>s_read_queue := []\<rparr>) s) s'
    \<and> h_tasks s' = done_with (s_read_queue st) r (h_tasks s)"
  using drain_reads_core [OF assms refl] assms(2) by (simp add: fan_out_def)

text \<open>The state of a stream whose uv-level read was stopped.\<close>

lemma idle_simps [simp]:
  "s_read_queue (idle st) = []" "\<not> s_read_active (idle st)" "\<not> uv_reading (idle st)"
  "uv_closing (idle st) = uv_closing st" "close_task (idle st) = close_task st"
  "idle (idle st) = idle st"
  by (simp_all add: idle_def)

lemma idle_eq:
  "((uv_read_stop st)\<lparr>s_read_active := False\<rparr>)\<lparr>s_read_queue := []\<rparr> = idle st"
  "(uv_read_stop (st\<lparr>s_read_queue := []\<rparr>))\<lparr>s_read_active := False\<rparr> = idle st"
  by (simp_all add: idle_def uv_read_stop_def)

lemma idle_same:
  "\<not> s_read_active st \<Longrightarrow> \<not> uv_reading st \<Longrightarrow> st\<lparr>s_read_queue := []\<rparr> = idle st"
  by (simp add: idle_def)

lemma cancel_reads_core:
  assumes c: "core L s" and x: "h_streams s x = Some st" and a: "uv_reading st \<longleftrightarrow> s_read_active st"
  shows "\<exists>s'. cancel_reads x s = Inr s' \<and> core L s' \<and> same_handles (put_stream x (idle st) s) s'
    \<and> h_tasks s' = done_with (s_read_queue st) UV_ECANCELED (h_tasks s)"
proof (cases "s_read_active st")
  case True
  let ?st1 = "(uv_read_stop st)\<lparr>s_read_active := False\<rparr>"
  have "core L (put_stream x ?st1 s)"
    by (rule core_put_stream [OF c x]) simp
  from fan_out_core [OF this, of x ?st1 UV_ECANCELED] show ?thesis
    using x True by (simp add: cancel_reads_def idle_eq)
next
  case False
  then show ?thesis using fan_out_core [OF c x, of UV_ECANCELED] x a
    by (simp add: cancel_reads_def idle_same)
qed

text \<open>The three outcomes of a read callback on a stream with a queued reader.\<close>

lemma on_read_data:
  assumes c: "core L s" and x: "h_streams s x = Some st" and q: "s_read_queue st = t # ts"
    and n: "0 < nread"
  shows "\<exists>s'. on_read x nread s = Inr s' \<and> core L s'
    \<and> h_streams s' = (h_streams s)(x \<mapsto> (if ts = [] then idle st else st\<lparr>s_read_queue := ts\<rparr>))
    \<and> reading_streams s' = (if ts = [] then us_erase x (reading_streams s) else reading_streams s)
    \<and> same_handles (s\<lparr>h_streams := h_streams s', reading_streams := reading_streams s'\<rparr>) s'
    \<and> h_tasks s' = done_with [t] nread (h_tasks s)"
proof -
  have pop: "core (add_mset t L) (put_stream x (st\<lparr>s_read_queue := ts\<rparr>) s)"
    by (rule pop_reader_core [OF c x q])
  show ?thesis
  proof (cases "ts = []")
    case True
    let ?s1 = "(put_stream x (idle st) s)\<lparr>reading_streams := us_erase x (reading_streams s)\<rparr>"
    have "core (add_mset t L) ?s1"
      using core_put_stream [OF c x, of "idle st" "add_mset t L"] q True
      by (simp add: stream_held_def)
    from Complete_core [OF this, of nread] show ?thesis
      using x q n True by (auto simp: on_read_def idle_eq same_handles_def put_stream_def)
  next
    case False
    from Complete_core [OF pop, of nread] show ?thesis
      using x q n False by (auto simp: on_read_def same_handles_def put_stream_def)
  qed
qed

lemma on_read_end:
  assumes c: "core L s" and x: "h_streams s x = Some st" and q: "s_read_queue st \<noteq> []"
    and n: "nread < 0"
  shows "\<exists>s'. on_read x nread s = Inr s' \<and> core L s'
    \<and> h_streams s' = (h_streams s)(x \<mapsto> idle st)
    \<and> reading_streams s' = us_erase x (reading_streams s)
    \<and> same_handles (s\<lparr>h_streams := h_streams s', reading_streams := reading_streams s'\<rparr>) s'
    \<and> h_tasks s' = done_with (s_read_queue st) (if nread = UV_EOF then 0 else nread) (h_tasks s)"
proof -
  let ?st1 = "(uv_read_stop st)\<lparr>s_read_active := False\<rparr>"
  let ?s1 = "(put_stream x ?st1 s)\<lparr>reading_streams := us_erase x (reading_streams s)\<rparr>"
  let ?r = "if nread = UV_EOF then 0 else nread"
  have c1: "core L ?s1" using core_put_stream [OF c x, of ?st1 L] by simp
  have x1: "h_streams ?s1 x = Some ?st1" by simp
  have e: "on_read x nread s = fan_out x ?r ?s1"
    using x q n by (cases "s_read_queue st") (simp_all add: on_read_def Let_def)
  from fan_out_core [OF c1 x1, of ?r] show ?thesis
    unfolding e by (auto simp: same_handles_def put_stream_def idle_eq)
qed

lemma on_read_again: "h_streams s x = Some st \<Longrightarrow> on_read x 0 s = Inr s"
  by (simp add: on_read_def)

section \<open>The read machine\<close>

lemma reads_okD:
  assumes "reads_ok m rs" and "m x = Some st"
  shows "s_read_active st \<longleftrightarrow> s_read_queue st \<noteq> []" "uv_reading st \<longleftrightarrow> s_read_active st"
    "x \<in> set rs \<longleftrightarrow> s_read_active st" "uv_closing st \<Longrightarrow> \<not> s_read_active st"
  using assms by (auto simp: reads_ok_def)

lemma reads_ok_idle: "reads_ok m rs \<Longrightarrow> m x = Some st \<Longrightarrow> reads_ok (m(x \<mapsto> idle st)) (us_erase x rs)"
  by (auto simp: reads_ok_def)

lemma reads_ok_pop:
  "reads_ok m rs \<Longrightarrow> m x = Some st \<Longrightarrow> s_read_queue st = t # ts \<Longrightarrow> ts \<noteq> [] \<Longrightarrow>
    reads_ok (m(x \<mapsto> st\<lparr>s_read_queue := ts\<rparr>)) rs"
  using reads_okD(4) [of m rs x st] by (auto simp: reads_ok_def)

lemma reads_ok_push:
  "reads_ok m rs \<Longrightarrow> m x = Some st \<Longrightarrow> \<not> uv_closing st \<Longrightarrow>
    reads_ok (m(x \<mapsto> st\<lparr>s_read_queue := s_read_queue st @ [t], s_read_active := True,
       uv_reading := True\<rparr>)) (us_insert x rs)"
  by (auto simp: reads_ok_def)

lemma reads_ok_close:
  "reads_ok m rs \<Longrightarrow> m x = Some st \<Longrightarrow> \<not> s_read_active st \<Longrightarrow>
    reads_ok (m(x \<mapsto> st\<lparr>close_task := ct, uv_closing := True\<rparr>)) rs"
  by (auto simp: reads_ok_def)

lemma reads_ok_new: "reads_ok m rs \<Longrightarrow> m x = None \<Longrightarrow> reads_ok (m(x \<mapsto> Stream_ctor)) rs"
  by (auto simp: reads_ok_def Stream_ctor_def)

lemma reads_ok_delete:
  "reads_ok m rs \<Longrightarrow> m x = Some st \<Longrightarrow> uv_closing st \<Longrightarrow> reads_ok (m(x := None)) rs"
  by (auto simp: reads_ok_def)

text \<open>A read callback keeps the machine's invariant and never takes its dead branch.\<close>

lemma on_read_ok:
  assumes c: "core L s" and ok: "reads_ok (h_streams s) (reading_streams s)"
    and x: "h_streams s x = Some st" and a: "uv_reading st"
  shows "\<exists>s' st'. on_read x nread s = Inr s' \<and> core L s'
    \<and> reads_ok (h_streams s') (reading_streams s')
    \<and> h_streams s' = (h_streams s)(x \<mapsto> st')
    \<and> uv_closing st' = uv_closing st \<and> close_task st' = close_task st
    \<and> same_handles (s\<lparr>h_streams := h_streams s', reading_streams := reading_streams s'\<rparr>) s'"
proof -
  obtain t ts where q: "s_read_queue st = t # ts"
    using reads_okD [OF ok x] a by (cases "s_read_queue st") auto
  consider "nread = 0" | "0 < nread" | "nread < 0" by linarith
  then show ?thesis
  proof cases
    case 1
    then show ?thesis using c ok x on_read_again [OF x]
      by (intro exI [of _ s] exI [of _ st]) (auto simp: fun_upd_idem)
  next
    case 2
    have "reads_ok ((h_streams s)(x \<mapsto> (if ts = [] then idle st else st\<lparr>s_read_queue := ts\<rparr>)))
      (if ts = [] then us_erase x (reading_streams s) else reading_streams s)"
      using reads_ok_idle [OF ok x] reads_ok_pop [OF ok x q] by simp
    then show ?thesis using on_read_data [OF c x q 2] by fastforce
  next
    case 3
    then show ?thesis using on_read_end [OF c x _ 3] q reads_ok_idle [OF ok x] by fastforce
  qed
qed

lemma us_insert_mem: "x \<in> set xs \<Longrightarrow> us_insert x xs = xs"
  by (simp add: us_insert_def)

text \<open>Dispatching a read: fail fast in shutdown, else park the task or report the error.\<close>

lemma StreamRead_parks:
  assumes ok: "reads_ok (h_streams s) (reading_streams s)"
    and t: "h_tasks s t = Some tk" and x: "t_stream tk = x" "h_streams s x = Some st"
    and r: "\<not> shutdown_signaled s" "s_read_active st \<or> \<not> uv_read_start env x < 0"
  shows "Dispatch_StreamRead env t s =
    Inr ((put_stream x (st\<lparr>s_read_queue := s_read_queue st @ [t], s_read_active := True,
       uv_reading := True\<rparr>) s)\<lparr>reading_streams := us_insert x (reading_streams s)\<rparr>)"
proof (cases "s_read_active st")
  case True
  then have "st\<lparr>s_read_queue := s_read_queue st @ [t], s_read_active := True, uv_reading := True\<rparr>
      = st\<lparr>s_read_queue := s_read_queue st @ [t]\<rparr>"
    using reads_okD [OF ok x(2)] by simp
  then show ?thesis using True t x r by (simp add: Dispatch_StreamRead_def put_stream_def)
next
  case False
  then show ?thesis using t x r by (simp add: Dispatch_StreamRead_def)
qed

lemma StreamRead_fails:
  assumes ok: "reads_ok (h_streams s) (reading_streams s)"
    and t: "h_tasks s t = Some tk" and x: "t_stream tk = x" "h_streams s x = Some st"
    and r: "\<not> shutdown_signaled s" "\<not> s_read_active st" "uv_read_start env x < 0"
    and c: "Complete t (uv_read_start env x) s = Inr s'"
  shows "Dispatch_StreamRead env t s = Inr s'"
proof -
  have q: "s_read_queue st = []" using reads_okD [OF ok x(2)] r(2) by simp
  have e: "put_stream x (st\<lparr>s_read_queue := []\<rparr>) s = s"
    using x q by (simp add: put_stream_def fun_upd_idem)
  have "h_streams s' x = Some st"
    using Complete_effect(2) [OF c] x by (simp add: same_handles_fields)
  then show ?thesis using t x r c q e by (simp add: Dispatch_StreamRead_def)
qed

lemma same_handles_reads:
  assumes "same_handles s s'"
  shows "h_streams s' = h_streams s" "reading_streams s' = reading_streams s"
    "same_handles (s\<lparr>h_streams := h_streams s', reading_streams := reading_streams s'\<rparr>) s'"
  using assms by (simp_all add: same_handles_def)

lemma Dispatch_StreamRead_ok:
  assumes c: "core (add_mset t L) s" and ok: "reads_ok (h_streams s) (reading_streams s)"
    and t: "h_tasks s t = Some tk" and x: "t_stream tk = x" "h_streams s x = Some st"
    and o: "\<not> uv_closing st"
  shows "\<exists>s' st'. Dispatch_StreamRead env t s = Inr s' \<and> core L s'
    \<and> reads_ok (h_streams s') (reading_streams s')
    \<and> h_streams s' = (h_streams s)(x \<mapsto> st')
    \<and> uv_closing st' = uv_closing st \<and> close_task st' = close_task st
    \<and> same_handles (s\<lparr>h_streams := h_streams s', reading_streams := reading_streams s'\<rparr>) s'
    \<and> (h_tasks s' = h_tasks s \<or> (\<exists>r. h_tasks s' = done_with [t] r (h_tasks s)))"
proof -
  consider "shutdown_signaled s"
    | "\<not> shutdown_signaled s" "s_read_active st \<or> \<not> uv_read_start env x < 0"
    | "\<not> shutdown_signaled s" "\<not> s_read_active st" "uv_read_start env x < 0" by blast
  then show ?thesis
  proof cases
    case 1
    obtain s' where "Complete t UV_ECANCELED s = Inr s'" "core L s'" "same_handles s s'"
      "h_tasks s' = done_with [t] UV_ECANCELED (h_tasks s)"
      using Complete_core [OF c, of UV_ECANCELED] by blast
    then show ?thesis using 1 ok x same_handles_reads [of s s']
      by (intro exI [of _ s'] exI [of _ st]) (auto simp: Dispatch_StreamRead_def fun_upd_idem)
  next
    case 2
    let ?st' = "st\<lparr>s_read_queue := s_read_queue st @ [t], s_read_active := True, uv_reading := True\<rparr>"
    have "core L (put_stream x ?st' s)"
      by (rule core_put_stream [OF c x(2)]) (simp add: stream_held_def)
    then show ?thesis using StreamRead_parks [OF ok t x 2] reads_ok_push [OF ok x(2) o, of t]
      by (auto simp: same_handles_def put_stream_def)
  next
    case 3
    obtain s' where s': "Complete t (uv_read_start env x) s = Inr s'" "core L s'" "same_handles s s'"
      "h_tasks s' = done_with [t] (uv_read_start env x) (h_tasks s)"
      using Complete_core [OF c, of "uv_read_start env x"] by blast
    then show ?thesis using StreamRead_fails [OF ok t x 3 s'(1)] ok x same_handles_reads [of s s']
      by (intro exI [of _ s'] exI [of _ st]) (auto simp: fun_upd_idem)
  qed
qed

section \<open>Writing, closing, connecting\<close>

lemma Dispatch_StreamWrite_ok:
  assumes c: "core (add_mset t L) s" and t: "h_tasks s t = Some tk"
    and x: "h_streams s (t_stream tk) = Some st"
  shows "\<exists>s' rs. Dispatch_StreamWrite env t s = Inr s' \<and> core L s'
    \<and> same_handles (s\<lparr>uv_pending := uv_pending s @ rs\<rparr>) s'
    \<and> ((\<exists>r < 0. rs = [] \<and> h_tasks s' = done_with [t] r (h_tasks s))
       \<or> rs = [WriteReq t (t_stream tk) (task_data t tk) (t_nbytes tk)] \<and> h_tasks s' = h_tasks s)"
proof (cases "uv_write env (t_stream tk) (task_data t tk) (t_nbytes tk) < 0")
  case True
  let ?r = "uv_write env (t_stream tk) (task_data t tk) (t_nbytes tk)"
  obtain s' where s': "Complete t ?r s = Inr s'" "core L s'" "same_handles s s'"
    "h_tasks s' = done_with [t] ?r (h_tasks s)" using Complete_core [OF c, of ?r] by blast
  then show ?thesis using True t x
    by (intro exI [of _ s'] exI [of _ "[]"]) (auto simp: Dispatch_StreamWrite_def Let_def)
next
  case False
  let ?rs = "[WriteReq t (t_stream tk) (task_data t tk) (t_nbytes tk)]"
  have "core L (s\<lparr>uv_pending := uv_pending s @ ?rs\<rparr>)" by (rule core_pending_upd [OF c]) simp
  then show ?thesis using False t x
    by (intro exI [of _ "s\<lparr>uv_pending := uv_pending s @ ?rs\<rparr>"] exI [of _ ?rs])
      (simp add: Dispatch_StreamWrite_def Let_def)
qed

lemma on_write_ok:
  assumes c: "core (add_mset t L) s" and t: "h_tasks s t = Some tk"
  shows "\<exists>s'. on_write t status s = Inr s' \<and> core L s' \<and> same_handles s s'
    \<and> h_tasks s' = done_with [t] (if status < 0 then status else uint (t_nbytes tk)) (h_tasks s)"
  using Complete_core [OF c, of "if status < 0 then status else uint (t_nbytes tk)"] t
  by (simp add: on_write_def)

lemma Dispatch_StreamClose_ok:
  assumes c: "core (add_mset t L) s" and ok: "reads_ok (h_streams s) (reading_streams s)"
    and t: "h_tasks s t = Some tk" and x: "t_stream tk = x" "h_streams s x = Some st"
    and o: "\<not> uv_closing st" "close_task st = nullptr"
  shows "\<exists>s'. Dispatch_StreamClose t s = Inr s' \<and> core L s'
    \<and> reads_ok (h_streams s') (reading_streams s')
    \<and> h_streams s' = (h_streams s)(x \<mapsto> (idle st)\<lparr>close_task := t, uv_closing := True\<rparr>)
    \<and> same_handles (s\<lparr>h_streams := h_streams s', reading_streams := reading_streams s'\<rparr>) s'
    \<and> h_tasks s' = done_with (s_read_queue st) UV_ECANCELED (h_tasks s)"
proof -
  let ?h = "(idle st)\<lparr>close_task := t, uv_closing := True\<rparr>"
  obtain s1 where s1: "cancel_reads x s = Inr s1" "core (add_mset t L) s1"
      "same_handles (put_stream x (idle st) s) s1"
      "h_tasks s1 = done_with (s_read_queue st) UV_ECANCELED (h_tasks s)"
    using cancel_reads_core [OF c x(2)] reads_okD(2) [OF ok x(2)] by blast
  let ?s2 = "s1\<lparr>reading_streams := us_erase x (reading_streams s1)\<rparr>"
  have x1: "h_streams ?s2 x = Some (idle st)" using s1(3) by (simp add: same_handles_fields)
  have c2: "core (opt_task t + L) ?s2" using s1(2) core_local_nonnull [OF c] by simp
  note cl = stream_close.Close_core [OF c2 x1]
  have r: "Dispatch_StreamClose t s = Inr (put_stream x ?h ?s2)"
    using t x(1) s1(1) cl(1) o by (simp add: Dispatch_StreamClose_def Stream_Close_def put_stream_def)
  have "reads_ok ((h_streams s)(x \<mapsto> ?h)) (us_erase x (reading_streams s))"
    using reads_ok_close [OF reads_ok_idle [OF ok x(2)], of x "idle st" t] by simp
  moreover have "core L (put_stream x ?h ?s2)" using cl(2) o by (simp add: put_stream_def)
  ultimately show ?thesis using r s1(3,4)
    by (auto simp: same_handles_def put_stream_def)
qed

text \<open>The shutdown sweep over any set of streams.\<close>

lemma same_handles_put_stream:
  "same_handles (put_stream x st s) s' \<Longrightarrow> same_handles (s\<lparr>h_streams := h_streams s'\<rparr>) s'"
  by (simp add: same_handles_def put_stream_def)

lemma same_handles_streams_trans:
  "same_handles (s\<lparr>h_streams := h_streams s1\<rparr>) s1 \<Longrightarrow> same_handles (s1\<lparr>h_streams := h_streams s2\<rparr>) s2
    \<Longrightarrow> same_handles (s\<lparr>h_streams := h_streams s2\<rparr>) s2"
  by (simp add: same_handles_def)

lemma cancel_loop:
  assumes "core L s" and "distinct xs"
    and "\<And>x. x \<in> set xs \<Longrightarrow> \<exists>st. h_streams s x = Some st \<and> uv_reading st = s_read_active st"
  shows "\<exists>s'. sfold cancel_reads xs s = Inr s' \<and> core L s'
    \<and> h_streams s' = (\<lambda>x. if x \<in> set xs then map_option idle (h_streams s x) else h_streams s x)
    \<and> same_handles (s\<lparr>h_streams := h_streams s'\<rparr>) s'
    \<and> h_tasks s' = done_with (concat (map (\<lambda>x. s_read_queue (the (h_streams s x))) xs))
        UV_ECANCELED (h_tasks s)"
  using assms
proof (induction xs arbitrary: s)
  case Nil
  then show ?case by simp
next
  case (Cons x xs)
  from Cons.prems(3) [of x] obtain st where st: "h_streams s x = Some st"
    "uv_reading st = s_read_active st" by auto
  from cancel_reads_core [OF Cons.prems(1) st] obtain s1 where s1: "cancel_reads x s = Inr s1"
    "core L s1" "same_handles (put_stream x (idle st) s) s1"
    "h_tasks s1 = done_with (s_read_queue st) UV_ECANCELED (h_tasks s)" by blast
  have h1: "h_streams s1 = (h_streams s)(x \<mapsto> idle st)"
    using s1(3) by (rule same_handles_put_streamD)
  have q: "map (\<lambda>x. s_read_queue (the (h_streams s1 x))) xs
      = map (\<lambda>x. s_read_queue (the (h_streams s x))) xs"
    using Cons.prems(2) by (auto simp: h1)
  have "\<exists>st. h_streams s1 y = Some st \<and> uv_reading st = s_read_active st" if "y \<in> set xs" for y
    using Cons.prems(2,3) that by (auto simp: h1)
  from Cons.IH [OF s1(2) _ this] Cons.prems(2) obtain s2 where s2: "sfold cancel_reads xs s1 = Inr s2"
    "core L s2" "same_handles (s1\<lparr>h_streams := h_streams s2\<rparr>) s2"
    "h_streams s2 = (\<lambda>x. if x \<in> set xs then map_option idle (h_streams s1 x) else h_streams s1 x)"
    "h_tasks s2 = done_with (concat (map (\<lambda>x. s_read_queue (the (h_streams s1 x))) xs))
        UV_ECANCELED (h_tasks s1)" by auto
  have "h_streams s2
      = (\<lambda>y. if y \<in> set (x # xs) then map_option idle (h_streams s y) else h_streams s y)"
    using st(1) by (auto simp: s2(4) h1 fun_eq_iff)
  moreover have "same_handles (s\<lparr>h_streams := h_streams s2\<rparr>) s2"
    using same_handles_streams_trans same_handles_put_stream [OF s1(3)] s2(3) by blast
  moreover have "h_tasks s2 = done_with
      (concat (map (\<lambda>x. s_read_queue (the (h_streams s x))) (x # xs))) UV_ECANCELED (h_tasks s)"
    unfolding s2(5) q s1(4) by (simp add: done_with_append st(1))
  ultimately show ?case using s1(1) s2(1,2) by simp
qed

text \<open>
  The sweep in a state of the read machine: whatever order the set is iterated in, every
  parked reader completes with \<open>ECANCELED\<close>, and afterwards no stream has a reader.
\<close>

lemma reads_ok_all_idle:
  assumes "reads_ok m rs" and "set xs = set rs"
  shows "(\<lambda>x. if x \<in> set xs then map_option idle (m x) else m x) = (\<lambda>x. map_option idle (m x))"
proof
  fix x
  show "(if x \<in> set xs then map_option idle (m x) else m x) = map_option idle (m x)"
  proof (cases "x \<in> set rs \<or> m x = None")
    case True
    then show ?thesis using assms(2) by auto
  next
    case False
    then obtain st where st: "m x = Some st" by auto
    then have "idle st = st" using reads_okD [OF assms(1) st] False by (simp add: idle_def)
    then show ?thesis using st by simp
  qed
qed

lemma reads_ok_idle_all: "reads_ok m rs \<Longrightarrow> reads_ok (\<lambda>x. map_option idle (m x)) []"
  by (auto simp: reads_ok_def)

lemma cancel_pending_reads_ok:
  assumes c: "core L s" and ok: "reads_ok (h_streams s) (reading_streams s)"
    and it: "mset (iter_order env (reading_streams s)) = mset (reading_streams s)"
  shows "\<exists>s'. cancel_pending_reads env s = Inr s' \<and> core L s'
    \<and> h_streams s' = (\<lambda>x. map_option idle (h_streams s x)) \<and> reading_streams s' = []
    \<and> same_handles (s\<lparr>h_streams := h_streams s', reading_streams := []\<rparr>) s'
    \<and> h_tasks s' = done_with (concat (map (\<lambda>x. s_read_queue (the (h_streams s x)))
        (iter_order env (reading_streams s)))) UV_ECANCELED (h_tasks s)"
proof -
  let ?xs = "iter_order env (reading_streams s)"
  have xs: "set ?xs = set (reading_streams s)" using it by (metis set_mset_mset)
  have "distinct (reading_streams s)" using ok by (simp add: reads_ok_def)
  then have d: "distinct ?xs" using it by (metis mset_eq_imp_distinct_iff)
  have "\<exists>st. h_streams s x = Some st \<and> uv_reading st = s_read_active st" if "x \<in> set ?xs" for x
    using that xs ok by (auto simp: reads_ok_def)
  from cancel_loop [OF c d this] show ?thesis
    unfolding reads_ok_all_idle [OF ok xs]
    by (auto simp: cancel_pending_reads_def same_handles_def)
qed

lemma put_task_simps [simp]:
  "h_tasks (put_task t tk s) = (h_tasks s)(t \<mapsto> tk)"
  "h_streams (put_task t tk s) = h_streams s"
  "uv_pending (put_task t tk s) = uv_pending s"
  "put_task t tk' (put_task t tk s) = put_task t tk' s"
  by (simp_all add: put_task_def)

lemma put_task_same_handles [simp]: "same_handles s (put_task t tk s)"
  by (simp add: same_handles_def put_task_def)

lemma new_Stream_simps [simp]:
  "h_streams (new_Stream x s) = (h_streams s)(x \<mapsto> Stream_ctor)"
  "h_tasks (new_Stream x s) = h_tasks s"
  "uv_pending (new_Stream x s) = uv_pending s"
  by (simp_all add: new_Stream_def Counted_ctor_def)

lemma new_Stream_same_handles: "same_handles (s\<lparr>h_streams := (h_streams s)(x \<mapsto> Stream_ctor)\<rparr>) (new_Stream x s)"
  by (simp add: same_handles_def new_Stream_def Counted_ctor_def)

text \<open>Discarding a stream nobody was given: no close task, then the reason to the client.\<close>

lemma discard_stream:
  assumes c: "core (add_mset t L) s" and x: "h_streams s x = Some st"
    and o: "\<not> uv_closing st" "close_task st = nullptr"
  shows "\<exists>s'. sbind (Stream_Close x nullptr s) (Complete t r) = Inr s' \<and> core L s'
    \<and> h_streams s' = (h_streams s)(x \<mapsto> st\<lparr>uv_closing := True\<rparr>)
    \<and> same_handles (s\<lparr>h_streams := h_streams s'\<rparr>) s'
    \<and> h_tasks s' = done_with [t] r (h_tasks s)"
proof -
  have c0: "core (opt_task nullptr + add_mset t L) s" using c by simp
  note cl = stream_close.Close_core [OF c0 x o]
  have e: "st\<lparr>close_task := nullptr, uv_closing := True\<rparr> = st\<lparr>uv_closing := True\<rparr>"
    using o by simp
  show ?thesis using Complete_core [OF cl(2), of r] cl(1)
    by (auto simp: Stream_Close_def e same_handles_def)
qed

lemma Dispatch_TcpConnect_ok:
  assumes c: "core (add_mset t L) s" and t: "h_tasks s t = Some tk"
    and x: "new_addr env 0 = x" "h_streams s x = None" "x \<noteq> 0"
    and p: "fst (parse_ip_addr env (t_path tk) (t_port tk)) \<le> 0"
  shows "\<exists>s' st tk'. Dispatch_TcpConnect env t s = Inr s' \<and> core L s'
    \<and> h_streams s' = (h_streams s)(x \<mapsto> st)
    \<and> h_tasks s' = (h_tasks s)(t \<mapsto> tk')
    \<and> same_handles (s\<lparr>h_streams := h_streams s', uv_pending := uv_pending s'\<rparr>) s'
    \<and> (st = Stream_ctor \<and> uv_pending s' = uv_pending s @ [ConnectReq t x]
          \<and> tk' = tk\<lparr>t_stream := x\<rparr>
       \<or> st = Stream_ctor\<lparr>uv_closing := True\<rparr> \<and> uv_pending s' = uv_pending s
          \<and> (\<exists>r. r < 0 \<and> tk' = completed r (tk\<lparr>t_stream := nullptr\<rparr>)))"
proof -
  obtain r0 sa where pa: "parse_ip_addr env (t_path tk) (t_port tk) = (r0, sa)" by fastforce
  let ?r = "if r0 = 0 then uv_tcp_connect env sa else r0"
  let ?tk1 = "tk\<lparr>t_stream := x\<rparr>"
  let ?s1 = "put_task t ?tk1 (new_Stream x s)"
  have c1: "core (add_mset t L) (put_task t tk' (new_Stream x s))"
    if "t_done tk' = t_done tk" "t_cq tk' = t_cq tk" "t_pinned_obj tk' = t_pinned_obj tk" for tk'
    by (rule core_put_task [OF new_Stream_core [OF c x(2,3)]]) (use t that in simp_all)
  have ns: "same_handles (s\<lparr>h_streams := (h_streams s)(x \<mapsto> Stream_ctor)\<rparr>) (put_task t tk' (new_Stream x s))"
    for tk' using new_Stream_same_handles put_task_same_handles by (rule same_handles_trans)
  show ?thesis
  proof (cases "?r < 0")
    case True
    let ?tk2 = "tk\<lparr>t_stream := nullptr\<rparr>"
    let ?s2 = "put_task t ?tk2 (new_Stream x s)"
    have c2: "core (add_mset t L) ?s2" by (rule c1) simp_all
    obtain s' where s': "sbind (Stream_Close x nullptr ?s2) (Complete t ?r) = Inr s'" "core L s'"
      "h_streams s' = (h_streams s)(x \<mapsto> Stream_ctor\<lparr>uv_closing := True\<rparr>)"
      "same_handles (?s2\<lparr>h_streams := h_streams s'\<rparr>) s'"
      "h_tasks s' = done_with [t] ?r ((h_tasks s)(t \<mapsto> ?tk2))"
      using discard_stream [OF c2, of x Stream_ctor ?r] by (auto simp: Stream_ctor_def)
    have "Dispatch_TcpConnect env t s = Inr s'"
      using s'(1) t True x(1) pa by (auto simp: Dispatch_TcpConnect_def)
    moreover have "same_handles (s\<lparr>h_streams := h_streams s', uv_pending := uv_pending s'\<rparr>) s'"
      "uv_pending s' = uv_pending s"
      using s'(4) ns [of ?tk2] by (simp_all add: same_handles_def)
    moreover have "h_tasks s' = (h_tasks s)(t \<mapsto> completed ?r ?tk2)"
      using s'(5) by (simp add: done_with_single)
    ultimately show ?thesis using s'(2,3) True by blast
  next
    case False
    then have r0: "r0 = 0" using p pa by (auto split: if_splits)
    let ?rs = "uv_pending s @ [ConnectReq t x]"
    have "core L (?s1\<lparr>uv_pending := ?rs\<rparr>)"
      by (rule core_pending_upd [OF c1]) simp_all
    moreover have "Dispatch_TcpConnect env t s = Inr (?s1\<lparr>uv_pending := ?rs\<rparr>)"
      using t False r0 x(1) pa by (simp add: Dispatch_TcpConnect_def)
    moreover have "same_handles (s\<lparr>h_streams := (h_streams s)(x \<mapsto> Stream_ctor), uv_pending := ?rs\<rparr>)
       (?s1\<lparr>uv_pending := ?rs\<rparr>)"
      using ns [of ?tk1] by (simp add: same_handles_def)
    ultimately show ?thesis by auto
  qed
qed

text \<open>The connect callback hands the stream out, or discards it and reports the error.\<close>

lemma on_connect_ok:
  assumes c: "core (add_mset t L) s" and t: "h_tasks s t = Some tk" "t_stream tk = x"
    and x: "h_streams s x = Some st" "\<not> uv_closing st" "close_task st = nullptr"
  shows "\<exists>s'. on_connect t status s = Inr s' \<and> core L s'
    \<and> h_streams s' = (h_streams s)(x \<mapsto> (if status < 0 then st\<lparr>uv_closing := True\<rparr> else st))
    \<and> same_handles (s\<lparr>h_streams := h_streams s'\<rparr>) s'
    \<and> h_tasks s' = (h_tasks s)(t \<mapsto> (if status < 0 then completed status (tk\<lparr>t_stream := nullptr\<rparr>)
        else completed (as_result x) tk))"
proof (cases "status < 0")
  case True
  let ?tk' = "tk\<lparr>t_stream := nullptr\<rparr>"
  let ?s1 = "put_task t ?tk' s"
  have c1: "core (add_mset t L) ?s1" by (rule core_put_task [OF c t(1)]) simp_all
  obtain s' where s': "sbind (Stream_Close x nullptr ?s1) (Complete t status) = Inr s'" "core L s'"
    "h_streams s' = (h_streams s)(x \<mapsto> st\<lparr>uv_closing := True\<rparr>)"
    "same_handles (?s1\<lparr>h_streams := h_streams s'\<rparr>) s'"
    "h_tasks s' = done_with [t] status ((h_tasks s)(t \<mapsto> ?tk'))"
    using discard_stream [OF c1, of x st status] x by auto
  have "same_handles (s\<lparr>h_streams := h_streams s'\<rparr>) s'"
    using s'(4) by (simp add: same_handles_def put_task_def)
  then show ?thesis using s' t True by (simp add: on_connect_def done_with_single)
next
  case False
  obtain s' where s': "Complete t (as_result x) s = Inr s'" "core L s'" "same_handles s s'"
    "h_tasks s' = done_with [t] (as_result x) (h_tasks s)"
    using Complete_core [OF c, of "as_result x"] by blast
  have "h_streams s' = h_streams s" using s'(3) by (simp add: same_handles_fields)
  then show ?thesis using False s' t x by (simp add: on_connect_def done_with_single fun_upd_idem)
qed

end
