(* ===== verification/Listeners.thy ===== *)
theory Listeners
  imports Streams
begin

text \<open>
  Listening sockets (\<^verbatim>\<open>net.hpp\<close> \<open>Listener\<close>; \<^verbatim>\<open>runtime.cpp\<close>): listening, the connection
  callback, accepting, and closing. A listener keeps either connections nobody has
  asked for yet or accept tasks waiting for a connection, never both; the registry
  \<open>listeners\<close> holds exactly the listeners that are open (\<open>listeners_ok\<close>), which is what
  the signal path and a late \<open>ListenerClose\<close> rely on.
\<close>

section \<open>Definitions\<close>

definition put_listener :: "addr \<Rightarrow> listener_obj \<Rightarrow> runtime \<Rightarrow> runtime" where
  "put_listener l lo s = s\<lparr>h_listeners := (h_listeners s)(l \<mapsto> lo)\<rparr>"

definition on_connection :: "uv_env \<Rightarrow> addr \<Rightarrow> int \<Rightarrow> runtime \<Rightarrow> fault + runtime" where
  "on_connection env l status s = sbind (deref (h_listeners s) l) (\<lambda>lo.
     if status < 0 then Inr s
     else
       let x = new_addr env 0;
           s1 = new_Stream x s
       in if uv_accept env \<noteq> 0 then Stream_Close x nullptr s1
          else case l_pending_accepts lo of
            t # ts \<Rightarrow> Complete t (as_result x) (put_listener l (lo\<lparr>l_pending_accepts := ts\<rparr>) s1)
          | [] \<Rightarrow> Inr (put_listener l (lo\<lparr>l_accepted := l_accepted lo @ [x]\<rparr>) s1))"

text \<open>The loop \<open>while (!pending_accepts.empty())\<close> of \<open>abort_listener\<close>.\<close>

fun drain_accepts :: "nat \<Rightarrow> addr \<Rightarrow> runtime \<Rightarrow> fault + runtime" where
  "drain_accepts 0 l s = Inr s"
| "drain_accepts (Suc n) l s = sbind (deref (h_listeners s) l) (\<lambda>lo.
     case l_pending_accepts lo of
       [] \<Rightarrow> Inr s
     | p # ps \<Rightarrow> sbind (Complete p UV_ECANCELED (put_listener l (lo\<lparr>l_pending_accepts := ps\<rparr>) s))
                  (drain_accepts n l))"

definition abort_listener :: "addr \<Rightarrow> addr \<Rightarrow> runtime \<Rightarrow> fault + runtime" where
  "abort_listener l ct s = sbind (deref (h_listeners s) l) (\<lambda>lo.
     sbind (sfold (\<lambda>x. Stream_Close x nullptr) (l_accepted lo) s) (\<lambda>s1.
       sbind (drain_accepts (length (l_pending_accepts lo)) l
                (put_listener l (lo\<lparr>l_accepted := []\<rparr>) s1))
         (Listener_Close l ct)))"

definition Dispatch_TcpListen :: "uv_env \<Rightarrow> addr \<Rightarrow> runtime \<Rightarrow> fault + runtime" where
  "Dispatch_TcpListen env t s = sbind (deref (h_tasks s) t) (\<lambda>tk.
     let l = new_addr env 0;
         s1 = new_Listener l s;
         (r0, sa) = parse_ip_addr env (t_path tk) (t_port tk);
         r1 = (if r0 = 0 then uv_tcp_bind env sa else r0);
         r = (if r1 = 0 then uv_listen env (t_backlog tk) else r1)
     in if r < 0 then sbind (Listener_Close l nullptr s1) (Complete t r)
        else Complete t (as_result l) (s1\<lparr>listeners := us_insert l (listeners s1)\<rparr>))"

definition Dispatch_TcpAccept :: "addr \<Rightarrow> runtime \<Rightarrow> fault + runtime" where
  "Dispatch_TcpAccept t s = sbind (deref (h_tasks s) t) (\<lambda>tk.
     let l = t_listener tk in
     sbind (deref (h_listeners s) l) (\<lambda>lo.
       case l_accepted lo of
         x # xs \<Rightarrow> Complete t (as_result x) (put_listener l (lo\<lparr>l_accepted := xs\<rparr>) s)
       | [] \<Rightarrow> Inr (put_listener l (lo\<lparr>l_pending_accepts := l_pending_accepts lo @ [t]\<rparr>) s)))"

definition Dispatch_ListenerClose :: "addr \<Rightarrow> runtime \<Rightarrow> fault + runtime" where
  "Dispatch_ListenerClose t s = sbind (deref (h_tasks s) t) (\<lambda>tk.
     let l = t_listener tk in
     if l \<notin> set (listeners s) then Complete t 0 s
     else abort_listener l t (s\<lparr>listeners := us_erase l (listeners s)\<rparr>))"

subsection \<open>The listener invariant\<close>

definition listeners_ok :: "(addr \<rightharpoonup> listener_obj) \<Rightarrow> addr list \<Rightarrow> bool" where
  "listeners_ok m reg \<longleftrightarrow> distinct reg \<and> (\<forall>l. l \<in> set reg \<longleftrightarrow> open_in m l) \<and>
     (\<forall>l lo. m l = Some lo \<longrightarrow>
        (l_accepted lo = [] \<or> l_pending_accepts lo = []) \<and>
        (uv_closing lo \<longrightarrow> l_accepted lo = [] \<and> l_pending_accepts lo = []) \<and>
        (\<not> uv_closing lo \<longrightarrow> close_task lo = nullptr))"

text \<open>A listener all of whose connections and waiters are gone, and being closed.\<close>

definition aborted :: "addr \<Rightarrow> listener_obj \<Rightarrow> listener_obj" where
  "aborted ct lo = lo\<lparr>l_accepted := [], l_pending_accepts := [], close_task := ct,
     uv_closing := True\<rparr>"

text \<open>The streams of a list begin closing with no close task.\<close>

definition closing_all :: "addr list \<Rightarrow> (addr \<rightharpoonup> stream_obj) \<Rightarrow> (addr \<rightharpoonup> stream_obj)" where
  "closing_all xs m = (\<lambda>x. if x \<in> set xs then map_option (\<lambda>st. st\<lparr>uv_closing := True\<rparr>) (m x) else m x)"

section \<open>Ownership\<close>

lemma core_put_listener:
  assumes "core L s" and "h_listeners s l = Some lo"
    and "listener_held lo + L = listener_held lo' + L'"
  shows "core L' (put_listener l lo' s)"
  using listener_heap.core_obj_upd [OF assms] by (simp add: put_listener_def)

lemma put_listener_simps [simp]:
  "h_listeners (put_listener l lo s) = (h_listeners s)(l \<mapsto> lo)"
  "h_tasks (put_listener l lo s) = h_tasks s" "h_streams (put_listener l lo s) = h_streams s"
  "put_listener l lo' (put_listener l lo s) = put_listener l lo' s"
  "listeners (put_listener l lo s) = listeners s"
  by (simp_all add: put_listener_def)

lemma put_listener_same_handles:
  "same_handles s s' \<Longrightarrow> same_handles (put_listener l lo s) (put_listener l lo s')"
  by (simp add: same_handles_def put_listener_def)

lemma core_listeners [simp]: "core L (s\<lparr>listeners := ls\<rparr>) \<longleftrightarrow> core L s"
  by (auto intro: core_cong)

lemma new_Listener_simps [simp]:
  "h_listeners (new_Listener l s) = (h_listeners s)(l \<mapsto> Listener_ctor)"
  "h_tasks (new_Listener l s) = h_tasks s" "listeners (new_Listener l s) = listeners s"
  by (simp_all add: new_Listener_def Counted_ctor_def)

lemma new_Stream_listeners [simp]: "h_listeners (new_Stream x s) = h_listeners s"
  by (simp add: new_Stream_def Counted_ctor_def)

lemma drain_accepts_core:
  assumes "core L s" and "h_listeners s l = Some lo" and "length (l_pending_accepts lo) = n"
  shows "\<exists>s'. drain_accepts n l s = Inr s' \<and> core L s'
    \<and> same_handles (put_listener l (lo\<lparr>l_pending_accepts := []\<rparr>) s) s'
    \<and> h_tasks s' = done_with (l_pending_accepts lo) UV_ECANCELED (h_tasks s)"
  using assms
proof (induction n arbitrary: s lo)
  case 0
  then have "put_listener l (lo\<lparr>l_pending_accepts := []\<rparr>) s = s"
    by (simp add: put_listener_def fun_upd_idem)
  then show ?case using 0 by simp
next
  case (Suc n)
  then obtain p ps where q: "l_pending_accepts lo = p # ps" "length ps = n"
    by (auto simp: length_Suc_conv)
  let ?l1 = "lo\<lparr>l_pending_accepts := ps\<rparr>"
  let ?s1 = "put_listener l ?l1 s"
  have "core (add_mset p L) ?s1"
    by (rule core_put_listener [OF Suc.prems(1,2)]) (simp add: q listener_held_def)
  from Complete_core [OF this, of UV_ECANCELED] obtain s2 where s2:
    "Complete p UV_ECANCELED ?s1 = Inr s2" "core L s2" "same_handles ?s1 s2"
    "h_tasks s2 = done_with [p] UV_ECANCELED (h_tasks s)" by auto
  have l2: "h_listeners s2 l = Some ?l1" using s2(3) by (simp add: same_handles_fields)
  from Suc.IH [OF s2(2) l2] q(2) obtain s3 where s3: "drain_accepts n l s2 = Inr s3"
    "core L s3" "same_handles (put_listener l (?l1\<lparr>l_pending_accepts := []\<rparr>) s2) s3"
    "h_tasks s3 = done_with ps UV_ECANCELED (h_tasks s2)" by auto
  have "same_handles (put_listener l (lo\<lparr>l_pending_accepts := []\<rparr>) ?s1)
      (put_listener l (lo\<lparr>l_pending_accepts := []\<rparr>) s2)"
    using s2(3) by (rule put_listener_same_handles)
  with s3(3) have "same_handles (put_listener l (lo\<lparr>l_pending_accepts := []\<rparr>) s) s3"
    by (auto intro: same_handles_trans)
  moreover have "drain_accepts (Suc n) l s = Inr s3" using Suc.prems(2) q(1) s2(1) s3(1) by simp
  moreover have "h_tasks s3 = done_with (l_pending_accepts lo) UV_ECANCELED (h_tasks s)"
    using s3(4) s2(4) q(1) by (simp add: done_with_append)
  ultimately show ?case using s3(2) by blast
qed

text \<open>Closing connections nobody consumed.\<close>

lemma close_all_core:
  assumes "core L s" and "distinct xs"
    and "\<And>x. x \<in> set xs \<Longrightarrow> \<exists>st. h_streams s x = Some st \<and> \<not> uv_closing st \<and> close_task st = nullptr"
  shows "\<exists>s'. sfold (\<lambda>x. Stream_Close x nullptr) xs s = Inr s' \<and> core L s'
    \<and> s' = s\<lparr>h_streams := closing_all xs (h_streams s)\<rparr>"
  using assms
proof (induction xs arbitrary: s)
  case Nil
  then show ?case by (simp add: closing_all_def)
next
  case (Cons x xs)
  from Cons.prems(3) [of x] obtain st where st: "h_streams s x = Some st" "\<not> uv_closing st"
    "close_task st = nullptr" by auto
  let ?s1 = "s\<lparr>h_streams := (h_streams s)(x \<mapsto> st\<lparr>uv_closing := True\<rparr>)\<rparr>"
  have e: "st\<lparr>close_task := nullptr, uv_closing := True\<rparr> = st\<lparr>uv_closing := True\<rparr>" using st by simp
  have s1: "Stream_Close x nullptr s = Inr ?s1" "core L ?s1"
    using stream_close.Close_core [of nullptr L s x st] st Cons.prems(1)
    by (simp_all add: Stream_Close_def e)
  have "\<exists>st. h_streams ?s1 y = Some st \<and> \<not> uv_closing st \<and> close_task st = nullptr"
    if "y \<in> set xs" for y using Cons.prems(2,3) that by auto
  with Cons.IH [OF s1(2)] Cons.prems(2)
  have "sfold (\<lambda>x. Stream_Close x nullptr) xs ?s1 = Inr (?s1\<lparr>h_streams := closing_all xs (h_streams ?s1)\<rparr>)"
    "core L (?s1\<lparr>h_streams := closing_all xs (h_streams ?s1)\<rparr>)" by (metis distinct.simps(2))+
  moreover have "closing_all xs (h_streams ?s1) = closing_all (x # xs) (h_streams s)"
    using st(1) Cons.prems(2) by (auto simp: closing_all_def fun_eq_iff)
  ultimately show ?case using s1(1) by simp
qed

lemma aborted_simps [simp]:
  "l_accepted (aborted ct lo) = []" "l_pending_accepts (aborted ct lo) = []"
  "uv_closing (aborted ct lo)" "close_task (aborted ct lo) = ct"
  by (simp_all add: aborted_def)

text \<open>
  Aborting a listener: the unconsumed connections begin closing, every parked acceptor
  completes with \<open>ECANCELED\<close>, and the handle begins closing with its close task.
\<close>

lemma abort_listener_ok:
  assumes c: "core (opt_task ct + L) s" and l: "h_listeners s l = Some lo"
    and o: "\<not> uv_closing lo" "close_task lo = nullptr" and d: "distinct (l_accepted lo)"
    and x: "\<And>x. x \<in> set (l_accepted lo) \<Longrightarrow>
      \<exists>st. h_streams s x = Some st \<and> \<not> uv_closing st \<and> close_task st = nullptr"
  shows "\<exists>s'. abort_listener l ct s = Inr s' \<and> core L s'
    \<and> h_listeners s' = (h_listeners s)(l \<mapsto> aborted ct lo)
    \<and> h_streams s' = closing_all (l_accepted lo) (h_streams s)
    \<and> same_handles (s\<lparr>h_listeners := h_listeners s', h_streams := h_streams s'\<rparr>) s'
    \<and> h_tasks s' = done_with (l_pending_accepts lo) UV_ECANCELED (h_tasks s)"
proof -
  let ?s1 = "s\<lparr>h_streams := closing_all (l_accepted lo) (h_streams s)\<rparr>"
  have s1: "sfold (\<lambda>x. Stream_Close x nullptr) (l_accepted lo) s = Inr ?s1"
    "core (opt_task ct + L) ?s1"
    using close_all_core [OF c d] x by blast+
  let ?l1 = "lo\<lparr>l_accepted := []\<rparr>" let ?l2 = "?l1\<lparr>l_pending_accepts := []\<rparr>"
  have c2: "core (opt_task ct + L) (put_listener l ?l1 ?s1)"
    by (rule core_put_listener [OF s1(2)]) (simp_all add: l listener_held_def)
  have l1: "h_listeners (put_listener l ?l1 ?s1) l = Some ?l1" by simp
  obtain s3 where s3: "drain_accepts (length (l_pending_accepts lo)) l (put_listener l ?l1 ?s1) = Inr s3"
    "core (opt_task ct + L) s3"
    "same_handles (put_listener l ?l2 (put_listener l ?l1 ?s1)) s3"
    "h_tasks s3 = done_with (l_pending_accepts lo) UV_ECANCELED (h_tasks s)"
    using drain_accepts_core [OF c2 l1] by auto
  have l3: "h_listeners s3 l = Some ?l2" using s3(3) by (simp add: same_handles_fields)
  have o3: "\<not> uv_closing ?l2" "close_task ?l2 = nullptr" using o by simp_all
  note cl = listener_close.Close_core [OF s3(2) l3 o3]
  have e: "?l2\<lparr>close_task := ct, uv_closing := True\<rparr> = aborted ct lo" by (simp add: aborted_def)
  have f: "h_listeners s3 = (h_listeners s)(l \<mapsto> ?l2)"
    "h_streams s3 = closing_all (l_accepted lo) (h_streams s)"
    using same_handles_fields(1,2) [OF s3(3)] by (simp_all add: put_listener_def)
  have "abort_listener l ct s = Inr (s3\<lparr>h_listeners := (h_listeners s)(l \<mapsto> aborted ct lo)\<rparr>)"
    using l s1(1) s3(1) cl(1) by (simp add: abort_listener_def Listener_Close_def e f)
  moreover have "core L (s3\<lparr>h_listeners := (h_listeners s)(l \<mapsto> aborted ct lo)\<rparr>)"
    using cl(2) by (simp add: e f)
  moreover have "same_handles (s\<lparr>h_listeners := (h_listeners s)(l \<mapsto> aborted ct lo),
      h_streams := h_streams s3\<rparr>) (s3\<lparr>h_listeners := (h_listeners s)(l \<mapsto> aborted ct lo)\<rparr>)"
    using s3(3) by (simp add: same_handles_def put_listener_def)
  ultimately show ?thesis using s3(4) f(2) by fastforce
qed

section \<open>Accepting\<close>

text \<open>A task asking for a connection gets the oldest one, or waits at the end of the queue.\<close>

lemma Dispatch_TcpAccept_ok:
  assumes c: "core (add_mset t L) s" and t: "h_tasks s t = Some tk" "t_listener tk = l"
    and l: "h_listeners s l = Some lo"
  shows "\<exists>s' lo'. Dispatch_TcpAccept t s = Inr s' \<and> core L s'
    \<and> h_listeners s' = (h_listeners s)(l \<mapsto> lo')
    \<and> same_handles (s\<lparr>h_listeners := h_listeners s'\<rparr>) s'
    \<and> (l_accepted lo = [] \<and> lo' = lo\<lparr>l_pending_accepts := l_pending_accepts lo @ [t]\<rparr>
          \<and> h_tasks s' = h_tasks s
       \<or> (\<exists>x xs. l_accepted lo = x # xs \<and> lo' = lo\<lparr>l_accepted := xs\<rparr>
          \<and> h_tasks s' = done_with [t] (as_result x) (h_tasks s)))"
proof (cases "l_accepted lo")
  case Nil
  let ?l1 = "lo\<lparr>l_pending_accepts := l_pending_accepts lo @ [t]\<rparr>"
  have "core L (put_listener l ?l1 s)"
    by (rule core_put_listener [OF c l]) (simp add: listener_held_def)
  then show ?thesis using Nil t l
    by (simp add: Dispatch_TcpAccept_def put_listener_def same_handles_def)
next
  case (Cons x xs)
  let ?l1 = "lo\<lparr>l_accepted := xs\<rparr>"
  have "core (add_mset t L) (put_listener l ?l1 s)"
    by (rule core_put_listener [OF c l]) (simp add: listener_held_def)
  from Complete_core [OF this, of "as_result x"] obtain s' where s':
    "Complete t (as_result x) (put_listener l ?l1 s) = Inr s'" "core L s'"
    "same_handles (put_listener l ?l1 s) s'" "h_tasks s' = done_with [t] (as_result x) (h_tasks s)"
    by auto
  have "h_listeners s' = (h_listeners s)(l \<mapsto> ?l1)" "same_handles (s\<lparr>h_listeners := h_listeners s'\<rparr>) s'"
    using s'(3) by (simp_all add: same_handles_def put_listener_def)
  then show ?thesis using Cons t l s'(1,2,4) by (auto simp: Dispatch_TcpAccept_def)
qed

text \<open>The connection callback: the oldest waiter gets the stream, or the stream waits.\<close>

lemma on_connection_accepts:
  assumes c: "core L s" and l: "h_listeners s l = Some lo" and st: "\<not> status < 0"
    and x: "new_addr env 0 = x" "h_streams s x = None" "x \<noteq> 0" and a: "uv_accept env = 0"
  shows "\<exists>s' lo'. on_connection env l status s = Inr s' \<and> core L s'
    \<and> h_streams s' = (h_streams s)(x \<mapsto> Stream_ctor)
    \<and> h_listeners s' = (h_listeners s)(l \<mapsto> lo')
    \<and> same_handles (s\<lparr>h_listeners := h_listeners s', h_streams := h_streams s'\<rparr>) s'
    \<and> (l_pending_accepts lo = [] \<and> lo' = lo\<lparr>l_accepted := l_accepted lo @ [x]\<rparr>
          \<and> h_tasks s' = h_tasks s
       \<or> (\<exists>t ts. l_pending_accepts lo = t # ts \<and> lo' = lo\<lparr>l_pending_accepts := ts\<rparr>
          \<and> h_tasks s' = done_with [t] (as_result x) (h_tasks s)))"
proof -
  have c1: "core L (new_Stream x s)" by (rule new_Stream_core [OF c x(2,3)])
  have l1: "h_listeners (new_Stream x s) l = Some lo" using l by simp
  have ns: "same_handles (s\<lparr>h_listeners := (h_listeners s)(l \<mapsto> lo'),
      h_streams := (h_streams s)(x \<mapsto> Stream_ctor)\<rparr>) (put_listener l lo' (new_Stream x s))" for lo'
    by (simp add: same_handles_def put_listener_def new_Stream_def Counted_ctor_def)
  show ?thesis
  proof (cases "l_pending_accepts lo")
    case Nil
    let ?l1 = "lo\<lparr>l_accepted := l_accepted lo @ [x]\<rparr>"
    have "core L (put_listener l ?l1 (new_Stream x s))"
      by (rule core_put_listener [OF c1 l1]) (simp add: listener_held_def)
    then show ?thesis using Nil l st x(1) a ns [of ?l1] by (auto simp: on_connection_def)
  next
    case (Cons t ts)
    let ?l1 = "lo\<lparr>l_pending_accepts := ts\<rparr>"
    let ?s1 = "put_listener l ?l1 (new_Stream x s)"
    have "core (add_mset t L) ?s1"
      by (rule core_put_listener [OF c1 l1]) (simp add: listener_held_def Cons)
    from Complete_core [OF this, of "as_result x"] obtain s' where s':
      "Complete t (as_result x) ?s1 = Inr s'" "core L s'" "same_handles ?s1 s'"
      "h_tasks s' = done_with [t] (as_result x) (h_tasks s)" by auto
    have "same_handles (s\<lparr>h_listeners := (h_listeners s)(l \<mapsto> ?l1),
      h_streams := (h_streams s)(x \<mapsto> Stream_ctor)\<rparr>) s'"
      using ns s'(3) by (rule same_handles_trans)
    moreover have "h_listeners s' = (h_listeners s)(l \<mapsto> ?l1)"
      "h_streams s' = (h_streams s)(x \<mapsto> Stream_ctor)"
      using same_handles_fields(1,2) [OF s'(3)] by simp_all
    ultimately show ?thesis using Cons l st x(1) a s'(1,2,4) by (auto simp: on_connection_def)
  qed
qed

lemma on_connection_rejects:
  assumes c: "core L s" and l: "h_listeners s l = Some lo" and st: "\<not> status < 0"
    and x: "new_addr env 0 = x" "h_streams s x = None" "x \<noteq> 0" and a: "uv_accept env \<noteq> 0"
  shows "\<exists>s'. on_connection env l status s = Inr s' \<and> core L s'
    \<and> h_streams s' = (h_streams s)(x \<mapsto> Stream_ctor\<lparr>uv_closing := True\<rparr>)
    \<and> same_handles (s\<lparr>h_streams := h_streams s'\<rparr>) s' \<and> h_tasks s' = h_tasks s"
proof -
  have c1: "core (opt_task nullptr + L) (new_Stream x s)"
    using new_Stream_core [OF c x(2,3)] by simp
  have "h_streams (new_Stream x s) x = Some Stream_ctor" "\<not> uv_closing Stream_ctor"
    "close_task Stream_ctor = nullptr" by (simp_all add: Stream_ctor_def)
  note cl = stream_close.Close_core [OF c1 this]
  have e: "Stream_ctor\<lparr>close_task := nullptr, uv_closing := True\<rparr> = Stream_ctor\<lparr>uv_closing := True\<rparr>"
    by (simp add: Stream_ctor_def)
  show ?thesis using cl l st x(1) a
    by (auto simp: on_connection_def Stream_Close_def e same_handles_def new_Stream_def Counted_ctor_def)
qed

section \<open>Listening and closing\<close>

lemma Dispatch_TcpListen_ok:
  assumes c: "core (add_mset t L) s" and t: "h_tasks s t = Some tk"
    and l: "new_addr env 0 = l" "h_listeners s l = None" "l \<noteq> 0"
  shows "\<exists>s' lo r. Dispatch_TcpListen env t s = Inr s' \<and> core L s'
    \<and> h_listeners s' = (h_listeners s)(l \<mapsto> lo)
    \<and> same_handles (s\<lparr>h_listeners := h_listeners s', listeners := listeners s'\<rparr>) s'
    \<and> h_tasks s' = done_with [t] r (h_tasks s)
    \<and> (r < 0 \<and> lo = Listener_ctor\<lparr>uv_closing := True\<rparr> \<and> listeners s' = listeners s
       \<or> r = as_result l \<and> lo = Listener_ctor \<and> listeners s' = us_insert l (listeners s))"
proof -
  obtain r0 sa where pa: "parse_ip_addr env (t_path tk) (t_port tk) = (r0, sa)" by fastforce
  let ?r1 = "if r0 = 0 then uv_tcp_bind env sa else r0"
  let ?r = "if ?r1 = 0 then uv_listen env (t_backlog tk) else ?r1"
  have c1: "core (add_mset t L) (new_Listener l s)" by (rule new_Listener_core [OF c l(2,3)])
  show ?thesis
  proof (cases "?r < 0")
    case True
    have c2: "core (opt_task nullptr + add_mset t L) (new_Listener l s)" using c1 by simp
    have "h_listeners (new_Listener l s) l = Some Listener_ctor" "\<not> uv_closing Listener_ctor"
      "close_task Listener_ctor = nullptr" by (simp_all add: Listener_ctor_def)
    note cl = listener_close.Close_core [OF c2 this]
    let ?h = "Listener_ctor\<lparr>uv_closing := True\<rparr>"
    have e: "Listener_ctor\<lparr>close_task := nullptr, uv_closing := True\<rparr> = ?h"
      by (simp add: Listener_ctor_def)
    let ?s1 = "(new_Listener l s)\<lparr>h_listeners := (h_listeners s)(l \<mapsto> ?h)\<rparr>"
    have s1: "Listener_Close l nullptr (new_Listener l s) = Inr ?s1" "core (add_mset t L) ?s1"
      using cl by (simp_all add: Listener_Close_def e)
    from Complete_core [OF s1(2), of ?r] obtain s' where s': "Complete t ?r ?s1 = Inr s'"
      "core L s'" "same_handles ?s1 s'" "h_tasks s' = done_with [t] ?r (h_tasks s)" by auto
    have "h_listeners s' = (h_listeners s)(l \<mapsto> ?h)" "listeners s' = listeners s"
      "same_handles (s\<lparr>h_listeners := h_listeners s', listeners := listeners s'\<rparr>) s'"
      using s'(3) by (simp_all add: same_handles_def new_Listener_def Counted_ctor_def)
    moreover have "Dispatch_TcpListen env t s = Inr s'"
      using t l(1) pa True s1(1) s'(1) by (simp add: Dispatch_TcpListen_def Let_def)
    ultimately show ?thesis using True s'(2,4) by blast
  next
    case False
    let ?s1 = "(new_Listener l s)\<lparr>listeners := us_insert l (listeners s)\<rparr>"
    have "core (add_mset t L) ?s1" using c1 by simp
    from Complete_core [OF this, of "as_result l"] obtain s' where s':
      "Complete t (as_result l) ?s1 = Inr s'" "core L s'" "same_handles ?s1 s'"
      "h_tasks s' = done_with [t] (as_result l) (h_tasks s)" by auto
    have "h_listeners s' = (h_listeners s)(l \<mapsto> Listener_ctor)"
      "listeners s' = us_insert l (listeners s)"
      "same_handles (s\<lparr>h_listeners := h_listeners s', listeners := listeners s'\<rparr>) s'"
      using s'(3) by (simp_all add: same_handles_def new_Listener_def Counted_ctor_def)
    moreover have "Dispatch_TcpListen env t s = Inr s'"
      using t l(1) pa False s'(1) by (simp add: Dispatch_TcpListen_def Let_def)
    ultimately show ?thesis using s'(2,4) by blast
  qed
qed

subsection \<open>The invariant\<close>

lemma listeners_okD:
  assumes "listeners_ok m reg" and "m l = Some lo"
  shows "l_accepted lo = [] \<or> l_pending_accepts lo = []" "l \<in> set reg \<longleftrightarrow> \<not> uv_closing lo"
    "uv_closing lo \<Longrightarrow> l_accepted lo = []" "uv_closing lo \<Longrightarrow> l_pending_accepts lo = []"
    "\<not> uv_closing lo \<Longrightarrow> close_task lo = nullptr"
  using assms by (auto simp: listeners_ok_def open_in_def)

lemma listeners_ok_registered:
  assumes "listeners_ok m reg" and "l \<in> set reg"
  obtains lo where "m l = Some lo" and "\<not> uv_closing lo"
  using assms by (auto simp: listeners_ok_def open_in_def)

lemma listeners_ok_upd:
  assumes "listeners_ok m reg" and "m l = Some lo"
    and "l_accepted lo' = [] \<or> l_pending_accepts lo' = []"
    and "\<not> uv_closing lo" "\<not> uv_closing lo'" "close_task lo' = nullptr"
  shows "listeners_ok (m(l \<mapsto> lo')) reg"
  using assms by (auto simp: listeners_ok_def open_in_def)

lemma listeners_ok_closed:
  assumes "listeners_ok m reg"
    and "uv_closing lo'" "l_accepted lo' = []" "l_pending_accepts lo' = []"
  shows "listeners_ok (m(l \<mapsto> lo')) (us_erase l reg)"
  using assms by (auto simp: listeners_ok_def open_in_def)

lemma listeners_ok_new:
  assumes "listeners_ok m reg" and "m l = None"
  shows "listeners_ok (m(l \<mapsto> Listener_ctor)) (us_insert l reg)"
    and "listeners_ok (m(l \<mapsto> Listener_ctor\<lparr>uv_closing := True\<rparr>)) reg"
  using assms by (auto simp: listeners_ok_def open_in_def Listener_ctor_def)

lemma listeners_ok_delete:
  assumes "listeners_ok m reg" and "m l = Some lo" and "uv_closing lo"
  shows "listeners_ok (m(l := None)) reg"
  using assms by (auto simp: listeners_ok_def open_in_def)

text \<open>
  \<open>ListenerClose\<close> on a listener that is not registered completes with 0 and touches no
  listener, alive or not.
\<close>

lemma Dispatch_ListenerClose_late:
  assumes c: "core (add_mset t L) s" and t: "h_tasks s t = Some tk"
    and l: "t_listener tk \<notin> set (listeners s)"
  shows "\<exists>s'. Dispatch_ListenerClose t s = Inr s' \<and> core L s' \<and> same_handles s s'
    \<and> h_tasks s' = done_with [t] 0 (h_tasks s)"
  using Complete_core [OF c, of 0] t l by (simp add: Dispatch_ListenerClose_def)

lemma Dispatch_ListenerClose_open:
  assumes c: "core (add_mset t L) s" and t: "h_tasks s t = Some tk" "t_listener tk = l"
    and ok: "listeners_ok (h_listeners s) (listeners s)"
    and l: "l \<in> set (listeners s)" "h_listeners s l = Some lo" and d: "distinct (l_accepted lo)"
    and x: "\<And>x. x \<in> set (l_accepted lo) \<Longrightarrow>
      \<exists>st. h_streams s x = Some st \<and> \<not> uv_closing st \<and> close_task st = nullptr"
  shows "\<exists>s'. Dispatch_ListenerClose t s = Inr s' \<and> core L s'
    \<and> h_listeners s' = (h_listeners s)(l \<mapsto> aborted t lo)
    \<and> listeners s' = us_erase l (listeners s)
    \<and> h_streams s' = closing_all (l_accepted lo) (h_streams s)
    \<and> same_handles (s\<lparr>h_listeners := h_listeners s', h_streams := h_streams s',
        listeners := listeners s'\<rparr>) s'
    \<and> h_tasks s' = done_with (l_pending_accepts lo) UV_ECANCELED (h_tasks s)"
proof -
  let ?s1 = "s\<lparr>listeners := us_erase l (listeners s)\<rparr>"
  have c1: "core (opt_task t + L) ?s1" using c core_local_nonnull [OF c] by simp
  have o: "\<not> uv_closing lo" "close_task lo = nullptr" using listeners_okD [OF ok l(2)] l(1) by auto
  have l1: "h_listeners ?s1 l = Some lo" using l by simp
  obtain s' where s': "abort_listener l t ?s1 = Inr s'" "core L s'"
    "h_listeners s' = (h_listeners ?s1)(l \<mapsto> aborted t lo)"
    "h_streams s' = closing_all (l_accepted lo) (h_streams ?s1)"
    "same_handles (?s1\<lparr>h_listeners := h_listeners s', h_streams := h_streams s'\<rparr>) s'"
    "h_tasks s' = done_with (l_pending_accepts lo) UV_ECANCELED (h_tasks ?s1)"
    using abort_listener_ok [OF c1 l1 o d] x by auto
  have "same_handles (s\<lparr>h_listeners := h_listeners s', h_streams := h_streams s',
      listeners := listeners s'\<rparr>) s'" "listeners s' = us_erase l (listeners s)"
    using s'(5) by (simp_all add: same_handles_def)
  then show ?thesis using s' t l(1) by (auto simp: Dispatch_ListenerClose_def)
qed

end
