(* ===== verification/Processes.thy ===== *)
theory Processes
  imports Listeners
begin

text \<open>
  Child processes (\<^verbatim>\<open>net.hpp\<close> \<open>Process\<close>; \<^verbatim>\<open>runtime.cpp\<close>): unpacking the argument
  vector, spawning with inherited or captured stdio, the exit callback, waiting,
  killing and closing.

  \<open>UnpackStrings\<close> computes offsets into the packed buffer; \<open>cstr_at\<close> reads the C
  string at one. The wait slot of a process holds one task: the ownership rules hold
  for a client that has at most one wait in flight and none when it closes, and the
  last section proves that the code needs that discipline.
\<close>

section \<open>Definitions\<close>

subsection \<open>Packed strings\<close>

definition strlen :: "byte list \<Rightarrow> nat \<Rightarrow> fault + nat" where
  "strlen buf off =
     (let rest = drop off buf; n = length (takeWhile (\<lambda>b. b \<noteq> 0) rest)
      in if n < length rest then Inr n else Inl BufferOverrun)"

fun unpack_loop :: "byte list \<Rightarrow> nat \<Rightarrow> nat \<Rightarrow> fault + nat list" where
  "unpack_loop buf 0 off = Inr []"
| "unpack_loop buf (Suc i) off =
     sbind (strlen buf off) (\<lambda>n.
       sbind (unpack_loop buf i (off + n + 1)) (\<lambda>offs. Inr (off # offs)))"

text \<open>
  \<open>None\<close> is the terminating null pointer. \<open>reserve\<close> throws when the 32-bit sum \<open>count + 1\<close> is
  negative, for a count below \<open>-1\<close>; for the greatest \<open>int\<close> the sum overflows, which C++
  leaves undefined.
\<close>

definition UnpackStrings :: "byte list \<Rightarrow> int \<Rightarrow> fault + nat option list" where
  "UnpackStrings buf cnt =
     (if 2 ^ 31 \<le> cnt + 1 then Inl SignedOverflow
      else if cnt + 1 < 0 then Inl LengthError
      else sbind (unpack_loop buf (nat cnt) 0) (\<lambda>offs. Inr (map Some offs @ [None])))"

definition cstr_at :: "byte list \<Rightarrow> nat \<Rightarrow> byte list" where
  "cstr_at buf off = takeWhile (\<lambda>b. b \<noteq> 0) (drop off buf)"

text \<open>What a null-terminated array of C strings denotes.\<close>

fun cstrs :: "byte list \<Rightarrow> nat option list \<Rightarrow> byte list list" where
  "cstrs buf (Some off # ps) = cstr_at buf off # cstrs buf ps"
| "cstrs buf _ = []"

subsection \<open>Spawning\<close>

definition put_process :: "addr \<Rightarrow> process_obj \<Rightarrow> runtime \<Rightarrow> runtime" where
  "put_process p po s = s\<lparr>h_processes := (h_processes s)(p \<mapsto> po)\<rparr>"

definition spawn_options :: "task \<Rightarrow> nat option list \<Rightarrow> nat option list \<Rightarrow> uv_stdio list \<Rightarrow>
    uv_process_options" where
  "spawn_options tk argv envp stdio = \<lparr>
     po_file = map_option (cstr_at (t_buffer tk)) (hd argv),
     po_args = cstrs (t_buffer tk) argv,
     po_env = (if t_envc tk \<ge> 0 then Some (cstrs (t_env_buf tk) envp) else None),
     po_cwd = (if t_cwd tk = [] then None else Some (t_cwd tk)),
     po_stdio = stdio\<rparr>"

definition close_if_set :: "addr \<Rightarrow> runtime \<Rightarrow> fault + runtime" where
  "close_if_set x s = (if x \<noteq> nullptr then Stream_Close x nullptr s else Inr s)"

definition Dispatch_ProcSpawn :: "uv_env \<Rightarrow> addr \<Rightarrow> runtime \<Rightarrow> fault + runtime" where
  "Dispatch_ProcSpawn env t s = sbind (deref (h_tasks s) t) (\<lambda>tk.
     let p = new_addr env 0;
         s0 = new_Process p s in
     sbind (UnpackStrings (t_buffer tk) (t_argc tk)) (\<lambda>argv.
     sbind (if t_envc tk \<ge> 0 then UnpackStrings (t_env_buf tk) (t_envc tk) else Inr []) (\<lambda>envp.
       let capture = (t_stdio_mode tk = 1);
           x0 = new_addr env 1; x1 = new_addr env 2; x2 = new_addr env 3;
           s1 = (if capture
                 then put_process p (Process_ctor\<lparr>p_stdin_s := x0, p_stdout_s := x1, p_stderr_s := x2\<rparr>)
                        (new_Stream x2 (new_Stream x1 (new_Stream x0 s0)))
                 else s0);
           stdio = (if capture then [CreatePipe True x0, CreatePipe False x1, CreatePipe False x2]
                    else [InheritFd 0, InheritFd 1, InheritFd 2]);
           r = uv_spawn env (spawn_options tk argv envp stdio)
       in if r < 0 then
            sbind (deref (h_processes s1) p) (\<lambda>po.
            sbind (sfold close_if_set [p_stdin_s po, p_stdout_s po, p_stderr_s po] s1) (\<lambda>s2.
            sbind (Process_Close p nullptr s2) (Complete t r)))
          else Complete t (as_result p) s1)))"

subsection \<open>Exit, wait, kill, close\<close>

definition on_process_exit :: "addr \<Rightarrow> int \<Rightarrow> int \<Rightarrow> runtime \<Rightarrow> fault + runtime" where
  "on_process_exit p exit_status term_signal s = sbind (deref (h_processes s) p) (\<lambda>po.
     let po1 = po\<lparr>p_exited := True, p_exit_status := exit_status, p_term_signal := term_signal\<rparr>
     in if p_wait_task po1 \<noteq> nullptr
        then Complete (p_wait_task po1) exit_status (put_process p (po1\<lparr>p_wait_task := nullptr\<rparr>) s)
        else Inr (put_process p po1 s))"

definition Dispatch_ProcWait :: "addr \<Rightarrow> runtime \<Rightarrow> fault + runtime" where
  "Dispatch_ProcWait t s = sbind (deref (h_tasks s) t) (\<lambda>tk.
     sbind (deref (h_processes s) (t_process tk)) (\<lambda>po.
       if p_exited po then Complete t (p_exit_status po) s
       else Inr (put_process (t_process tk) (po\<lparr>p_wait_task := t\<rparr>) s)))"

definition Dispatch_ProcKill :: "uv_env \<Rightarrow> addr \<Rightarrow> runtime \<Rightarrow> fault + runtime" where
  "Dispatch_ProcKill env t s = sbind (deref (h_tasks s) t) (\<lambda>tk.
     sbind (deref (h_processes s) (t_process tk)) (\<lambda>po.
       Complete t (uv_process_kill env (t_process tk) (t_signum tk)) s))"

definition Dispatch_ProcClose :: "addr \<Rightarrow> runtime \<Rightarrow> fault + runtime" where
  "Dispatch_ProcClose t s = sbind (deref (h_tasks s) t) (\<lambda>tk. Process_Close (t_process tk) t s)"

subsection \<open>The process invariant\<close>

definition processes_ok :: "(addr \<rightharpoonup> process_obj) \<Rightarrow> bool" where
  "processes_ok m \<longleftrightarrow> (\<forall>p po. m p = Some po \<longrightarrow>
     (p_exited po \<longrightarrow> p_wait_task po = nullptr) \<and>
     (uv_closing po \<longrightarrow> p_wait_task po = nullptr) \<and>
     (\<not> uv_closing po \<longrightarrow> close_task po = nullptr))"

section \<open>Packed strings\<close>

text \<open>Reading one string out of the middle of a packed buffer.\<close>

lemma strlen_packed: "0 \<notin> set w \<Longrightarrow> strlen (pre @ w @ 0 # post) (length pre) = Inr (length w)"
  by (simp add: strlen_def takeWhile_append2 takeWhile_append)

lemma cstr_at_packed: "0 \<notin> set w \<Longrightarrow> cstr_at (pre @ w @ 0 # post) (length pre) = w"
  by (simp add: cstr_at_def takeWhile_append2 takeWhile_append)

lemma unpack_loop_packed:
  assumes "\<And>w. w \<in> set ws \<Longrightarrow> 0 \<notin> set w"
  shows "\<exists>offs. unpack_loop (pre @ concat (map (\<lambda>w. w @ [0]) ws) @ post) (length ws) (length pre) = Inr offs
    \<and> map (cstr_at (pre @ concat (map (\<lambda>w. w @ [0]) ws) @ post)) offs = ws"
  using assms
proof (induction ws arbitrary: pre)
  case Nil
  then show ?case by simp
next
  case (Cons w ws)
  let ?tail = "concat (map (\<lambda>w. w @ [0]) ws) @ post"
  let ?buf = "pre @ w @ 0 # ?tail"
  have w: "0 \<notin> set w" using Cons.prems by simp
  have len: "length (pre @ w @ [0]) = length pre + length w + 1" by simp
  have b: "(pre @ w @ [0]) @ ?tail = ?buf" by simp
  obtain offs where "unpack_loop ?buf (length ws) (length pre + length w + 1) = Inr offs"
    "map (cstr_at ?buf) offs = ws"
    using Cons.IH [of "pre @ w @ [0]"] Cons.prems unfolding len b by auto
  then show ?case
    using strlen_packed [OF w, of pre ?tail] cstr_at_packed [OF w, of pre ?tail] by simp
qed

lemma cstrs_map: "cstrs buf (map Some offs @ [None]) = map (cstr_at buf) offs"
  by (induction offs) simp_all

section \<open>Ownership\<close>

lemma core_put_process:
  assumes "core L s" and "h_processes s p = Some po"
    and "process_held po + L = process_held po' + L'"
  shows "core L' (put_process p po' s)"
  using process_heap.core_obj_upd [OF assms] by (simp add: put_process_def)

lemma put_process_simps [simp]:
  "h_processes (put_process p po s) = (h_processes s)(p \<mapsto> po)"
  "h_tasks (put_process p po s) = h_tasks s" "h_streams (put_process p po s) = h_streams s"
  by (simp_all add: put_process_def)

lemma new_Process_simps [simp]:
  "h_processes (new_Process p s) = (h_processes s)(p \<mapsto> Process_ctor)"
  "h_tasks (new_Process p s) = h_tasks s" "h_streams (new_Process p s) = h_streams s"
  by (simp_all add: new_Process_def Counted_ctor_def)

lemma new_Stream_processes [simp]: "h_processes (new_Stream x s) = h_processes s"
  by (simp add: new_Stream_def Counted_ctor_def)

text \<open>The exit callback records the status and wakes the waiter, if there is one.\<close>

lemma on_process_exit_ok:
  assumes c: "core L s" and p: "h_processes s p = Some po"
  shows "\<exists>s'. on_process_exit p st sg s = Inr s' \<and> core L s'
    \<and> h_processes s' = (h_processes s)(p \<mapsto> po\<lparr>p_exited := True, p_exit_status := st,
        p_term_signal := sg, p_wait_task := nullptr\<rparr>)
    \<and> same_handles (s\<lparr>h_processes := h_processes s'\<rparr>) s'
    \<and> h_tasks s' = (if p_wait_task po = nullptr then h_tasks s
        else done_with [p_wait_task po] st (h_tasks s))"
proof -
  let ?po1 = "po\<lparr>p_exited := True, p_exit_status := st, p_term_signal := sg\<rparr>"
  let ?po2 = "?po1\<lparr>p_wait_task := nullptr\<rparr>"
  have c2: "core (opt_task (p_wait_task po) + L) (put_process p ?po2 s)"
    by (rule core_put_process [OF c p]) (simp add: process_held_def ac_simps)
  have sm: "same_handles (s\<lparr>h_processes := (h_processes s)(p \<mapsto> ?po2)\<rparr>) (put_process p ?po2 s)"
    by (simp add: put_process_def)
  show ?thesis
  proof (cases "p_wait_task po = nullptr")
    case True
    then have e: "?po1 = ?po2" by simp
    have "on_process_exit p st sg s = Inr (put_process p ?po1 s)"
      using True p by (simp add: on_process_exit_def)
    also have "\<dots> = Inr (put_process p ?po2 s)"
      using e by (rule arg_cong)
    finally have r: "on_process_exit p st sg s = Inr (put_process p ?po2 s)" .
    have "core L (put_process p ?po2 s)" using c2 True by simp
    then show ?thesis using r sm True by (intro exI [of _ "put_process p ?po2 s"] conjI) simp_all
  next
    case False
    then have "core (add_mset (p_wait_task po) L) (put_process p ?po2 s)" using c2 by simp
    from Complete_core [OF this, of st] obtain s' where s':
      "Complete (p_wait_task po) st (put_process p ?po2 s) = Inr s'" "core L s'"
      "same_handles (put_process p ?po2 s) s'"
      "h_tasks s' = done_with [p_wait_task po] st (h_tasks s)" by auto
    have "h_processes s' = (h_processes s)(p \<mapsto> ?po2)"
      "same_handles (s\<lparr>h_processes := h_processes s'\<rparr>) s'"
      using s'(3) by (simp_all add: same_handles_def put_process_def)
    then show ?thesis using False p s'(1,2,4) by (simp add: on_process_exit_def Let_def)
  qed
qed

lemma Dispatch_ProcWait_ok:
  assumes c: "core (add_mset t L) s" and t: "h_tasks s t = Some tk" "t_process tk = p"
    and p: "h_processes s p = Some po" and w: "p_exited po \<or> p_wait_task po = nullptr"
  shows "\<exists>s'. Dispatch_ProcWait t s = Inr s' \<and> core L s'
    \<and> same_handles (s\<lparr>h_processes := h_processes s'\<rparr>) s'
    \<and> (if p_exited po
       then h_processes s' = h_processes s
         \<and> h_tasks s' = done_with [t] (p_exit_status po) (h_tasks s)
       else h_processes s' = (h_processes s)(p \<mapsto> po\<lparr>p_wait_task := t\<rparr>) \<and> h_tasks s' = h_tasks s)"
proof (cases "p_exited po")
  case True
  obtain s' where s': "Complete t (p_exit_status po) s = Inr s'" "core L s'" "same_handles s s'"
    "h_tasks s' = done_with [t] (p_exit_status po) (h_tasks s)"
    using Complete_core [OF c, of "p_exit_status po"] by blast
  have "h_processes s' = h_processes s" "same_handles (s\<lparr>h_processes := h_processes s'\<rparr>) s'"
    using s'(3) by (simp_all add: same_handles_def)
  then show ?thesis using True s' t p by (simp add: Dispatch_ProcWait_def)
next
  case False
  then have w0: "p_wait_task po = nullptr" using w by simp
  have "core L (put_process p (po\<lparr>p_wait_task := t\<rparr>) s)"
    by (rule core_put_process [OF c p])
      (use w0 core_local_nonnull [OF c] in \<open>simp add: process_held_def\<close>)
  then show ?thesis using False t p
    by (simp add: Dispatch_ProcWait_def put_process_def same_handles_def)
qed

lemma Dispatch_ProcKill_ok:
  assumes c: "core (add_mset t L) s" and t: "h_tasks s t = Some tk"
    and p: "h_processes s (t_process tk) = Some po"
  shows "\<exists>s'. Dispatch_ProcKill env t s = Inr s' \<and> core L s' \<and> same_handles s s'
    \<and> h_tasks s' = done_with [t] (uv_process_kill env (t_process tk) (t_signum tk)) (h_tasks s)"
  using Complete_core [OF c, of "uv_process_kill env (t_process tk) (t_signum tk)"] t p
  by (simp add: Dispatch_ProcKill_def)

lemma Dispatch_ProcClose_ok:
  assumes c: "core (add_mset t L) s" and t: "h_tasks s t = Some tk" "t_process tk = p"
    and p: "h_processes s p = Some po" "\<not> uv_closing po" "close_task po = nullptr"
  shows "\<exists>s'. Dispatch_ProcClose t s = Inr s' \<and> core L s'
    \<and> s' = s\<lparr>h_processes := (h_processes s)(p \<mapsto> po\<lparr>close_task := t, uv_closing := True\<rparr>)\<rparr>"
proof -
  have c1: "core (opt_task t + L) s" using c core_local_nonnull [OF c] by simp
  show ?thesis using process_close.Close_core [OF c1 p] t
    by (simp add: Dispatch_ProcClose_def Process_Close_def)
qed

text \<open>
  Spawning: on success the process (with its three pipes, when captured) is handed out;
  on failure everything that was created begins closing and the client gets the error.
\<close>

definition spawned_streams :: "uv_env \<Rightarrow> task \<Rightarrow> addr list" where
  "spawned_streams env tk =
     (if t_stdio_mode tk = 1 then [new_addr env 1, new_addr env 2, new_addr env 3] else [])"

definition add_streams :: "addr list \<Rightarrow> stream_obj \<Rightarrow> (addr \<rightharpoonup> stream_obj) \<Rightarrow> (addr \<rightharpoonup> stream_obj)" where
  "add_streams xs st m = (\<lambda>x. if x \<in> set xs then Some st else m x)"

lemma new_Streams_core:
  assumes "core L s" and "distinct xs" and "\<forall>x \<in> set xs. h_streams s x = None \<and> x \<noteq> 0"
  shows "core L (fold new_Stream xs s) \<and> h_streams (fold new_Stream xs s)
      = add_streams xs Stream_ctor (h_streams s)
    \<and> h_tasks (fold new_Stream xs s) = h_tasks s
    \<and> h_processes (fold new_Stream xs s) = h_processes s
    \<and> same_handles (s\<lparr>h_streams := add_streams xs Stream_ctor (h_streams s)\<rparr>) (fold new_Stream xs s)"
  using assms
proof (induction xs arbitrary: s)
  case Nil
  then show ?case by (simp add: add_streams_def same_handles_def)
next
  case (Cons x xs)
  have c: "core L (new_Stream x s)" by (rule new_Stream_core) (use Cons.prems in auto)
  have e: "add_streams xs Stream_ctor (h_streams (new_Stream x s))
      = add_streams (x # xs) Stream_ctor (h_streams s)"
    using Cons.prems(2) by (auto simp: add_streams_def fun_eq_iff)
  have n: "\<forall>y \<in> set xs. h_streams (new_Stream x s) y = None \<and> y \<noteq> 0"
    using Cons.prems(2,3) by auto
  have "distinct xs" using Cons.prems(2) by simp
  note IH = Cons.IH [OF c this n, unfolded e]
  have "same_handles (s\<lparr>h_streams := h\<rparr>) ((new_Stream x s)\<lparr>h_streams := h\<rparr>)" for h
    by (simp add: same_handles_def new_Stream_def Counted_ctor_def)
  from same_handles_trans [OF this] IH show ?case by simp
qed

lemma spawn_setup:
  assumes c: "core L s" and p: "h_processes s p = None" "p \<noteq> 0"
    and xs: "distinct xs" "\<forall>x \<in> set xs. h_streams s x = None \<and> x \<noteq> 0"
    and po: "process_held po = {#}"
  shows "core L (put_process p po (fold new_Stream xs (new_Process p s)))"
    and "h_streams (put_process p po (fold new_Stream xs (new_Process p s)))
      = add_streams xs Stream_ctor (h_streams s)"
    and "h_processes (put_process p po (fold new_Stream xs (new_Process p s)))
      = (h_processes s)(p \<mapsto> po)"
    and "h_tasks (put_process p po (fold new_Stream xs (new_Process p s))) = h_tasks s"
    and "same_handles (s\<lparr>h_streams := add_streams xs Stream_ctor (h_streams s),
      h_processes := (h_processes s)(p \<mapsto> po)\<rparr>)
      (put_process p po (fold new_Stream xs (new_Process p s)))"
proof -
  let ?s0 = "new_Process p s" let ?s1 = "fold new_Stream xs ?s0"
  have c0: "core L ?s0" by (rule new_Process_core [OF c p])
  have n: "\<forall>x \<in> set xs. h_streams ?s0 x = None \<and> x \<noteq> 0" using xs(2) by simp
  note s1 = new_Streams_core [OF c0 xs(1) n]
  have p1: "h_processes ?s1 p = Some Process_ctor" using s1 by simp
  have "process_held Process_ctor = {#}" by (simp add: process_held_def Process_ctor_def)
  then show "core L (put_process p po ?s1)"
    using core_put_process [OF conjunct1 [OF s1] p1, of po L] po by simp
  show "h_streams (put_process p po ?s1) = add_streams xs Stream_ctor (h_streams s)"
    "h_processes (put_process p po ?s1) = (h_processes s)(p \<mapsto> po)"
    "h_tasks (put_process p po ?s1) = h_tasks s"
    using s1 by simp_all
  have "same_handles (?s0\<lparr>h_streams := add_streams xs Stream_ctor (h_streams s)\<rparr>) ?s1"
    using s1 by simp
  then show "same_handles (s\<lparr>h_streams := add_streams xs Stream_ctor (h_streams s),
      h_processes := (h_processes s)(p \<mapsto> po)\<rparr>) (put_process p po ?s1)"
    using s1 by (simp add: same_handles_def put_process_def new_Process_def Counted_ctor_def)
qed

lemma closing_all_added:
  "closing_all xs (add_streams xs st m) = add_streams xs (st\<lparr>uv_closing := True\<rparr>) m"
  by (auto simp: closing_all_def add_streams_def fun_eq_iff)

lemma close_if_set_all: "0 \<notin> set xs \<Longrightarrow> sfold close_if_set xs s = sfold (\<lambda>x. Stream_Close x nullptr) xs s"
proof (induction xs arbitrary: s)
  case Nil
  then show ?case by simp
next
  case (Cons x xs)
  then show ?case by (cases "Stream_Close x nullptr s") (simp_all add: close_if_set_def)
qed

text \<open>The process object after the stdio setup.\<close>

definition spawned :: "uv_env \<Rightarrow> task \<Rightarrow> process_obj" where
  "spawned env tk = (if t_stdio_mode tk = 1
     then Process_ctor\<lparr>p_stdin_s := new_addr env 1, p_stdout_s := new_addr env 2,
            p_stderr_s := new_addr env 3\<rparr>
     else Process_ctor)"

lemma spawned_simps [simp]:
  "close_task (spawned env tk) = nullptr" "\<not> uv_closing (spawned env tk)"
  "p_wait_task (spawned env tk) = nullptr" "\<not> p_exited (spawned env tk)"
  "process_held (spawned env tk) = {#}"
  by (simp_all add: spawned_def Process_ctor_def process_held_def)

text \<open>What \<open>uv_spawn\<close> is asked to do with the standard descriptors, and its answer.\<close>

definition spawn_stdio :: "uv_env \<Rightarrow> task \<Rightarrow> uv_stdio list" where
  "spawn_stdio env tk = (if t_stdio_mode tk = 1
     then [CreatePipe True (new_addr env 1), CreatePipe False (new_addr env 2),
           CreatePipe False (new_addr env 3)]
     else [InheritFd 0, InheritFd 1, InheritFd 2])"

definition spawn_answer :: "uv_env \<Rightarrow> task \<Rightarrow> nat option list \<Rightarrow> nat option list \<Rightarrow> int" where
  "spawn_answer env tk argv envp = uv_spawn env (spawn_options tk argv envp (spawn_stdio env tk))"

lemma Dispatch_ProcSpawn_unfold:
  assumes t: "h_tasks s t = Some tk" and a: "UnpackStrings (t_buffer tk) (t_argc tk) = Inr argv"
    and e: "(if t_envc tk \<ge> 0 then UnpackStrings (t_env_buf tk) (t_envc tk) else Inr []) = Inr envp"
    and z: "0 \<notin> set (spawned_streams env tk)"
  shows "Dispatch_ProcSpawn env t s =
    (let p = new_addr env 0; xs = spawned_streams env tk; r = spawn_answer env tk argv envp;
         s1 = put_process p (spawned env tk) (fold new_Stream xs (new_Process p s))
     in if r < 0 then sbind (sfold (\<lambda>x. Stream_Close x nullptr) xs s1) (\<lambda>s2.
            sbind (Process_Close p nullptr s2) (Complete t r))
        else Complete t (as_result p) s1)"
proof -
  have i: "put_process p Process_ctor (new_Process p s) = new_Process p s" for p
    by (simp add: put_process_def new_Process_def Counted_ctor_def)
  show ?thesis
  proof (cases "t_stdio_mode tk = 1")
    case True
    then show ?thesis using t a e z
      by (simp add: Dispatch_ProcSpawn_def Let_def spawn_answer_def spawn_stdio_def spawned_def spawned_streams_def
          close_if_set_all del: sfold.simps)
  next
    case False
    then show ?thesis using t a e i
      by (simp add: Dispatch_ProcSpawn_def Let_def spawn_answer_def spawn_stdio_def spawned_def spawned_streams_def
          close_if_set_def Process_ctor_def)
  qed
qed

lemma Dispatch_ProcSpawn_ok:
  assumes c: "core (add_mset t L) s" and t: "h_tasks s t = Some tk"
    and a: "UnpackStrings (t_buffer tk) (t_argc tk) = Inr argv"
    and e: "(if t_envc tk \<ge> 0 then UnpackStrings (t_env_buf tk) (t_envc tk) else Inr []) = Inr envp"
    and p: "new_addr env 0 = p" "h_processes s p = None" "p \<noteq> 0"
    and xs: "spawned_streams env tk = xs" "distinct xs"
      "\<forall>x \<in> set xs. h_streams s x = None \<and> x \<noteq> 0"
  shows "\<exists>s' po st r. Dispatch_ProcSpawn env t s = Inr s' \<and> core L s'
    \<and> h_processes s' = (h_processes s)(p \<mapsto> po) \<and> h_streams s' = add_streams xs st (h_streams s)
    \<and> same_handles (s\<lparr>h_streams := h_streams s', h_processes := h_processes s'\<rparr>) s'
    \<and> h_tasks s' = done_with [t] r (h_tasks s)
    \<and> (r < 0 \<and> r = spawn_answer env tk argv envp \<and> po = (spawned env tk)\<lparr>uv_closing := True\<rparr> \<and> st = Stream_ctor\<lparr>uv_closing := True\<rparr>
       \<or> 0 \<le> spawn_answer env tk argv envp \<and> r = as_result p \<and> po = spawned env tk \<and> st = Stream_ctor)"
proof -
  let ?po = "spawned env tk"
  define r where "r = spawn_answer env tk argv envp"
  define z where "z = put_process p ?po (fold new_Stream xs (new_Process p s))"
  note s1 = spawn_setup [OF c p(2,3) xs(2,3) spawned_simps(5), of env tk, folded z_def]
  have "0 \<notin> set (spawned_streams env tk)" using xs by blast
  from Dispatch_ProcSpawn_unfold [OF t a e this] have
    D: "Dispatch_ProcSpawn env t s = (if r < 0
       then sbind (sfold (\<lambda>x. Stream_Close x nullptr) xs z) (\<lambda>s2.
            sbind (Process_Close p nullptr s2) (Complete t r))
       else Complete t (as_result p) z)"
    unfolding z_def r_def using p(1) xs(1) by (simp add: Let_def)
  show ?thesis
  proof (cases "r < 0")
    case False
    from Complete_core [OF s1(1), of "as_result p"] obtain s' where s':
      "Complete t (as_result p) z = Inr s'" "core L s'" "same_handles z s'"
      "h_tasks s' = done_with [t] (as_result p) (h_tasks s)" using s1(4) by auto
    have f: "h_processes s' = (h_processes s)(p \<mapsto> ?po)"
      "h_streams s' = add_streams xs Stream_ctor (h_streams s)"
      using same_handles_fields(1,3) [OF s'(3)] s1(2,3) by simp_all
    moreover have "same_handles (s\<lparr>h_streams := h_streams s', h_processes := h_processes s'\<rparr>) s'"
      unfolding f by (rule same_handles_trans [OF s1(5) s'(3)])
    ultimately show ?thesis using False D s'(1,2,4) r_def by auto
  next
    case True
    let ?h = "?po\<lparr>uv_closing := True\<rparr>"
    let ?m = "add_streams xs (Stream_ctor\<lparr>uv_closing := True\<rparr>) (h_streams s)"
    let ?s2 = "z\<lparr>h_streams := ?m\<rparr>"
    let ?s3 = "?s2\<lparr>h_processes := (h_processes s)(p \<mapsto> ?h)\<rparr>"
    have op: "\<exists>st. h_streams z x = Some st \<and> \<not> uv_closing st \<and> close_task st = nullptr"
      if "x \<in> set xs" for x
    proof -
      have "h_streams z x = Some Stream_ctor" using that by (simp only: s1(2)) (simp add: add_streams_def)
      then show ?thesis by (simp add: Stream_ctor_def)
    qed
    have s2: "sfold (\<lambda>x. Stream_Close x nullptr) xs z = Inr ?s2" "core (add_mset t L) ?s2"
      using close_all_core [OF s1(1) xs(2)] op unfolding s1(2) closing_all_added by blast+
    have "core (opt_task nullptr + add_mset t L) ?s2" using s2(2) by simp
    note cl = process_close.Close_core [OF this, of p ?po]
    have h: "?po\<lparr>close_task := nullptr, uv_closing := True\<rparr> = ?h" by simp
    have s3: "Process_Close p nullptr ?s2 = Inr ?s3" "core (add_mset t L) ?s3"
      using cl s1(3) unfolding h by (simp_all add: Process_Close_def)
    from Complete_core [OF s3(2), of r] obtain s' where s': "Complete t r ?s3 = Inr s'"
      "core L s'" "same_handles ?s3 s'" "h_tasks s' = done_with [t] r (h_tasks s)"
      using s1(4) by auto
    have f: "h_processes s' = (h_processes s)(p \<mapsto> ?h)" "h_streams s' = ?m"
      using same_handles_fields(1,3) [OF s'(3)] by simp_all
    have "same_handles (s\<lparr>h_streams := ?m, h_processes := (h_processes s)(p \<mapsto> ?h)\<rparr>) ?s3"
      using s1(5) by (simp add: same_handles_def)
    then have "same_handles (s\<lparr>h_streams := h_streams s', h_processes := h_processes s'\<rparr>) s'"
      unfolding f using s'(3) by (rule same_handles_trans)
    then show ?thesis using True D s2(1) s3(1) s'(1,2,4) f r_def by auto
  qed
qed

subsection \<open>The invariant\<close>

lemma processes_okD:
  assumes "processes_ok m" and "m p = Some po"
  shows "p_exited po \<Longrightarrow> p_wait_task po = nullptr" "uv_closing po \<Longrightarrow> p_wait_task po = nullptr"
    "\<not> uv_closing po \<Longrightarrow> close_task po = nullptr"
  using assms by (auto simp: processes_ok_def)

lemma processes_ok_upd:
  assumes "processes_ok m" and "p_exited po \<or> uv_closing po \<Longrightarrow> p_wait_task po = nullptr"
    and "\<not> uv_closing po \<Longrightarrow> close_task po = nullptr"
  shows "processes_ok (m(p \<mapsto> po))"
  using assms by (auto simp: processes_ok_def)

lemma processes_ok_delete: "processes_ok m \<Longrightarrow> processes_ok (m(p := None))"
  by (auto simp: processes_ok_def)

section \<open>Why one wait at a time\<close>

text \<open>
  The wait slot is overwritten without a look at who is in it. A second \<open>ProcWait\<close> on a
  running process drops the first waiter: it stays uncompleted and nothing in the
  runtime holds it any more, so no later callback can complete it.
\<close>

lemma held_put_process:
  assumes "finite (dom (h_processes s))" and "h_processes s p = Some po"
  shows "process_held po + held (put_process p po' s) = process_held po' + held s"
  using msum_upd [OF assms, of process_held po'] by (simp add: held_def put_process_def ac_simps)

lemma ProcWait_drops_waiter:
  assumes c: "core {#t#} s" and t: "h_tasks s t = Some tk" "t_process tk = p"
    and p: "h_processes s p = Some po" "\<not> p_exited po"
    and w: "p_wait_task po = w" "w \<noteq> nullptr"
  shows "\<exists>s'. Dispatch_ProcWait t s = Inr s' \<and> w \<in> undone (h_tasks s') \<and> w \<notin># held s'"
proof -
  let ?s' = "put_process p (po\<lparr>p_wait_task := t\<rparr>) s"
  have fin: "finite (dom (h_processes s))" using core_finite(5) [OF c] .
  have tn: "t \<noteq> 0" using core_local_nonnull [OF c] .
  have "process_held po + held ?s' = process_held (po\<lparr>p_wait_task := t\<rparr>) + held s"
    by (rule held_put_process [OF fin p(1)])
  then have h: "add_mset w (held ?s') = add_mset t (held s)"
    using w tn by (simp add: process_held_def)
  have "w \<in># add_mset t (held s)" unfolding h [symmetric] by simp
  then have "w \<in> undone (h_tasks s)" using core_member_undone [OF c, of w] by simp
  moreover have "count (add_mset t (held s)) w \<le> 1" using core_once [OF c, of w] by simp
  then have "w \<notin># held ?s'" unfolding h [symmetric] by (simp add: not_in_iff)
  moreover have "Dispatch_ProcWait t s = Inr ?s'"
    using t p by (simp add: Dispatch_ProcWait_def)
  ultimately show ?thesis by simp
qed

text \<open>Closing a process whose exit somebody waits for drops that waiter with the object.\<close>

lemma OnClosed_drops_waiter:
  assumes c: "core {#} s" and p: "h_processes s p = Some po"
    and w: "p_wait_task po = w" "w \<noteq> nullptr"
  shows "\<exists>s'. Process_OnClosed p s = Inr s' \<and> w \<in> undone (h_tasks s') \<and> w \<notin># held s'"
proof -
  define s1 where "s1 = Counted_dtor CProcess (s\<lparr>h_processes := (h_processes s)(p := None)\<rparr>)"
  have c1: "core (add_mset w (opt_task (close_task po))) s1"
    using process_heap.core_obj_delete [OF c p] w
    by (simp add: s1_def Counted_dtor_def process_held_def)
  show ?thesis
  proof (cases "close_task po = nullptr")
    case True
    then have "Process_OnClosed p s = Inr s1"
      using p by (simp add: Process_OnClosed_def LoopHandle_OnClosed_def s1_def)
    then show ?thesis using c1 core_unique(1) [OF c1] core_member_undone [OF c1, of w] by auto
  next
    case False
    then have c2: "core (add_mset (close_task po) {#w#}) s1" using c1 by (simp add: add_mset_commute)
    from Complete_core [OF this, of 0] obtain s' where s': "Complete (close_task po) 0 s1 = Inr s'"
      "core {#w#} s'" by blast
    then have "Process_OnClosed p s = Inr s'" using p False
      by (simp add: Process_OnClosed_def LoopHandle_OnClosed_def s1_def Let_def)
    then show ?thesis using core_unique(1) [OF s'(2)] core_member_undone [OF s'(2), of w] by auto
  qed
qed

end
