(* ===== verification/Watchers.thy ===== *)
theory Watchers
  imports Processes
begin

text \<open>
  File-system watchers (\<^verbatim>\<open>net.hpp\<close> \<open>Watcher\<close>; \<^verbatim>\<open>runtime.cpp\<close>): events queue while nobody
  waits, one task may wait at a time, and closing wakes the waiter. A watcher never has
  both a waiter and a queued event (\<open>watchers_ok\<close>), so events are delivered in order.
\<close>

section \<open>Definitions\<close>

definition put_watcher :: "addr \<Rightarrow> watcher_obj \<Rightarrow> runtime \<Rightarrow> runtime" where
  "put_watcher w wo s = s\<lparr>h_watchers := (h_watchers s)(w \<mapsto> wo)\<rparr>"

definition deliver_watch_event :: "addr \<Rightarrow> string \<Rightarrow> int \<Rightarrow> runtime \<Rightarrow> fault + runtime" where
  "deliver_watch_event t name ev s = sbind (deref (h_tasks s) t) (\<lambda>tk.
     Complete t ev (put_task t (tk\<lparr>t_str_out := name\<rparr>) s))"

definition on_fs_event :: "addr \<Rightarrow> string option \<Rightarrow> int \<Rightarrow> int \<Rightarrow> runtime \<Rightarrow> fault + runtime" where
  "on_fs_event w filename events status s = sbind (deref (h_watchers s) w) (\<lambda>wo.
     let name = (case filename of None \<Rightarrow> [] | Some f \<Rightarrow> f);
         ev = (if status < 0 then status else events)
     in if w_pending_next wo \<noteq> nullptr
        then deliver_watch_event (w_pending_next wo) name ev
               (put_watcher w (wo\<lparr>w_pending_next := nullptr\<rparr>) s)
        else Inr (put_watcher w (wo\<lparr>w_events := w_events wo @ [(name, ev)]\<rparr>) s))"

definition Dispatch_FsWatchOpen :: "uv_env \<Rightarrow> addr \<Rightarrow> runtime \<Rightarrow> fault + runtime" where
  "Dispatch_FsWatchOpen env t s = sbind (deref (h_tasks s) t) (\<lambda>tk.
     let w = new_addr env 0;
         s1 = new_Watcher w s;
         r = uv_fs_event_start env (t_path tk)
     in if r < 0 then sbind (Watcher_Close w nullptr s1) (Complete t r)
        else Complete t (as_result w) s1)"

definition Dispatch_FsWatchNext :: "addr \<Rightarrow> runtime \<Rightarrow> fault + runtime" where
  "Dispatch_FsWatchNext t s = sbind (deref (h_tasks s) t) (\<lambda>tk.
     let w = t_watcher tk in
     sbind (deref (h_watchers s) w) (\<lambda>wo.
       if w_pending_next wo \<noteq> nullptr then Complete t UV_EBUSY s
       else case w_events wo of
         (name, ev) # es \<Rightarrow> deliver_watch_event t name ev (put_watcher w (wo\<lparr>w_events := es\<rparr>) s)
       | [] \<Rightarrow> Inr (put_watcher w (wo\<lparr>w_pending_next := t\<rparr>) s)))"

definition Dispatch_FsWatchClose :: "addr \<Rightarrow> runtime \<Rightarrow> fault + runtime" where
  "Dispatch_FsWatchClose t s = sbind (deref (h_tasks s) t) (\<lambda>tk.
     let w = t_watcher tk in
     sbind (deref (h_watchers s) w) (\<lambda>wo.
       sbind (if w_pending_next wo \<noteq> nullptr
              then Complete (w_pending_next wo) UV_ECANCELED
                     (put_watcher w (wo\<lparr>w_pending_next := nullptr\<rparr>) s)
              else Inr s)
         (Watcher_Close w t)))"

definition watchers_ok :: "(addr \<rightharpoonup> watcher_obj) \<Rightarrow> bool" where
  "watchers_ok m \<longleftrightarrow> (\<forall>w wo. m w = Some wo \<longrightarrow>
     (w_pending_next wo \<noteq> nullptr \<longrightarrow> w_events wo = []) \<and>
     (uv_closing wo \<longrightarrow> w_pending_next wo = nullptr) \<and>
     (\<not> uv_closing wo \<longrightarrow> close_task wo = nullptr))"

section \<open>Ownership\<close>

lemma core_put_watcher:
  assumes "core L s" and "h_watchers s w = Some wo"
    and "watcher_held wo + L = watcher_held wo' + L'"
  shows "core L' (put_watcher w wo' s)"
  using watcher_heap.core_obj_upd [OF assms] by (simp add: put_watcher_def)

lemma put_watcher_simps [simp]:
  "h_watchers (put_watcher w wo s) = (h_watchers s)(w \<mapsto> wo)"
  "h_tasks (put_watcher w wo s) = h_tasks s"
  by (simp_all add: put_watcher_def)

lemma put_watcher_same_handles:
  "same_handles (put_watcher w wo s) s' \<Longrightarrow> h_watchers s' = (h_watchers s)(w \<mapsto> wo)
    \<and> same_handles (s\<lparr>h_watchers := h_watchers s'\<rparr>) s'"
  by (simp add: same_handles_def put_watcher_def)

lemma deliver_core:
  assumes c: "core (add_mset t L) s" and t: "h_tasks s t = Some tk"
  shows "\<exists>s'. deliver_watch_event t name ev s = Inr s' \<and> core L s' \<and> same_handles s s'
    \<and> h_tasks s' = (h_tasks s)(t \<mapsto> completed ev (tk\<lparr>t_str_out := name\<rparr>))"
proof -
  let ?tk = "tk\<lparr>t_str_out := name\<rparr>"
  have "core (add_mset t L) (put_task t ?tk s)" by (rule core_put_task [OF c t]) simp_all
  from Complete_core [OF this, of ev] obtain s' where s': "Complete t ev (put_task t ?tk s) = Inr s'"
    "core L s'" "same_handles (put_task t ?tk s) s'"
    "h_tasks s' = done_with [t] ev ((h_tasks s)(t \<mapsto> ?tk))" by auto
  have "same_handles s s'" using put_task_same_handles s'(3) by (rule same_handles_trans)
  then show ?thesis using s' t by (simp add: deliver_watch_event_def done_with_single)
qed

text \<open>An event goes to the waiter, else to the end of the queue.\<close>

lemma on_fs_event_ok:
  assumes c: "core L s" and w: "h_watchers s w = Some wo"
    and nm: "name = (case filename of None \<Rightarrow> [] | Some f \<Rightarrow> f)"
      "ev = (if status < 0 then status else events)"
  shows "\<exists>s' wo'. on_fs_event w filename events status s = Inr s' \<and> core L s'
    \<and> h_watchers s' = (h_watchers s)(w \<mapsto> wo')
    \<and> same_handles (s\<lparr>h_watchers := h_watchers s'\<rparr>) s'
    \<and> (w_pending_next wo = nullptr \<and> wo' = wo\<lparr>w_events := w_events wo @ [(name, ev)]\<rparr>
          \<and> h_tasks s' = h_tasks s
       \<or> w_pending_next wo \<noteq> nullptr \<and> wo' = wo\<lparr>w_pending_next := nullptr\<rparr>
          \<and> (\<exists>tk. h_tasks s (w_pending_next wo) = Some tk \<and> h_tasks s'
              = (h_tasks s)(w_pending_next wo \<mapsto> completed ev (tk\<lparr>t_str_out := name\<rparr>))))"
proof (cases "w_pending_next wo = nullptr")
  case True
  let ?w1 = "wo\<lparr>w_events := w_events wo @ [(name, ev)]\<rparr>"
  have "core L (put_watcher w ?w1 s)"
    by (rule core_put_watcher [OF c w]) (simp add: watcher_held_def)
  then show ?thesis using True w nm
    by (auto simp: on_fs_event_def put_watcher_def same_handles_def Let_def)
next
  case False
  let ?t = "w_pending_next wo" let ?w1 = "wo\<lparr>w_pending_next := nullptr\<rparr>"
  have c1: "core (add_mset ?t L) (put_watcher w ?w1 s)"
    by (rule core_put_watcher [OF c w]) (simp add: watcher_held_def False)
  then obtain tk where tk: "h_tasks s ?t = Some tk" by (rule core_local_task) simp
  from deliver_core [OF c1, of tk name ev] obtain s' where s':
    "deliver_watch_event ?t name ev (put_watcher w ?w1 s) = Inr s'" "core L s'"
    "same_handles (put_watcher w ?w1 s) s'"
    "h_tasks s' = (h_tasks s)(?t \<mapsto> completed ev (tk\<lparr>t_str_out := name\<rparr>))" using tk by auto
  show ?thesis using False w nm s'(1,2,4) put_watcher_same_handles [OF s'(3)] tk
    by (auto simp: on_fs_event_def Let_def)
qed

section \<open>Opening, waiting, closing\<close>

lemma new_Watcher_simps [simp]:
  "h_watchers (new_Watcher w s) = (h_watchers s)(w \<mapsto> Watcher_ctor)"
  "h_tasks (new_Watcher w s) = h_tasks s"
  by (simp_all add: new_Watcher_def Counted_ctor_def)

lemma Dispatch_FsWatchOpen_ok:
  assumes c: "core (add_mset t L) s" and t: "h_tasks s t = Some tk"
    and w: "new_addr env 0 = w" "h_watchers s w = None" "w \<noteq> 0"
  shows "\<exists>s' wo r. Dispatch_FsWatchOpen env t s = Inr s' \<and> core L s'
    \<and> h_watchers s' = (h_watchers s)(w \<mapsto> wo)
    \<and> same_handles (s\<lparr>h_watchers := h_watchers s'\<rparr>) s'
    \<and> h_tasks s' = done_with [t] r (h_tasks s)
    \<and> (r < 0 \<and> wo = Watcher_ctor\<lparr>uv_closing := True\<rparr> \<or> r = as_result w \<and> wo = Watcher_ctor)"
proof -
  let ?r = "uv_fs_event_start env (t_path tk)"
  have c1: "core (add_mset t L) (new_Watcher w s)" by (rule new_Watcher_core [OF c w(2,3)])
  show ?thesis
  proof (cases "?r < 0")
    case True
    have c2: "core (opt_task nullptr + add_mset t L) (new_Watcher w s)" using c1 by simp
    have "h_watchers (new_Watcher w s) w = Some Watcher_ctor" "\<not> uv_closing Watcher_ctor"
      "close_task Watcher_ctor = nullptr" by (simp_all add: Watcher_ctor_def)
    note cl = watcher_close.Close_core [OF c2 this]
    let ?h = "Watcher_ctor\<lparr>uv_closing := True\<rparr>"
    have e: "Watcher_ctor\<lparr>close_task := nullptr, uv_closing := True\<rparr> = ?h"
      by (simp add: Watcher_ctor_def)
    let ?s1 = "(new_Watcher w s)\<lparr>h_watchers := (h_watchers s)(w \<mapsto> ?h)\<rparr>"
    have s1: "Watcher_Close w nullptr (new_Watcher w s) = Inr ?s1" "core (add_mset t L) ?s1"
      using cl by (simp_all add: Watcher_Close_def e)
    from Complete_core [OF s1(2), of ?r] obtain s' where s': "Complete t ?r ?s1 = Inr s'"
      "core L s'" "same_handles ?s1 s'" "h_tasks s' = done_with [t] ?r (h_tasks s)" by auto
    have "h_watchers s' = (h_watchers s)(w \<mapsto> ?h)" "same_handles (s\<lparr>h_watchers := h_watchers s'\<rparr>) s'"
      using s'(3) by (simp_all add: same_handles_def new_Watcher_def Counted_ctor_def)
    moreover have "Dispatch_FsWatchOpen env t s = Inr s'"
      using t w(1) True s1(1) s'(1) by (simp add: Dispatch_FsWatchOpen_def Let_def)
    ultimately show ?thesis using True s'(2,4) by blast
  next
    case False
    from Complete_core [OF c1, of "as_result w"] obtain s' where s':
      "Complete t (as_result w) (new_Watcher w s) = Inr s'" "core L s'"
      "same_handles (new_Watcher w s) s'" "h_tasks s' = done_with [t] (as_result w) (h_tasks s)"
      by auto
    have "h_watchers s' = (h_watchers s)(w \<mapsto> Watcher_ctor)"
      "same_handles (s\<lparr>h_watchers := h_watchers s'\<rparr>) s'"
      using s'(3) by (simp_all add: same_handles_def new_Watcher_def Counted_ctor_def)
    moreover have "Dispatch_FsWatchOpen env t s = Inr s'"
      using t w(1) False s'(1) by (simp add: Dispatch_FsWatchOpen_def Let_def)
    ultimately show ?thesis using s'(2,4) by blast
  qed
qed

text \<open>
  A task asking for the next event: busy when somebody waits already, else the oldest
  queued event, else it becomes the waiter.
\<close>

lemma Dispatch_FsWatchNext_ok:
  assumes c: "core (add_mset t L) s" and t: "h_tasks s t = Some tk" "t_watcher tk = w"
    and w: "h_watchers s w = Some wo"
  shows "\<exists>s' wo'. Dispatch_FsWatchNext t s = Inr s' \<and> core L s'
    \<and> h_watchers s' = (h_watchers s)(w \<mapsto> wo')
    \<and> same_handles (s\<lparr>h_watchers := h_watchers s'\<rparr>) s'
    \<and> (w_pending_next wo \<noteq> nullptr \<and> wo' = wo \<and> h_tasks s' = done_with [t] UV_EBUSY (h_tasks s)
       \<or> w_pending_next wo = nullptr \<and> (\<exists>name ev es. w_events wo = (name, ev) # es
          \<and> wo' = wo\<lparr>w_events := es\<rparr>
          \<and> h_tasks s' = (h_tasks s)(t \<mapsto> completed ev (tk\<lparr>t_str_out := name\<rparr>)))
       \<or> w_pending_next wo = nullptr \<and> w_events wo = [] \<and> wo' = wo\<lparr>w_pending_next := t\<rparr>
          \<and> h_tasks s' = h_tasks s)"
proof -
  consider "w_pending_next wo \<noteq> nullptr"
    | name ev es where "w_pending_next wo = nullptr" "w_events wo = (name, ev) # es"
    | "w_pending_next wo = nullptr" "w_events wo = []"
    by (metis list.exhaust surj_pair)
  then show ?thesis
  proof cases
    case 1
    obtain s' where s': "Complete t UV_EBUSY s = Inr s'" "core L s'" "same_handles s s'"
      "h_tasks s' = done_with [t] UV_EBUSY (h_tasks s)"
      using Complete_core [OF c, of UV_EBUSY] by blast
    have "h_watchers s' = (h_watchers s)(w \<mapsto> wo)" "same_handles (s\<lparr>h_watchers := h_watchers s'\<rparr>) s'"
      using s'(3) w by (simp_all add: same_handles_def fun_upd_idem)
    then show ?thesis using 1 t w s'(1,2,4)
      by (intro exI [of _ s'] exI [of _ wo]) (simp add: Dispatch_FsWatchNext_def)
  next
    case 2
    let ?w1 = "wo\<lparr>w_events := es\<rparr>"
    have c1: "core (add_mset t L) (put_watcher w ?w1 s)"
      by (rule core_put_watcher [OF c w]) (simp add: watcher_held_def)
    have t1: "h_tasks (put_watcher w ?w1 s) t = Some tk" using t by simp
    from deliver_core [OF c1 t1, of name ev] obtain s' where s':
      "deliver_watch_event t name ev (put_watcher w ?w1 s) = Inr s'" "core L s'"
      "same_handles (put_watcher w ?w1 s) s'"
      "h_tasks s' = (h_tasks s)(t \<mapsto> completed ev (tk\<lparr>t_str_out := name\<rparr>))" by auto
    have "h_watchers s' = (h_watchers s)(w \<mapsto> ?w1)"
      "same_handles (s\<lparr>h_watchers := (h_watchers s)(w \<mapsto> ?w1)\<rparr>) s'"
      using s'(3) by (simp_all add: same_handles_def put_watcher_def)
    then show ?thesis using 2 t w s'(1,2,4)
      by (intro exI [of _ s'] exI [of _ ?w1]) (simp add: Dispatch_FsWatchNext_def)
  next
    case 3
    let ?w1 = "wo\<lparr>w_pending_next := t\<rparr>"
    have "core L (put_watcher w ?w1 s)"
      by (rule core_put_watcher [OF c w])
        (use 3 core_local_nonnull [OF c] in \<open>simp add: watcher_held_def\<close>)
    then show ?thesis using 3 t w
      by (intro exI [of _ "put_watcher w ?w1 s"] exI [of _ ?w1])
        (simp add: Dispatch_FsWatchNext_def put_watcher_def same_handles_def)
  qed
qed

text \<open>Closing wakes the waiter with \<open>ECANCELED\<close> before the handle begins closing.\<close>

lemma Dispatch_FsWatchClose_ok:
  assumes c: "core (add_mset t L) s" and t: "h_tasks s t = Some tk" "t_watcher tk = w"
    and w: "h_watchers s w = Some wo" "\<not> uv_closing wo" "close_task wo = nullptr"
  shows "\<exists>s'. Dispatch_FsWatchClose t s = Inr s' \<and> core L s'
    \<and> h_watchers s' = (h_watchers s)(w \<mapsto> wo\<lparr>w_pending_next := nullptr, close_task := t,
        uv_closing := True\<rparr>)
    \<and> same_handles (s\<lparr>h_watchers := h_watchers s'\<rparr>) s'
    \<and> h_tasks s' = (if w_pending_next wo = nullptr then h_tasks s
        else done_with [w_pending_next wo] UV_ECANCELED (h_tasks s))"
proof -
  let ?p = "w_pending_next wo"
  let ?w1 = "wo\<lparr>w_pending_next := nullptr\<rparr>"
  let ?w2 = "?w1\<lparr>close_task := t, uv_closing := True\<rparr>"
  have "\<exists>s1. (if ?p \<noteq> nullptr then Complete ?p UV_ECANCELED (put_watcher w ?w1 s) else Inr s) = Inr s1
    \<and> core (opt_task t + L) s1 \<and> same_handles (put_watcher w ?w1 s) s1
    \<and> h_tasks s1 = (if ?p = nullptr then h_tasks s else done_with [?p] UV_ECANCELED (h_tasks s))"
  proof (cases "?p = nullptr")
    case True
    then have "wo = ?w1" by simp
    then have "put_watcher w ?w1 s = s" using w(1) by (simp add: put_watcher_def fun_upd_idem)
    then show ?thesis using True c core_local_nonnull [OF c] by simp
  next
    case False
    have "core (add_mset ?p (opt_task t + L)) (put_watcher w ?w1 s)"
      by (rule core_put_watcher [OF c w(1)])
        (use False core_local_nonnull [OF c] in \<open>simp add: watcher_held_def\<close>)
    from Complete_core [OF this, of UV_ECANCELED] show ?thesis using False by auto
  qed
  then obtain s1 where s1:
    "(if ?p \<noteq> nullptr then Complete ?p UV_ECANCELED (put_watcher w ?w1 s) else Inr s) = Inr s1"
    "core (opt_task t + L) s1" "same_handles (put_watcher w ?w1 s) s1"
    "h_tasks s1 = (if ?p = nullptr then h_tasks s else done_with [?p] UV_ECANCELED (h_tasks s))"
    by blast
  note f = put_watcher_same_handles [OF s1(3)]
  have w1: "h_watchers s1 w = Some ?w1" "\<not> uv_closing ?w1" "close_task ?w1 = nullptr"
    using f w by simp_all
  note cl = watcher_close.Close_core [OF s1(2) w1]
  let ?s2 = "s1\<lparr>h_watchers := (h_watchers s)(w \<mapsto> ?w2)\<rparr>"
  have "Dispatch_FsWatchClose t s = Inr ?s2"
    using t w(1) s1(1) cl(1) f by (simp add: Dispatch_FsWatchClose_def Watcher_Close_def)
  moreover have "core L ?s2" using cl(2) f by simp
  moreover have "same_handles (s\<lparr>h_watchers := h_watchers ?s2\<rparr>) ?s2"
    using f by (simp add: same_handles_def)
  ultimately show ?thesis using s1(4) by (intro exI [of _ ?s2]) simp
qed

subsection \<open>The invariant\<close>

lemma watchers_okD:
  assumes "watchers_ok m" and "m w = Some wo"
  shows "w_pending_next wo \<noteq> nullptr \<Longrightarrow> w_events wo = []"
    "uv_closing wo \<Longrightarrow> w_pending_next wo = nullptr"
    "\<not> uv_closing wo \<Longrightarrow> close_task wo = nullptr"
  using assms by (auto simp: watchers_ok_def)

lemma watchers_ok_upd:
  assumes "watchers_ok m" and "w_pending_next wo \<noteq> nullptr \<Longrightarrow> w_events wo = [] \<and> \<not> uv_closing wo"
    and "\<not> uv_closing wo \<Longrightarrow> close_task wo = nullptr"
  shows "watchers_ok (m(w \<mapsto> wo))"
  using assms by (auto simp: watchers_ok_def)

lemma watchers_ok_delete: "watchers_ok m \<Longrightarrow> watchers_ok (m(w := None))"
  by (auto simp: watchers_ok_def)

end
