(* ===== verification/Requests.thy ===== *)
theory Requests
  imports Watchers
begin

text \<open>
  One-shot operations (\<^verbatim>\<open>runtime.cpp\<close>): timers, file-system requests, name lookups and
  the opening of inherited descriptors. Such a task is owned by a libuv request between
  its dispatch and its callback; the callback stores what libuv found in the task and
  completes it.

  The return value of the \<open>uv_fs_\<close> calls is not looked at by the code: a call libuv
  refuses leaves the task with no request and no result (\<open>fs_refused_lost\<close>); the model
  notes it in the history \<open>uv_refused\<close>. The opening of a standard descriptor closes its new
  stream when the initialiser failed, which is a fault if the handle inside was never
  initialised (\<open>stdio_closes_uninitialised\<close>).
\<close>

section \<open>Definitions\<close>

definition uv_request :: "uv_req \<Rightarrow> runtime \<Rightarrow> runtime" where
  "uv_request q s = s\<lparr>uv_pending := uv_pending s @ [q]\<rparr>"

subsection \<open>Timers\<close>

definition Dispatch_Timer :: "addr \<Rightarrow> runtime \<Rightarrow> fault + runtime" where
  "Dispatch_Timer t s = sbind (deref (h_tasks s) t) (\<lambda>tk.
     Inr (uv_request (TimerReq t (t_timeout_ms tk)) s))"

definition on_timer :: "addr \<Rightarrow> runtime \<Rightarrow> fault + runtime" where
  "on_timer t s = sbind (deref (h_tasks s) t) (\<lambda>tk. Inr (uv_request (TimerClosing t) s))"

definition on_timer_closed :: "addr \<Rightarrow> runtime \<Rightarrow> fault + runtime" where
  "on_timer_closed t s = Complete t 0 s"

subsection \<open>File-system requests\<close>

definition fs_start :: "uv_env \<Rightarrow> addr \<Rightarrow> (task \<Rightarrow> fs_call) \<Rightarrow> runtime \<Rightarrow> fault + runtime" where
  "fs_start env t call s = sbind (deref (h_tasks s) t) (\<lambda>tk.
     Inr (if uv_fs env (call tk) < 0 then s\<lparr>uv_refused := uv_refused s @ [(t, call tk)]\<rparr>
          else uv_request (FsReq t (call tk)) s))"

definition Dispatch_FsOpen :: "uv_env \<Rightarrow> addr \<Rightarrow> runtime \<Rightarrow> fault + runtime" where
  "Dispatch_FsOpen env t = fs_start env t (\<lambda>tk. UvFsOpen (t_path tk) (t_flags tk) (t_mode tk))"

definition Dispatch_FsRead :: "uv_env \<Rightarrow> addr \<Rightarrow> runtime \<Rightarrow> fault + runtime" where
  "Dispatch_FsRead env t =
     fs_start env t (\<lambda>tk. UvFsRead (t_fd tk) (task_data t tk) (t_nbytes tk) (t_offset tk))"

definition Dispatch_FsWrite :: "uv_env \<Rightarrow> addr \<Rightarrow> runtime \<Rightarrow> fault + runtime" where
  "Dispatch_FsWrite env t =
     fs_start env t (\<lambda>tk. UvFsWrite (t_fd tk) (task_data t tk) (t_nbytes tk) (t_offset tk))"

definition Dispatch_FsClose :: "uv_env \<Rightarrow> addr \<Rightarrow> runtime \<Rightarrow> fault + runtime" where
  "Dispatch_FsClose env t = fs_start env t (\<lambda>tk. UvFsClose (t_fd tk))"

definition Dispatch_FsStat :: "uv_env \<Rightarrow> addr \<Rightarrow> runtime \<Rightarrow> fault + runtime" where
  "Dispatch_FsStat env t = fs_start env t (\<lambda>tk. UvFsStat (t_path tk))"

definition Dispatch_FsMkdir :: "uv_env \<Rightarrow> addr \<Rightarrow> runtime \<Rightarrow> fault + runtime" where
  "Dispatch_FsMkdir env t = fs_start env t (\<lambda>tk. UvFsMkdir (t_path tk) (t_mode tk))"

definition Dispatch_FsRmdir :: "uv_env \<Rightarrow> addr \<Rightarrow> runtime \<Rightarrow> fault + runtime" where
  "Dispatch_FsRmdir env t = fs_start env t (\<lambda>tk. UvFsRmdir (t_path tk))"

definition Dispatch_FsUnlink :: "uv_env \<Rightarrow> addr \<Rightarrow> runtime \<Rightarrow> fault + runtime" where
  "Dispatch_FsUnlink env t = fs_start env t (\<lambda>tk. UvFsUnlink (t_path tk))"

definition Dispatch_FsRename :: "uv_env \<Rightarrow> addr \<Rightarrow> runtime \<Rightarrow> fault + runtime" where
  "Dispatch_FsRename env t = fs_start env t (\<lambda>tk. UvFsRename (t_path tk) (t_new_path tk))"

definition Dispatch_FsRealpath :: "uv_env \<Rightarrow> addr \<Rightarrow> runtime \<Rightarrow> fault + runtime" where
  "Dispatch_FsRealpath env t = fs_start env t (\<lambda>tk. UvFsRealpath (t_path tk))"

definition Dispatch_FsScandir :: "uv_env \<Rightarrow> addr \<Rightarrow> runtime \<Rightarrow> fault + runtime" where
  "Dispatch_FsScandir env t = fs_start env t (\<lambda>tk. UvFsScandir (t_path tk) 0)"

text \<open>
  What a finished \<open>uv_fs_t\<close> carries: result, stat buffer, string, directory entries; and
  the bytes a read has put into the caller's buffer.
\<close>

record uv_fs_outcome =
  fr_result :: int
  fr_statbuf :: uv_stat
  fr_ptr :: string
  fr_dirents :: "string list"
  fr_data :: "byte list"

definition fs_result :: "uv_fs_outcome \<Rightarrow> task \<Rightarrow> task" where
  "fs_result q tk = (case t_op tk of
       FsStat \<Rightarrow> if fr_result q = 0 then tk\<lparr>t_statbuf := fr_statbuf q\<rparr> else tk
     | FsRealpath \<Rightarrow> if fr_result q = 0 then tk\<lparr>t_str_out := fr_ptr q\<rparr> else tk
     | FsScandir \<Rightarrow> if fr_result q \<ge> 0 then tk\<lparr>t_names := t_names tk @ fr_dirents q\<rparr> else tk
     | _ \<Rightarrow> tk)"

definition on_fs_done :: "addr \<Rightarrow> uv_fs_outcome \<Rightarrow> runtime \<Rightarrow> fault + runtime" where
  "on_fs_done t q s = sbind (deref (h_tasks s) t) (\<lambda>tk.
     Complete t (fr_result q) (put_task t (fs_result q tk) s))"

subsection \<open>Name lookups\<close>

text \<open>The printed form of one entry of the answer; families other than IP are skipped.\<close>

definition ai_name :: "uv_env \<Rightarrow> ai_family \<times> byte list \<Rightarrow> string option" where
  "ai_name env ai = (case fst ai of
       AF_INET \<Rightarrow> Some (uv_ip4_name env (snd ai))
     | AF_INET6 \<Rightarrow> Some (uv_ip6_name env (snd ai))
     | _ \<Rightarrow> None)"

fun collect_names :: "uv_env \<Rightarrow> (ai_family \<times> byte list) list \<Rightarrow> string list \<Rightarrow> string list" where
  "collect_names env [] names = names"
| "collect_names env (ai # res) names =
     (case ai_name env ai of
        None \<Rightarrow> collect_names env res names
      | Some ip \<Rightarrow> collect_names env res (if ip \<in> set names then names else names @ [ip]))"

definition on_getaddrinfo ::
  "uv_env \<Rightarrow> addr \<Rightarrow> int \<Rightarrow> (ai_family \<times> byte list) list \<Rightarrow> runtime \<Rightarrow> fault + runtime" where
  "on_getaddrinfo env t status res s = sbind (deref (h_tasks s) t) (\<lambda>tk.
     if status = 0 then
       (let names = collect_names env res (t_names tk);
            tk1 = tk\<lparr>t_names := names\<rparr>
        in if names = [] then Complete t UV_EAI_NONAME (put_task t tk1 s)
           else Complete t status (put_task t (tk1\<lparr>t_str_out := hd names\<rparr>) s))
     else Complete t status s)"

definition Dispatch_DnsResolve :: "uv_env \<Rightarrow> addr \<Rightarrow> runtime \<Rightarrow> fault + runtime" where
  "Dispatch_DnsResolve env t s = sbind (deref (h_tasks s) t) (\<lambda>tk.
     let family = (if t_family tk = 4 then AF_INET else if t_family tk = 6 then AF_INET6
                   else AF_UNSPEC);
         service = (if t_service tk = [] then None else Some (t_service tk));
         r = uv_getaddrinfo env (t_path tk) service family
     in if r < 0 then Complete t r s
        else Inr (uv_request (AddrReq t (t_path tk) service family) s))"

subsection \<open>Standard descriptors\<close>

definition Dispatch_StdioOpen :: "uv_env \<Rightarrow> addr \<Rightarrow> runtime \<Rightarrow> fault + runtime" where
  "Dispatch_StdioOpen env t s = sbind (deref (h_tasks s) t) (\<lambda>tk.
     let kind = uv_guess_handle env (t_fd tk) in
     if kind \<noteq> UV_TTY \<and> kind \<noteq> UV_NAMED_PIPE then Complete t 0 s
     else
       let x = new_addr env 0;
           s1 = new_Stream x s;
           (r, initialised) = (if kind = UV_TTY then uv_tty_init env (t_fd tk)
                else if uv_pipe_init env = 0 then (uv_pipe_open env (t_fd tk), True)
                else (uv_pipe_init env, False))
       in if r < 0 then
            if initialised then sbind (Stream_Close x nullptr s1) (Complete t r) else Inl BadHandle
          else Complete t (as_result x) s1)"

text \<open>
  What the code relies on when the initialiser of a descriptor's handle fails:
  \<open>uv_pipe_init\<close> does not fail, and an \<open>uv_tty_init\<close> that fails leaves a handle that
  \<open>uv_close\<close> accepts.
\<close>

definition init_ok :: "uv_env \<Rightarrow> bool" where
  "init_ok env \<longleftrightarrow> uv_pipe_init env = 0 \<and> (\<forall>fd. fst (uv_tty_init env fd) < 0 \<longrightarrow> snd (uv_tty_init env fd))"

section \<open>Ownership\<close>

lemma uv_request_core:
  assumes "core (add_mset t L) s" and "req_task q = t"
  shows "core L (uv_request q s)" "same_handles (s\<lparr>uv_pending := uv_pending s @ [q]\<rparr>) (uv_request q s)"
    "h_tasks (uv_request q s) = h_tasks s" "uv_pending (uv_request q s) = uv_pending s @ [q]"
  using core_pending_upd [OF assms(1), of "uv_pending s @ [q]" L] assms(2)
  by (simp_all add: uv_request_def)

lemma fs_start_ok:
  assumes c: "core (add_mset t L) s" and t: "h_tasks s t = Some tk" and f: "0 \<le> uv_fs env (call tk)"
  shows "fs_start env t call s = Inr (uv_request (FsReq t (call tk)) s)"
    and "core L (uv_request (FsReq t (call tk)) s)"
  using t f uv_request_core(1) [OF c, of "FsReq t (call tk)"] by (simp_all add: fs_start_def)

text \<open>
  A file-system call libuv refuses: the task is not completed, and nothing holds it.
\<close>

lemma fs_refused_lost:
  assumes c: "core (add_mset t L) s" and t: "h_tasks s t = Some tk" and f: "uv_fs env (call tk) < 0"
  shows "fs_start env t call s = Inr (s\<lparr>uv_refused := uv_refused s @ [(t, call tk)]\<rparr>)"
    and "core L (s\<lparr>uv_refused := uv_refused s @ [(t, call tk)]\<rparr>)"
    and "t \<in> undone (h_tasks s)" and "t \<notin># held s"
  using t f core_unique(1) [OF c] core_member_undone [OF c, of t] core_refuse [OF c]
  by (simp_all add: fs_start_def)

text \<open>Storing a result in the task and completing it.\<close>

lemma store_and_complete:
  assumes c: "core (add_mset t L) s" and t: "h_tasks s t = Some tk"
    and k: "t_done tk' = t_done tk" "t_cq tk' = t_cq tk" "t_pinned_obj tk' = t_pinned_obj tk"
  shows "\<exists>s'. Complete t r (put_task t tk' s) = Inr s' \<and> core L s' \<and> same_handles s s'
    \<and> h_tasks s' = (h_tasks s)(t \<mapsto> completed r tk')"
proof -
  have "core (add_mset t L) (put_task t tk' s)" by (rule core_put_task [OF c t k])
  from Complete_core [OF this, of r] obtain s' where s': "Complete t r (put_task t tk' s) = Inr s'"
    "core L s'" "same_handles (put_task t tk' s) s'"
    "h_tasks s' = done_with [t] r ((h_tasks s)(t \<mapsto> tk'))" by auto
  have "same_handles s s'" using put_task_same_handles s'(3) by (rule same_handles_trans)
  then show ?thesis using s' by (simp add: done_with_single)
qed

lemma fs_result_frame [simp]:
  "t_done (fs_result q tk) = t_done tk" "t_cq (fs_result q tk) = t_cq tk"
  "t_pinned_obj (fs_result q tk) = t_pinned_obj tk" "t_stream (fs_result q tk) = t_stream tk"
  by (simp_all add: fs_result_def split: Op.splits)

lemma on_fs_done_ok:
  assumes "core (add_mset t L) s" and "h_tasks s t = Some tk"
  shows "\<exists>s'. on_fs_done t q s = Inr s' \<and> core L s' \<and> same_handles s s'
    \<and> h_tasks s' = (h_tasks s)(t \<mapsto> completed (fr_result q) (fs_result q tk))"
  using store_and_complete [OF assms, of "fs_result q tk" "fr_result q"] assms(2)
  by (simp add: on_fs_done_def)

text \<open>The answer of a lookup: every distinct address, in the order of its first occurrence.\<close>

lemma collect_names_distinct: "distinct names \<Longrightarrow> distinct (collect_names env res names)"
  by (induction env res names rule: collect_names.induct) (auto split: option.splits)

lemma collect_names_set:
  "set (collect_names env res names) = set names \<union> {ip. \<exists>ai \<in> set res. ai_name env ai = Some ip}"
  by (induction env res names rule: collect_names.induct) (auto split: option.splits)

lemma collect_names_prefix: "\<exists>new. collect_names env res names = names @ new"
  by (induction env res names rule: collect_names.induct) (auto split: option.splits)

definition resolved :: "string list \<Rightarrow> task \<Rightarrow> task" where
  "resolved ns tk = tk\<lparr>t_names := ns, t_str_out := (if ns = [] then t_str_out tk else hd ns)\<rparr>"

lemma on_getaddrinfo_ok:
  assumes c: "core (add_mset t L) s" and t: "h_tasks s t = Some tk"
    and ns: "ns = collect_names env res (t_names tk)"
  shows "\<exists>s'. on_getaddrinfo env t status res s = Inr s' \<and> core L s' \<and> same_handles s s'
    \<and> h_tasks s' = (h_tasks s)(t \<mapsto> (if status \<noteq> 0 then completed status tk
        else completed (if ns = [] then UV_EAI_NONAME else 0) (resolved ns tk)))"
proof (cases "status = 0")
  case False
  have "put_task t tk s = s" using t by (simp add: put_task_def fun_upd_idem)
  then show ?thesis using store_and_complete [OF c t refl refl refl, of status] t False
    by (simp add: on_getaddrinfo_def)
next
  case True
  let ?r = "if ns = [] then UV_EAI_NONAME else 0"
  have "on_getaddrinfo env t status res s = Complete t ?r (put_task t (resolved ns tk) s)"
    using t True by (simp add: on_getaddrinfo_def Let_def resolved_def flip: ns)
  then show ?thesis using store_and_complete [OF c t, of "resolved ns tk" ?r] True
    by (simp add: resolved_def)
qed

lemma Dispatch_DnsResolve_ok:
  assumes c: "core (add_mset t L) s" and t: "h_tasks s t = Some tk"
  shows "\<exists>s' rs. Dispatch_DnsResolve env t s = Inr s' \<and> core L s'
    \<and> same_handles (s\<lparr>uv_pending := uv_pending s @ rs\<rparr>) s' \<and> uv_pending s' = uv_pending s @ rs
    \<and> (\<exists>r. rs = [] \<and> r < 0 \<and> h_tasks s' = done_with [t] r (h_tasks s)
       \<or> (\<exists>n v f. rs = [AddrReq t n v f]) \<and> h_tasks s' = h_tasks s)"
proof -
  define f where "f = (if t_family tk = 4 then AF_INET else if t_family tk = 6 then AF_INET6
                   else AF_UNSPEC)"
  define v where "v = (if t_service tk = [] then None else Some (t_service tk))"
  define r where "r = uv_getaddrinfo env (t_path tk) v f"
  have D: "Dispatch_DnsResolve env t s = (if r < 0 then Complete t r s
      else Inr (uv_request (AddrReq t (t_path tk) v f) s))"
    using t by (simp add: Dispatch_DnsResolve_def r_def v_def f_def Let_def)
  show ?thesis
  proof (cases "r < 0")
    case True
    obtain s' where s': "Complete t r s = Inr s'" "core L s'" "same_handles s s'"
      "h_tasks s' = done_with [t] r (h_tasks s)" using Complete_core [OF c, of r] by blast
    then have "uv_pending s' = uv_pending s" by (simp add: same_handles_fields)
    then show ?thesis using s' D True by (intro exI [of _ s'] exI [of _ "[]"]) auto
  next
    case False
    then show ?thesis using uv_request_core [OF c, of "AddrReq t (t_path tk) v f"] D
      by (intro exI [of _ "uv_request (AddrReq t (t_path tk) v f) s"]
          exI [of _ "[AddrReq t (t_path tk) v f]"]) simp
  qed
qed

text \<open>
  A standard descriptor: not streamable (result 0, nothing created), a stream, or an
  error with the new stream closing. Without \<open>init_ok\<close> the last case can be a fault.
\<close>

lemma stdio_closes_uninitialised:
  assumes "h_tasks s t = Some tk" and "uv_guess_handle env (t_fd tk) = UV_TTY"
    and "uv_tty_init env (t_fd tk) = (r, False)" and "r < 0"
  shows "Dispatch_StdioOpen env t s = Inl BadHandle"
  using assms by (simp add: Dispatch_StdioOpen_def Let_def)

lemma Dispatch_StdioOpen_ok:
  assumes c: "core (add_mset t L) s" and t: "h_tasks s t = Some tk" and ini: "init_ok env"
    and x: "new_addr env 0 = x" "h_streams s x = None" "x \<noteq> 0"
  shows "\<exists>s' r. Dispatch_StdioOpen env t s = Inr s' \<and> core L s'
    \<and> same_handles (s\<lparr>h_streams := h_streams s'\<rparr>) s'
    \<and> h_tasks s' = done_with [t] r (h_tasks s)
    \<and> (r = 0 \<and> h_streams s' = h_streams s
       \<or> r = as_result x \<and> h_streams s' = (h_streams s)(x \<mapsto> Stream_ctor)
       \<or> r < 0 \<and> h_streams s' = (h_streams s)(x \<mapsto> Stream_ctor\<lparr>uv_closing := True\<rparr>))"
proof -
  define kind where "kind = uv_guess_handle env (t_fd tk)"
  define r where "r = (if kind = UV_TTY then fst (uv_tty_init env (t_fd tk)) else uv_pipe_open env (t_fd tk))"
  have D: "Dispatch_StdioOpen env t s =
     (if kind \<noteq> UV_TTY \<and> kind \<noteq> UV_NAMED_PIPE then Complete t 0 s
      else if r < 0 then sbind (Stream_Close x nullptr (new_Stream x s)) (Complete t r)
      else Complete t (as_result x) (new_Stream x s))"
    using t x(1) ini by (auto simp: Dispatch_StdioOpen_def Let_def r_def kind_def init_ok_def case_prod_beta)
  have c1: "core (add_mset t L) (new_Stream x s)" by (rule new_Stream_core [OF c x(2,3)])
  consider "kind \<noteq> UV_TTY \<and> kind \<noteq> UV_NAMED_PIPE"
    | "\<not> (kind \<noteq> UV_TTY \<and> kind \<noteq> UV_NAMED_PIPE)" "r < 0"
    | "\<not> (kind \<noteq> UV_TTY \<and> kind \<noteq> UV_NAMED_PIPE)" "\<not> r < 0" by blast
  then show ?thesis
  proof cases
    case 1
    obtain s' where s': "Complete t 0 s = Inr s'" "core L s'" "same_handles s s'"
      "h_tasks s' = done_with [t] 0 (h_tasks s)" using Complete_core [OF c, of 0] by blast
    have "h_streams s' = h_streams s" "same_handles (s\<lparr>h_streams := h_streams s'\<rparr>) s'"
      using s'(3) by (simp_all add: same_handles_def)
    moreover have "Dispatch_StdioOpen env t s = Inr s'" using D 1 s'(1) by simp
    ultimately show ?thesis using s'(2,4) by blast
  next
    case 2
    have "h_streams (new_Stream x s) x = Some Stream_ctor" "\<not> uv_closing Stream_ctor"
      "close_task Stream_ctor = nullptr" by (simp_all add: Stream_ctor_def)
    from discard_stream [OF c1 this, of r] obtain s' where s':
      "sbind (Stream_Close x nullptr (new_Stream x s)) (Complete t r) = Inr s'" "core L s'"
      "h_streams s' = (h_streams s)(x \<mapsto> Stream_ctor\<lparr>uv_closing := True\<rparr>)"
      "same_handles ((new_Stream x s)\<lparr>h_streams := h_streams s'\<rparr>) s'"
      "h_tasks s' = done_with [t] r (h_tasks s)" by auto
    have "same_handles (s\<lparr>h_streams := h_streams s'\<rparr>) s'"
      using s'(4) by (simp add: same_handles_def new_Stream_def Counted_ctor_def)
    moreover have "Dispatch_StdioOpen env t s = Inr s'" using D 2 s'(1) by auto
    ultimately show ?thesis using s'(2,3,5) 2(2) by blast
  next
    case 3
    from Complete_core [OF c1, of "as_result x"] obtain s' where s':
      "Complete t (as_result x) (new_Stream x s) = Inr s'" "core L s'"
      "same_handles (new_Stream x s) s'" "h_tasks s' = done_with [t] (as_result x) (h_tasks s)"
      by auto
    have "h_streams s' = (h_streams s)(x \<mapsto> Stream_ctor)"
      "same_handles (s\<lparr>h_streams := h_streams s'\<rparr>) s'"
      using s'(3) by (simp_all add: same_handles_def new_Stream_def Counted_ctor_def)
    moreover have "Dispatch_StdioOpen env t s = Inr s'" using D 3 s'(1) by auto
    ultimately show ?thesis using s'(2,4) by blast
  qed
qed

end
