(* ===== verification/Runtime_Loop.thy ===== *)
theory Runtime_Loop
  imports Requests
begin

text \<open>
  The loop thread and the lifecycle (\<^verbatim>\<open>runtime.cpp\<close>, \<^verbatim>\<open>runtime.hpp\<close>): \<open>Dispatch\<close> over
  all operation codes, \<open>Drain\<close> and its wind-down, the signal handler with the graceful
  shutdown, the shutdown deadline, \<open>Start\<close>, \<open>Stop\<close> and \<open>Submit\<close>.

  \<open>_Exit\<close> is the field \<open>exit_code\<close>. \<open>Stop\<close> blocks in \<open>thread::join\<close> until the loop has
  nothing left to wait for: \<open>Stop\<close> is the part before the join, \<open>Stop_join\<close> the rest.
\<close>

section \<open>Dispatch and Drain\<close>

definition Dispatch :: "uv_env \<Rightarrow> addr \<Rightarrow> runtime \<Rightarrow> fault + runtime" where
  "Dispatch env t s = sbind (deref (h_tasks s) t) (\<lambda>tk.
     case t_op tk of
       Timer \<Rightarrow> Dispatch_Timer t s
     | FsOpen \<Rightarrow> Dispatch_FsOpen env t s
     | FsRead \<Rightarrow> Dispatch_FsRead env t s
     | FsWrite \<Rightarrow> Dispatch_FsWrite env t s
     | FsClose \<Rightarrow> Dispatch_FsClose env t s
     | FsStat \<Rightarrow> Dispatch_FsStat env t s
     | FsMkdir \<Rightarrow> Dispatch_FsMkdir env t s
     | FsRmdir \<Rightarrow> Dispatch_FsRmdir env t s
     | FsUnlink \<Rightarrow> Dispatch_FsUnlink env t s
     | FsRename \<Rightarrow> Dispatch_FsRename env t s
     | FsRealpath \<Rightarrow> Dispatch_FsRealpath env t s
     | FsScandir \<Rightarrow> Dispatch_FsScandir env t s
     | TcpConnect \<Rightarrow> Dispatch_TcpConnect env t s
     | TcpListen \<Rightarrow> Dispatch_TcpListen env t s
     | TcpAccept \<Rightarrow> Dispatch_TcpAccept t s
     | StreamRead \<Rightarrow> Dispatch_StreamRead env t s
     | StreamWrite \<Rightarrow> Dispatch_StreamWrite env t s
     | StreamClose \<Rightarrow> Dispatch_StreamClose t s
     | ListenerClose \<Rightarrow> Dispatch_ListenerClose t s
     | DnsResolve \<Rightarrow> Dispatch_DnsResolve env t s
     | ProcSpawn \<Rightarrow> Dispatch_ProcSpawn env t s
     | ProcWait \<Rightarrow> Dispatch_ProcWait t s
     | ProcKill \<Rightarrow> Dispatch_ProcKill env t s
     | ProcClose \<Rightarrow> Dispatch_ProcClose t s
     | FsWatchOpen \<Rightarrow> Dispatch_FsWatchOpen env t s
     | FsWatchNext \<Rightarrow> Dispatch_FsWatchNext t s
     | StdioOpen \<Rightarrow> Dispatch_StdioOpen env t s
     | FsWatchClose \<Rightarrow> Dispatch_FsWatchClose t s)"

text \<open>The loop over the swapped-out batch; the i-th task sees the i-th environment.\<close>

fun dispatch_all :: "(nat \<Rightarrow> uv_env) \<Rightarrow> addr list \<Rightarrow> runtime \<Rightarrow> fault + runtime" where
  "dispatch_all envs [] s = Inr s"
| "dispatch_all envs (t # ts) s =
     sbind (Dispatch (envs 0) t s) (dispatch_all (\<lambda>i. envs (Suc i)) ts)"

definition uv_close_member :: "uvh \<Rightarrow> fault + uvh" where
  "uv_close_member h = (if h = Active then Inr Closed else Inl BadHandle)"

definition wind_down :: "runtime \<Rightarrow> fault + runtime" where
  "wind_down s =
     sbind (uv_close_member (async s)) (\<lambda>a.
     sbind (if exit_on_signal s
            then sbind (uv_close_member (sig_int s)) (\<lambda>i.
                 sbind (uv_close_member (sig_term s)) (\<lambda>j.
                   Inr (s\<lparr>async := a, sig_int := i, sig_term := j\<rparr>)))
            else Inr (s\<lparr>async := a\<rparr>)) (\<lambda>s1.
     if shutdown_timer_started s1
     then sbind (uv_close_member (shutdown_timer s1)) (\<lambda>m.
            Inr (s1\<lparr>shutdown_timer_started := False, shutdown_timer := m\<rparr>))
     else Inr s1))"

definition Drain :: "(nat \<Rightarrow> uv_env) \<Rightarrow> runtime \<Rightarrow> fault + runtime" where
  "Drain envs s =
     sbind (dispatch_all envs (queue s) (s\<lparr>queue := []\<rparr>)) (\<lambda>s1.
       if stopping s1 then wind_down s1 else Inr s1)"

text \<open>libuv clears the pending flag of the async handle before it calls back.\<close>

definition OnAsync :: "(nat \<Rightarrow> uv_env) \<Rightarrow> runtime \<Rightarrow> fault + runtime" where
  "OnAsync envs s = Drain envs (s\<lparr>async_sent := False\<rparr>)"

section \<open>Signals\<close>

definition OnSignal :: "uv_env \<Rightarrow> int \<Rightarrow> runtime \<Rightarrow> fault + runtime" where
  "OnSignal env signum s =
     (let s0 = s\<lparr>shutdown_signaled := True\<rparr> in
      if shutdown_signaled s \<or> listeners s = []
      then Inr (s0\<lparr>exit_code := Some (128 + signum)\<rparr>)
      else
        sbind (sfold (\<lambda>l. abort_listener l nullptr) (iter_order env (listeners s0))
                (s0\<lparr>shutdown_signum := signum\<rparr>)) (\<lambda>s1.
        sbind (cancel_pending_reads env (s1\<lparr>listeners := []\<rparr>)) (\<lambda>s2.
          Inr (s2\<lparr>shutdown_timer := Active, shutdown_timer_started := True,
                  shutdown_timer_due := shutdown_timeout_ms s2\<rparr>))))"

definition OnShutdownTimer :: "runtime \<Rightarrow> runtime" where
  "OnShutdownTimer s = s\<lparr>exit_code := Some (128 + shutdown_signum s)\<rparr>"

section \<open>Lifecycle and submission\<close>

definition Start :: "runtime \<Rightarrow> runtime" where
  "Start s =
     (if running s then s
      else
        let s1 = s\<lparr>running := True, stopping := False, shutdown_signaled := False,
                   shutdown_timer_started := False, reading_streams := [],
                   async := Active, async_sent := False\<rparr>
        in if exit_on_signal s1 then s1\<lparr>sig_int := Active, sig_term := Active\<rparr> else s1)"

definition uv_async_send :: "runtime \<Rightarrow> fault + runtime" where
  "uv_async_send s = (if async s = Active then Inr (s\<lparr>async_sent := True\<rparr>) else Inl BadHandle)"

definition Stop :: "runtime \<Rightarrow> fault + runtime" where
  "Stop s = (if \<not> running s then Inr s
             else uv_async_send (s\<lparr>running := False, stopping := True\<rparr>))"

text \<open>What keeps \<open>uv_run\<close> from returning: active or closing handles, and requests.\<close>

definition uv_loop_alive :: "runtime \<Rightarrow> bool" where
  "uv_loop_alive s \<longleftrightarrow> async s = Active \<or> sig_int s = Active \<or> sig_term s = Active
     \<or> shutdown_timer s = Active \<or> uv_pending s \<noteq> []
     \<or> (\<exists>x st. h_streams s x = Some st \<and> (uv_reading st \<or> uv_closing st))
     \<or> (\<exists>l lo. h_listeners s l = Some lo)
     \<or> (\<exists>p po. h_processes s p = Some po \<and> (\<not> p_exited po \<or> uv_closing po))
     \<or> (\<exists>w wo. h_watchers s w = Some wo)"

definition Stop_join :: "runtime \<Rightarrow> runtime option" where
  "Stop_join s = (if uv_loop_alive s then None else Some s)"

definition Submit :: "uv_env \<Rightarrow> addr \<Rightarrow> runtime \<Rightarrow> fault + runtime" where
  "Submit env t s =
     (if \<not> ndebug env \<and> \<not> running s then Inl AssertionFailed
      else uv_async_send (s\<lparr>queue := queue s @ [t]\<rparr>))"

definition ExitOnSignal :: "bool \<Rightarrow> runtime \<Rightarrow> runtime" where
  "ExitOnSignal on s = s\<lparr>exit_on_signal := on\<rparr>"

definition SetShutdownTimeout :: "32 word \<Rightarrow> runtime \<Rightarrow> runtime" where
  "SetShutdownTimeout ms s = s\<lparr>shutdown_timeout_ms := ms\<rparr>"

definition ShutdownRequested :: "runtime \<Rightarrow> bool" where
  "ShutdownRequested s = shutdown_signaled s"

end
