(* ===== verification/Ffi.thy ===== *)
theory Ffi
  imports Runtime_Loop
begin

text \<open>
  The C ABI of the runtime (\<^verbatim>\<open>rt_ffi.cpp\<close>), one definition per function. A submitting
  function allocates a task, fills in its parameters and submits it; the handle it
  returns is the address of the task, the first address \<open>new\<close> returns in the call.

  Foreign memory passed in (\<open>const void*\<close>, \<open>void*\<close>) is the list of the bytes that can be
  reached from the pointer, so that copying past its end is a \<open>BufferOverrun\<close>. A pinned
  bytevector is its object address; its bytes live in \<open>ext_mem\<close>.

  \<open>pack_strings\<close> is the Scheme side of \<open>rt_spawn\<close> (\<^verbatim>\<open>io-proc.ss\<close>).
\<close>

section \<open>Allocation and submission\<close>

definition new_task :: "uv_env \<Rightarrow> Op \<Rightarrow> addr \<Rightarrow> runtime \<Rightarrow> fault + runtime" where
  "new_task env op cq s =
     (let t = new_addr env 0;
          s1 = Counted_ctor CTask
                 (s\<lparr>h_tasks := (h_tasks s)(t \<mapsto> (Task_ctor op)\<lparr>t_cq := cq\<rparr>)\<rparr>)
      in if cq \<noteq> nullptr then Retain cq s1 else Inr s1)"

definition new_pinned_task ::
  "uv_env \<Rightarrow> Op \<Rightarrow> addr \<Rightarrow> addr \<Rightarrow> 32 word \<Rightarrow> 32 word \<Rightarrow> runtime \<Rightarrow> fault + runtime" where
  "new_pinned_task env op cq bytevector start nbytes s =
     sbind (new_task env op cq s) (\<lambda>s1.
     sbind (deref (h_tasks s1) (new_addr env 0)) (\<lambda>tk.
       Inr (put_task (new_addr env 0)
              (tk\<lparr>t_pinned_obj := bytevector,
                  t_ext_data := bytevector_data env bytevector + ucast start,
                  t_nbytes := nbytes\<rparr>)
              (s1\<lparr>locked := add_mset bytevector (locked s1)\<rparr>))))"

definition Submit_handle :: "uv_env \<Rightarrow> runtime \<Rightarrow> fault + (addr \<times> runtime)" where
  "Submit_handle env s = sbind (Submit env (new_addr env 0) s) (\<lambda>s1. Inr (new_addr env 0, s1))"

text \<open>Fill in the parameters of a new task and submit it.\<close>

definition fill_submit :: "uv_env \<Rightarrow> (task \<Rightarrow> task) \<Rightarrow> fault + runtime \<Rightarrow> fault + (addr \<times> runtime)" where
  "fill_submit env f m = sbind m (\<lambda>s1.
     sbind (deref (h_tasks s1) (new_addr env 0)) (\<lambda>tk.
       Submit_handle env (put_task (new_addr env 0) (f tk) s1)))"

definition SubmitStreamOp :: "uv_env \<Rightarrow> Op \<Rightarrow> addr \<Rightarrow> addr \<Rightarrow> runtime \<Rightarrow> fault + (addr \<times> runtime)" where
  "SubmitStreamOp env op stream cq s =
     fill_submit env (\<lambda>tk. tk\<lparr>t_stream := stream\<rparr>) (new_task env op cq s)"

definition SubmitListenerOp :: "uv_env \<Rightarrow> Op \<Rightarrow> addr \<Rightarrow> addr \<Rightarrow> runtime \<Rightarrow> fault + (addr \<times> runtime)" where
  "SubmitListenerOp env op listener cq s =
     fill_submit env (\<lambda>tk. tk\<lparr>t_listener := listener\<rparr>) (new_task env op cq s)"

definition SubmitProcessOp :: "uv_env \<Rightarrow> Op \<Rightarrow> addr \<Rightarrow> addr \<Rightarrow> runtime \<Rightarrow> fault + (addr \<times> runtime)" where
  "SubmitProcessOp env op process cq s =
     fill_submit env (\<lambda>tk. tk\<lparr>t_process := process\<rparr>) (new_task env op cq s)"

definition SubmitWatcherOp :: "uv_env \<Rightarrow> Op \<Rightarrow> addr \<Rightarrow> addr \<Rightarrow> runtime \<Rightarrow> fault + (addr \<times> runtime)" where
  "SubmitWatcherOp env op watcher cq s =
     fill_submit env (\<lambda>tk. tk\<lparr>t_watcher := watcher\<rparr>) (new_task env op cq s)"

text \<open>\<open>buffer.resize(n); memcpy(buffer.data(), src + start, n)\<close>.\<close>

definition copy_in :: "byte list \<Rightarrow> 32 word \<Rightarrow> 32 word \<Rightarrow> fault + byte list" where
  "copy_in src start n =
     (if unat start + unat n \<le> length src then Inr (take (unat n) (drop (unat start) src))
      else Inl BufferOverrun)"

section \<open>Lifecycle\<close>

definition rt_runtime_start :: "runtime \<Rightarrow> runtime" where
  "rt_runtime_start s = Start s"

definition rt_runtime_stop :: "runtime \<Rightarrow> fault + runtime" where
  "rt_runtime_stop s = Stop s"

definition rt_runtime_exit_on_signal :: "int \<Rightarrow> runtime \<Rightarrow> runtime" where
  "rt_runtime_exit_on_signal on s = ExitOnSignal (on \<noteq> 0) s"

definition rt_shutdown_timeout :: "32 word \<Rightarrow> runtime \<Rightarrow> runtime" where
  "rt_shutdown_timeout ms s = SetShutdownTimeout ms s"

definition rt_shutdown_requested :: "runtime \<Rightarrow> int" where
  "rt_shutdown_requested s = (if ShutdownRequested s then 1 else 0)"

section \<open>Timers and files\<close>

definition rt_timer :: "uv_env \<Rightarrow> 64 word \<Rightarrow> addr \<Rightarrow> runtime \<Rightarrow> fault + (addr \<times> runtime)" where
  "rt_timer env ms cq s =
     fill_submit env (\<lambda>tk. tk\<lparr>t_timeout_ms := ms\<rparr>) (new_task env Timer cq s)"

definition rt_fs_open ::
  "uv_env \<Rightarrow> string \<Rightarrow> int \<Rightarrow> int \<Rightarrow> addr \<Rightarrow> runtime \<Rightarrow> fault + (addr \<times> runtime)" where
  "rt_fs_open env path flags mode cq s =
     fill_submit env (\<lambda>tk. tk\<lparr>t_path := path, t_flags := flags, t_mode := mode\<rparr>)
       (new_task env FsOpen cq s)"

definition rt_fs_read ::
  "uv_env \<Rightarrow> int \<Rightarrow> 32 word \<Rightarrow> int \<Rightarrow> addr \<Rightarrow> runtime \<Rightarrow> fault + (addr \<times> runtime)" where
  "rt_fs_read env fd nbytes offset cq s =
     fill_submit env (\<lambda>tk. tk\<lparr>t_fd := fd, t_nbytes := nbytes, t_offset := offset,
         t_buffer := replicate (unat nbytes) 0\<rparr>)
       (new_task env FsRead cq s)"

definition rt_fs_write ::
  "uv_env \<Rightarrow> int \<Rightarrow> byte list \<Rightarrow> 32 word \<Rightarrow> 32 word \<Rightarrow> int \<Rightarrow> addr \<Rightarrow> runtime
     \<Rightarrow> fault + (addr \<times> runtime)" where
  "rt_fs_write env fd src start nbytes offset cq s =
     sbind (copy_in src start nbytes) (\<lambda>bytes.
       fill_submit env (\<lambda>tk. tk\<lparr>t_fd := fd, t_nbytes := nbytes, t_offset := offset,
           t_buffer := bytes\<rparr>)
         (new_task env FsWrite cq s))"

definition rt_fs_close :: "uv_env \<Rightarrow> int \<Rightarrow> addr \<Rightarrow> runtime \<Rightarrow> fault + (addr \<times> runtime)" where
  "rt_fs_close env fd cq s =
     fill_submit env (\<lambda>tk. tk\<lparr>t_fd := fd\<rparr>) (new_task env FsClose cq s)"

definition rt_fs_stat :: "uv_env \<Rightarrow> string \<Rightarrow> addr \<Rightarrow> runtime \<Rightarrow> fault + (addr \<times> runtime)" where
  "rt_fs_stat env path cq s =
     fill_submit env (\<lambda>tk. tk\<lparr>t_path := path\<rparr>) (new_task env FsStat cq s)"

definition rt_fs_mkdir ::
  "uv_env \<Rightarrow> string \<Rightarrow> int \<Rightarrow> addr \<Rightarrow> runtime \<Rightarrow> fault + (addr \<times> runtime)" where
  "rt_fs_mkdir env path mode cq s =
     fill_submit env (\<lambda>tk. tk\<lparr>t_path := path, t_mode := mode\<rparr>) (new_task env FsMkdir cq s)"

definition rt_fs_rmdir :: "uv_env \<Rightarrow> string \<Rightarrow> addr \<Rightarrow> runtime \<Rightarrow> fault + (addr \<times> runtime)" where
  "rt_fs_rmdir env path cq s =
     fill_submit env (\<lambda>tk. tk\<lparr>t_path := path\<rparr>) (new_task env FsRmdir cq s)"

definition rt_fs_unlink :: "uv_env \<Rightarrow> string \<Rightarrow> addr \<Rightarrow> runtime \<Rightarrow> fault + (addr \<times> runtime)" where
  "rt_fs_unlink env path cq s =
     fill_submit env (\<lambda>tk. tk\<lparr>t_path := path\<rparr>) (new_task env FsUnlink cq s)"

definition rt_fs_rename ::
  "uv_env \<Rightarrow> string \<Rightarrow> string \<Rightarrow> addr \<Rightarrow> runtime \<Rightarrow> fault + (addr \<times> runtime)" where
  "rt_fs_rename env path new_path cq s =
     fill_submit env (\<lambda>tk. tk\<lparr>t_path := path, t_new_path := new_path\<rparr>)
       (new_task env FsRename cq s)"

definition rt_fs_realpath :: "uv_env \<Rightarrow> string \<Rightarrow> addr \<Rightarrow> runtime \<Rightarrow> fault + (addr \<times> runtime)" where
  "rt_fs_realpath env path cq s =
     fill_submit env (\<lambda>tk. tk\<lparr>t_path := path\<rparr>) (new_task env FsRealpath cq s)"

definition rt_fs_scandir :: "uv_env \<Rightarrow> string \<Rightarrow> addr \<Rightarrow> runtime \<Rightarrow> fault + (addr \<times> runtime)" where
  "rt_fs_scandir env path cq s =
     fill_submit env (\<lambda>tk. tk\<lparr>t_path := path\<rparr>) (new_task env FsScandir cq s)"

section \<open>Sockets and streams\<close>

definition rt_tcp_connect ::
  "uv_env \<Rightarrow> string \<Rightarrow> int \<Rightarrow> addr \<Rightarrow> runtime \<Rightarrow> fault + (addr \<times> runtime)" where
  "rt_tcp_connect env host port cq s =
     fill_submit env (\<lambda>tk. tk\<lparr>t_path := host, t_port := port\<rparr>) (new_task env TcpConnect cq s)"

definition rt_tcp_listen ::
  "uv_env \<Rightarrow> string \<Rightarrow> int \<Rightarrow> int \<Rightarrow> addr \<Rightarrow> runtime \<Rightarrow> fault + (addr \<times> runtime)" where
  "rt_tcp_listen env host port backlog cq s =
     fill_submit env (\<lambda>tk. tk\<lparr>t_path := host, t_port := port, t_backlog := backlog\<rparr>)
       (new_task env TcpListen cq s)"

definition rt_tcp_accept :: "uv_env \<Rightarrow> addr \<Rightarrow> addr \<Rightarrow> runtime \<Rightarrow> fault + (addr \<times> runtime)" where
  "rt_tcp_accept env listener cq s = SubmitListenerOp env TcpAccept listener cq s"

definition rt_stream_read ::
  "uv_env \<Rightarrow> addr \<Rightarrow> 32 word \<Rightarrow> addr \<Rightarrow> runtime \<Rightarrow> fault + (addr \<times> runtime)" where
  "rt_stream_read env stream maxlen cq s =
     fill_submit env (\<lambda>tk. tk\<lparr>t_stream := stream, t_nbytes := maxlen,
         t_buffer := replicate (unat maxlen) 0\<rparr>)
       (new_task env StreamRead cq s)"

definition rt_stream_write ::
  "uv_env \<Rightarrow> addr \<Rightarrow> byte list \<Rightarrow> 32 word \<Rightarrow> 32 word \<Rightarrow> addr \<Rightarrow> runtime
     \<Rightarrow> fault + (addr \<times> runtime)" where
  "rt_stream_write env stream src start nbytes cq s =
     sbind (copy_in src start nbytes) (\<lambda>bytes.
       fill_submit env (\<lambda>tk. tk\<lparr>t_stream := stream, t_nbytes := nbytes, t_buffer := bytes\<rparr>)
         (new_task env StreamWrite cq s))"

definition rt_stream_close :: "uv_env \<Rightarrow> addr \<Rightarrow> addr \<Rightarrow> runtime \<Rightarrow> fault + (addr \<times> runtime)" where
  "rt_stream_close env stream cq s = SubmitStreamOp env StreamClose stream cq s"

definition rt_listener_close :: "uv_env \<Rightarrow> addr \<Rightarrow> addr \<Rightarrow> runtime \<Rightarrow> fault + (addr \<times> runtime)" where
  "rt_listener_close env listener cq s = SubmitListenerOp env ListenerClose listener cq s"

definition rt_dns_resolve ::
  "uv_env \<Rightarrow> string \<Rightarrow> string option \<Rightarrow> int \<Rightarrow> addr \<Rightarrow> runtime \<Rightarrow> fault + (addr \<times> runtime)" where
  "rt_dns_resolve env host service family cq s =
     fill_submit env (\<lambda>tk. tk\<lparr>t_path := host,
         t_service := (case service of None \<Rightarrow> [] | Some v \<Rightarrow> v), t_family := family\<rparr>)
       (new_task env DnsResolve cq s)"

section \<open>Processes\<close>

definition rt_spawn ::
  "uv_env \<Rightarrow> byte list \<Rightarrow> 32 word \<Rightarrow> int \<Rightarrow> byte list \<Rightarrow> 32 word \<Rightarrow> int \<Rightarrow> string \<Rightarrow> int \<Rightarrow> addr
     \<Rightarrow> runtime \<Rightarrow> fault + (addr \<times> runtime)" where
  "rt_spawn env argbuf arglen argc envbuf envlen envc cwd stdio_mode cq s =
     sbind (copy_in argbuf 0 arglen) (\<lambda>args.
     sbind (if envc \<ge> 0 then copy_in envbuf 0 envlen else Inr []) (\<lambda>envs.
       fill_submit env (\<lambda>tk. tk\<lparr>t_argc := argc, t_buffer := args, t_envc := envc,
           t_env_buf := envs, t_cwd := cwd, t_stdio_mode := stdio_mode\<rparr>)
         (new_task env ProcSpawn cq s)))"

definition rt_proc_stdin :: "addr \<Rightarrow> runtime \<Rightarrow> fault + addr" where
  "rt_proc_stdin p s = sbind (deref (h_processes s) p) (\<lambda>po. Inr (p_stdin_s po))"

definition rt_proc_stdout :: "addr \<Rightarrow> runtime \<Rightarrow> fault + addr" where
  "rt_proc_stdout p s = sbind (deref (h_processes s) p) (\<lambda>po. Inr (p_stdout_s po))"

definition rt_proc_stderr :: "addr \<Rightarrow> runtime \<Rightarrow> fault + addr" where
  "rt_proc_stderr p s = sbind (deref (h_processes s) p) (\<lambda>po. Inr (p_stderr_s po))"

definition rt_proc_wait :: "uv_env \<Rightarrow> addr \<Rightarrow> addr \<Rightarrow> runtime \<Rightarrow> fault + (addr \<times> runtime)" where
  "rt_proc_wait env process cq s = SubmitProcessOp env ProcWait process cq s"

definition rt_proc_kill ::
  "uv_env \<Rightarrow> addr \<Rightarrow> int \<Rightarrow> addr \<Rightarrow> runtime \<Rightarrow> fault + (addr \<times> runtime)" where
  "rt_proc_kill env process signum cq s =
     fill_submit env (\<lambda>tk. tk\<lparr>t_process := process, t_signum := signum\<rparr>)
       (new_task env ProcKill cq s)"

definition rt_proc_close :: "uv_env \<Rightarrow> addr \<Rightarrow> addr \<Rightarrow> runtime \<Rightarrow> fault + (addr \<times> runtime)" where
  "rt_proc_close env process cq s = SubmitProcessOp env ProcClose process cq s"

section \<open>Pinned variants\<close>

definition rt_fs_read_pinned ::
  "uv_env \<Rightarrow> int \<Rightarrow> addr \<Rightarrow> 32 word \<Rightarrow> 32 word \<Rightarrow> int \<Rightarrow> addr \<Rightarrow> runtime \<Rightarrow> fault + (addr \<times> runtime)" where
  "rt_fs_read_pinned env fd bytevector start nbytes offset cq s =
     fill_submit env (\<lambda>tk. tk\<lparr>t_fd := fd, t_offset := offset\<rparr>)
       (new_pinned_task env FsRead cq bytevector start nbytes s)"

definition rt_fs_write_pinned ::
  "uv_env \<Rightarrow> int \<Rightarrow> addr \<Rightarrow> 32 word \<Rightarrow> 32 word \<Rightarrow> int \<Rightarrow> addr \<Rightarrow> runtime \<Rightarrow> fault + (addr \<times> runtime)" where
  "rt_fs_write_pinned env fd bytevector start nbytes offset cq s =
     fill_submit env (\<lambda>tk. tk\<lparr>t_fd := fd, t_offset := offset\<rparr>)
       (new_pinned_task env FsWrite cq bytevector start nbytes s)"

definition rt_stream_read_pinned ::
  "uv_env \<Rightarrow> addr \<Rightarrow> addr \<Rightarrow> 32 word \<Rightarrow> 32 word \<Rightarrow> addr \<Rightarrow> runtime \<Rightarrow> fault + (addr \<times> runtime)" where
  "rt_stream_read_pinned env stream bytevector start nbytes cq s =
     fill_submit env (\<lambda>tk. tk\<lparr>t_stream := stream\<rparr>)
       (new_pinned_task env StreamRead cq bytevector start nbytes s)"

definition rt_stream_write_pinned ::
  "uv_env \<Rightarrow> addr \<Rightarrow> addr \<Rightarrow> 32 word \<Rightarrow> 32 word \<Rightarrow> addr \<Rightarrow> runtime \<Rightarrow> fault + (addr \<times> runtime)" where
  "rt_stream_write_pinned env stream bytevector start nbytes cq s =
     fill_submit env (\<lambda>tk. tk\<lparr>t_stream := stream\<rparr>)
       (new_pinned_task env StreamWrite cq bytevector start nbytes s)"

text \<open>The bytes libuv has queued for writing on a handle are libuv's own (\<open>queued\<close>).\<close>

definition rt_stream_write_queue_size :: "(addr \<Rightarrow> 64 word) \<Rightarrow> addr \<Rightarrow> runtime \<Rightarrow> fault + 64 word" where
  "rt_stream_write_queue_size queued stream s = sbind (deref (h_streams s) stream) (\<lambda>st. Inr (queued stream))"

section \<open>Standard descriptors and watchers\<close>

definition rt_stdio_open :: "uv_env \<Rightarrow> int \<Rightarrow> addr \<Rightarrow> runtime \<Rightarrow> fault + (addr \<times> runtime)" where
  "rt_stdio_open env fd cq s =
     fill_submit env (\<lambda>tk. tk\<lparr>t_fd := fd\<rparr>) (new_task env StdioOpen cq s)"

definition rt_fs_watch :: "uv_env \<Rightarrow> string \<Rightarrow> addr \<Rightarrow> runtime \<Rightarrow> fault + (addr \<times> runtime)" where
  "rt_fs_watch env path cq s =
     fill_submit env (\<lambda>tk. tk\<lparr>t_path := path\<rparr>) (new_task env FsWatchOpen cq s)"

definition rt_fs_watch_next :: "uv_env \<Rightarrow> addr \<Rightarrow> addr \<Rightarrow> runtime \<Rightarrow> fault + (addr \<times> runtime)" where
  "rt_fs_watch_next env watcher cq s = SubmitWatcherOp env FsWatchNext watcher cq s"

definition rt_fs_watch_close :: "uv_env \<Rightarrow> addr \<Rightarrow> addr \<Rightarrow> runtime \<Rightarrow> fault + (addr \<times> runtime)" where
  "rt_fs_watch_close env watcher cq s = SubmitWatcherOp env FsWatchClose watcher cq s"

section \<open>Results\<close>

text \<open>\<open>None\<close>: the caller is still blocked.\<close>

definition rt_await :: "addr \<Rightarrow> runtime \<Rightarrow> fault + int option" where
  "rt_await t s = sbind (Wait t s) (\<lambda>w.
     case w of None \<Rightarrow> Inr None
     | Some _ \<Rightarrow> sbind (deref (h_tasks s) t) (\<lambda>tk. Inr (Some (t_result tk))))"

definition rt_task_result :: "addr \<Rightarrow> runtime \<Rightarrow> fault + int" where
  "rt_task_result t s = sbind (deref (h_tasks s) t) (\<lambda>tk. Inr (t_result tk))"

text \<open>The memory behind \<open>dst\<close> after the copy.\<close>

definition rt_read_into :: "addr \<Rightarrow> byte list \<Rightarrow> 32 word \<Rightarrow> runtime \<Rightarrow> fault + byte list" where
  "rt_read_into t dst start s = sbind (deref (h_tasks s) t) (\<lambda>tk.
     if t_result tk > 0 then
       (let n = nat (t_result tk); o' = unat start
        in if n \<le> length (t_buffer tk) \<and> o' + n \<le> length dst
           then Inr (take o' dst @ take n (t_buffer tk) @ drop (o' + n) dst)
           else Inl BufferOverrun)
     else Inr dst)"

definition S_IFMT :: "64 word" where "S_IFMT = 0xF000"
definition S_IFDIR :: "64 word" where "S_IFDIR = 0x4000"
definition S_IFREG :: "64 word" where "S_IFREG = 0x8000"

definition rt_stat_size :: "addr \<Rightarrow> runtime \<Rightarrow> fault + 64 word" where
  "rt_stat_size t s = sbind (deref (h_tasks s) t) (\<lambda>tk. Inr (st_size (t_statbuf tk)))"

definition rt_stat_mtime :: "addr \<Rightarrow> runtime \<Rightarrow> fault + 64 word" where
  "rt_stat_mtime t s = sbind (deref (h_tasks s) t) (\<lambda>tk.
     Inr (word_of_int (st_mtim_sec (t_statbuf tk))))"

definition rt_stat_mode :: "addr \<Rightarrow> runtime \<Rightarrow> fault + 32 word" where
  "rt_stat_mode t s = sbind (deref (h_tasks s) t) (\<lambda>tk. Inr (ucast (st_mode (t_statbuf tk))))"

definition rt_stat_is_dir :: "addr \<Rightarrow> runtime \<Rightarrow> fault + int" where
  "rt_stat_is_dir t s = sbind (deref (h_tasks s) t) (\<lambda>tk.
     Inr (if and (st_mode (t_statbuf tk)) S_IFMT = S_IFDIR then 1 else 0))"

definition rt_stat_is_file :: "addr \<Rightarrow> runtime \<Rightarrow> fault + int" where
  "rt_stat_is_file t s = sbind (deref (h_tasks s) t) (\<lambda>tk.
     Inr (if and (st_mode (t_statbuf tk)) S_IFMT = S_IFREG then 1 else 0))"

definition rt_scandir_count :: "addr \<Rightarrow> runtime \<Rightarrow> fault + int" where
  "rt_scandir_count t s = sbind (deref (h_tasks s) t) (\<lambda>tk.
     Inr (sint (word_of_nat (length (t_names tk)) :: 32 word)))"

definition rt_scandir_name :: "addr \<Rightarrow> int \<Rightarrow> runtime \<Rightarrow> fault + string" where
  "rt_scandir_name t index s = sbind (deref (h_tasks s) t) (\<lambda>tk.
     Inr (if index < 0 \<or> nat index \<ge> length (t_names tk) then []
          else t_names tk ! nat index))"

definition rt_str_result :: "addr \<Rightarrow> runtime \<Rightarrow> fault + string" where
  "rt_str_result t s = sbind (deref (h_tasks s) t) (\<lambda>tk. Inr (t_str_out tk))"

definition rt_task_free :: "addr \<Rightarrow> runtime \<Rightarrow> fault + runtime" where
  "rt_task_free t s = sbind (deref (h_tasks s) t) (\<lambda>tk.
     let s1 = (if t_pinned_obj tk \<noteq> nullptr
               then s\<lparr>locked := locked s - {#t_pinned_obj tk#}\<rparr> else s)
     in Inr (Counted_dtor CTask (s1\<lparr>h_tasks := (h_tasks s1)(t := None)\<rparr>)))"

section \<open>Completion queues and counters\<close>

definition rt_cq_create :: "uv_env \<Rightarrow> runtime \<Rightarrow> addr \<times> runtime" where
  "rt_cq_create env s = (new_addr env 0,
     Counted_ctor CCompletionQueue (s\<lparr>h_cqs := (h_cqs s)(new_addr env 0 \<mapsto> CompletionQueue_ctor)\<rparr>))"

definition rt_cq_free :: "addr \<Rightarrow> runtime \<Rightarrow> fault + runtime" where
  "rt_cq_free cq s = Release cq s"

definition rt_cq_wait :: "addr \<Rightarrow> runtime \<Rightarrow> fault + (addr option \<times> runtime)" where
  "rt_cq_wait cq s = WaitOne cq s"

definition rt_cq_try_pop :: "addr \<Rightarrow> runtime \<Rightarrow> fault + (addr \<times> runtime)" where
  "rt_cq_try_pop cq s = TryPop cq s"

definition rt_debug_live_tasks :: "runtime \<Rightarrow> int" where
  "rt_debug_live_tasks s = live s CTask"
definition rt_debug_live_cqs :: "runtime \<Rightarrow> int" where
  "rt_debug_live_cqs s = live s CCompletionQueue"
definition rt_debug_live_streams :: "runtime \<Rightarrow> int" where
  "rt_debug_live_streams s = live s CStream"
definition rt_debug_live_listeners :: "runtime \<Rightarrow> int" where
  "rt_debug_live_listeners s = live s CListener"
definition rt_debug_live_processes :: "runtime \<Rightarrow> int" where
  "rt_debug_live_processes s = live s CProcess"
definition rt_debug_live_watchers :: "runtime \<Rightarrow> int" where
  "rt_debug_live_watchers s = live s CWatcher"

text \<open>The two error texts are those of libuv.\<close>

definition rt_err_name :: "(int \<Rightarrow> string) \<Rightarrow> int \<Rightarrow> string" where
  "rt_err_name uv_err_name err = uv_err_name err"

definition rt_err_str :: "(int \<Rightarrow> string) \<Rightarrow> int \<Rightarrow> string" where
  "rt_err_str uv_strerror err = uv_strerror err"

section \<open>Packing argument vectors (io-proc.ss)\<close>

definition bytevector_copy :: "byte list \<Rightarrow> byte list \<Rightarrow> nat \<Rightarrow> byte list" where
  "bytevector_copy src out off = take off out @ src @ drop (off + length src) out"

fun pack_loop :: "byte list list \<Rightarrow> byte list \<Rightarrow> nat \<Rightarrow> byte list" where
  "pack_loop [] out off = out"
| "pack_loop (p # ps) out off =
     pack_loop ps ((bytevector_copy p out off)[off + length p := 0]) (off + length p + 1)"

definition pack_strings :: "byte list list \<Rightarrow> byte list" where
  "pack_strings parts =
     (let total = fold (\<lambda>p a. a + length p + 1) parts 0
      in pack_loop parts (replicate (max total 1) 0) 0)"

end
