(* ===== verification/Discipline.thy ===== *)
theory Discipline
  imports Ffi
begin

text \<open>
  The state invariant of the handles (\<open>struct_inv\<close>) and the discipline a client of the
  C ABI keeps (\<open>ready\<close>, \<open>conflict\<close>): a handle is used only after it was handed out and
  before it is closed, one wait per process, and no wait pending when it is closed.

  Streams that no client has been given yet (waiting in a listener's backlog, or still
  connecting) are \<open>internal\<close>: each sits in one place, is open and has no reader.
\<close>

section \<open>Definitions\<close>

fun req_stream :: "uv_req \<Rightarrow> addr list" where
  "req_stream (ConnectReq t x) = [x]"
| "req_stream _ = []"

definition internal_of :: "(addr \<rightharpoonup> listener_obj) \<Rightarrow> uv_req list \<Rightarrow> addr multiset" where
  "internal_of hl pend = msum (\<lambda>lo. mset (l_accepted lo)) hl + mset (concat (map req_stream pend))"

definition internal_ok :: "(addr \<rightharpoonup> stream_obj) \<Rightarrow> (addr \<rightharpoonup> listener_obj) \<Rightarrow> uv_req list \<Rightarrow> bool" where
  "internal_ok hs hl pend \<longleftrightarrow> (\<forall>x. count (internal_of hl pend) x \<le> 1)
     \<and> (\<forall>x \<in># internal_of hl pend.
          \<exists>st. hs x = Some st \<and> \<not> uv_closing st \<and> s_read_queue st = [])"

text \<open>
  A connection request belongs to the stream its task names; a file read targets the
  buffer of its task.
\<close>

fun req_good :: "(addr \<rightharpoonup> task) \<Rightarrow> uv_req \<Rightarrow> bool" where
  "req_good ht (ConnectReq t x) = (case ht t of None \<Rightarrow> False | Some tk \<Rightarrow> t_stream tk = x)"
| "req_good ht (FsReq t (UvFsRead fd buf n off)) = (case ht t of None \<Rightarrow> False
     | Some tk \<Rightarrow> t_op tk = FsRead \<and> buf = task_data t tk \<and> n = t_nbytes tk)"
| "req_good ht _ = True"

definition reqs_ok :: "(addr \<rightharpoonup> task) \<Rightarrow> uv_req list \<Rightarrow> bool" where
  "reqs_ok ht pend \<longleftrightarrow> (\<forall>q \<in> set pend. req_good ht q)"

text \<open>A task that owns its buffer has room for the bytes it moves.\<close>

definition bufs_ok :: "(addr \<rightharpoonup> task) \<Rightarrow> bool" where
  "bufs_ok ht \<longleftrightarrow> (\<forall>t tk. ht t = Some tk \<longrightarrow> t_ext_data tk = nullptr
     \<longrightarrow> unat (t_nbytes tk) \<le> length (t_buffer tk))"

definition struct_inv :: "runtime \<Rightarrow> bool" where
  "struct_inv s \<longleftrightarrow> reads_ok (h_streams s) (reading_streams s) \<and> close_slots_ok (h_streams s)
     \<and> listeners_ok (h_listeners s) (listeners s) \<and> processes_ok (h_processes s)
     \<and> watchers_ok (h_watchers s) \<and> internal_ok (h_streams s) (h_listeners s) (uv_pending s)
     \<and> reqs_ok (h_tasks s) (uv_pending s)"

definition client_stream :: "runtime \<Rightarrow> addr \<Rightarrow> bool" where
  "client_stream s x \<longleftrightarrow> open_in (h_streams s) x
     \<and> x \<notin># internal_of (h_listeners s) (uv_pending s)"

text \<open>A running process nobody waits for.\<close>

definition unwaited :: "runtime \<Rightarrow> addr \<Rightarrow> bool" where
  "unwaited s p \<longleftrightarrow> (\<exists>po. h_processes s p = Some po \<and> \<not> uv_closing po \<and> p_wait_task po = nullptr)"

text \<open>The argument and environment blocks hold as many strings as announced.\<close>

definition packed_ok :: "task \<Rightarrow> bool" where
  "packed_ok tk \<longleftrightarrow> (\<exists>argv. UnpackStrings (t_buffer tk) (t_argc tk) = Inr argv)
     \<and> (t_envc tk \<ge> 0 \<longrightarrow> (\<exists>envp. UnpackStrings (t_env_buf tk) (t_envc tk) = Inr envp))"

text \<open>What a task needs when it is dispatched.\<close>

definition ready :: "runtime \<Rightarrow> task \<Rightarrow> bool" where
  "ready s tk = (case t_op tk of
       StreamRead \<Rightarrow> client_stream s (t_stream tk)
     | StreamWrite \<Rightarrow> client_stream s (t_stream tk)
     | StreamClose \<Rightarrow> client_stream s (t_stream tk)
     | TcpAccept \<Rightarrow> open_in (h_listeners s) (t_listener tk)
     | ProcSpawn \<Rightarrow> packed_ok tk
     | ProcWait \<Rightarrow> unwaited s (t_process tk)
     | ProcKill \<Rightarrow> open_in (h_processes s) (t_process tk)
     | ProcClose \<Rightarrow> unwaited s (t_process tk)
     | FsWatchNext \<Rightarrow> open_in (h_watchers s) (t_watcher tk)
     | FsWatchClose \<Rightarrow> open_in (h_watchers s) (t_watcher tk)
     | _ \<Rightarrow> True)"

text \<open>
  What may not be submitted after what: nothing on a handle after its close, and no wait
  and no close on a process after a wait on it.
\<close>

definition conflict :: "task \<Rightarrow> task \<Rightarrow> bool" where
  "conflict tk tk' \<longleftrightarrow> (case t_op tk of
       StreamClose \<Rightarrow> t_op tk' \<in> {StreamRead, StreamWrite, StreamClose} \<and> t_stream tk' = t_stream tk
     | ListenerClose \<Rightarrow> t_op tk' = TcpAccept \<and> t_listener tk' = t_listener tk
     | ProcClose \<Rightarrow> t_op tk' \<in> {ProcWait, ProcKill, ProcClose} \<and> t_process tk' = t_process tk
     | ProcWait \<Rightarrow> t_op tk' \<in> {ProcWait, ProcClose} \<and> t_process tk' = t_process tk
     | FsWatchClose \<Rightarrow> t_op tk' \<in> {FsWatchNext, FsWatchClose} \<and> t_watcher tk' = t_watcher tk
     | _ \<Rightarrow> False)"

definition task_of :: "runtime \<Rightarrow> addr \<Rightarrow> task" where
  "task_of s t = the (h_tasks s t)"

definition batch_ok :: "addr list \<Rightarrow> runtime \<Rightarrow> bool" where
  "batch_ok ts s \<longleftrightarrow> (\<forall>t \<in> set ts. ready s (task_of s t))
     \<and> sorted_wrt (\<lambda>a b. \<not> conflict (task_of s a) (task_of s b)) ts"

text \<open>
  What libuv and the allocator promise at a call: new objects get distinct unused addresses, a
  set is iterated over its elements, the address parsers return zero or an error; and
  \<open>init_ok\<close>, which the code relies on when it opens a standard descriptor. Any result of any
  other call, a refused file request included, may happen.
\<close>

definition addr_used :: "runtime \<Rightarrow> addr \<Rightarrow> bool" where
  "addr_used s a \<longleftrightarrow> a = nullptr \<or> a \<in> dom (h_streams s)
     \<or> a \<in> dom (h_listeners s) \<or> a \<in> dom (h_processes s) \<or> a \<in> dom (h_watchers s)"

text \<open>No call allocates more than four objects (a process and three pipes).\<close>

definition new_addrs :: "uv_env \<Rightarrow> addr list" where
  "new_addrs env = [new_addr env 0, new_addr env 1, new_addr env 2, new_addr env 3]"

definition env_ok :: "uv_env \<Rightarrow> bool" where
  "env_ok env \<longleftrightarrow> distinct (new_addrs env)
     \<and> (\<forall>xs. mset (iter_order env xs) = mset xs)
     \<and> (\<forall>host port. fst (uv_ip4_addr env host port) \<le> 0 \<and> fst (uv_ip6_addr env host port) \<le> 0)
     \<and> init_ok env"

definition fresh :: "uv_env \<Rightarrow> runtime \<Rightarrow> bool" where
  "fresh env s \<longleftrightarrow> (\<forall>a \<in> set (new_addrs env). \<not> addr_used s a)"

text \<open>
  What one operation leaves alone: it uses up only its own addresses, touches no task but
  \<open>t\<close> (other than completing it) and not the shape of that one, leaves the completed tasks
  exactly as they are (\<open>done_kept\<close>), keeps every handle of the
  client's in use except the one it closes or waits for, and keeps the control state.
\<close>

definition shape :: "task \<Rightarrow> Op \<times> addr \<times> 32 word \<times> nat" where
  "shape tk = (t_op tk, t_ext_data tk, t_nbytes tk, length (t_buffer tk))"

definition done_kept :: "(addr \<rightharpoonup> task) \<Rightarrow> (addr \<rightharpoonup> task) \<Rightarrow> bool" where
  "done_kept m m' \<longleftrightarrow> (\<forall>t tk. m t = Some tk \<longrightarrow> t_done tk \<longrightarrow> m' t = Some tk)"

definition tasks_frame :: "addr \<Rightarrow> runtime \<Rightarrow> runtime \<Rightarrow> bool" where
  "tasks_frame t s s' \<longleftrightarrow> (\<forall>t'. t' \<noteq> t \<longrightarrow> h_tasks s' t' = h_tasks s t'
     \<or> (\<exists>r. h_tasks s' t' = map_option (completed r) (h_tasks s t')))
     \<and> map_option shape (h_tasks s' t) = map_option shape (h_tasks s t)
     \<and> done_kept (h_tasks s) (h_tasks s')"

definition keeps_handles :: "task \<Rightarrow> runtime \<Rightarrow> runtime \<Rightarrow> bool" where
  "keeps_handles tk s s' \<longleftrightarrow>
     (\<forall>x. client_stream s x \<longrightarrow> \<not> (t_op tk = StreamClose \<and> t_stream tk = x) \<longrightarrow> client_stream s' x)
   \<and> (\<forall>l. open_in (h_listeners s) l \<longrightarrow> \<not> (t_op tk = ListenerClose \<and> t_listener tk = l)
        \<longrightarrow> open_in (h_listeners s') l)
   \<and> (\<forall>p. open_in (h_processes s) p \<longrightarrow> \<not> (t_op tk = ProcClose \<and> t_process tk = p)
        \<longrightarrow> open_in (h_processes s') p)
   \<and> (\<forall>p. unwaited s p \<longrightarrow> \<not> (t_op tk \<in> {ProcWait, ProcClose} \<and> t_process tk = p) \<longrightarrow> unwaited s' p)
   \<and> (\<forall>w. open_in (h_watchers s) w \<longrightarrow> \<not> (t_op tk = FsWatchClose \<and> t_watcher tk = w)
        \<longrightarrow> open_in (h_watchers s') w)"

definition same_control :: "runtime \<Rightarrow> runtime \<Rightarrow> bool" where
  "same_control s s' \<longleftrightarrow>
     locked s' = locked s \<and> queue s' = queue s \<and> running s' = running s \<and> stopping s' = stopping s
     \<and> exit_on_signal s' = exit_on_signal s \<and> async s' = async s
     \<and> async_sent s' = async_sent s \<and> sig_int s' = sig_int s \<and> sig_term s' = sig_term s
     \<and> shutdown_timer s' = shutdown_timer s \<and> shutdown_timer_due s' = shutdown_timer_due s
     \<and> shutdown_timer_started s' = shutdown_timer_started s \<and> shutdown_signum s' = shutdown_signum s
     \<and> shutdown_signaled s' = shutdown_signaled s \<and> shutdown_timeout_ms s' = shutdown_timeout_ms s
     \<and> exit_code s' = exit_code s"

definition uses_only :: "uv_env \<Rightarrow> runtime \<Rightarrow> runtime \<Rightarrow> bool" where
  "uses_only env s s' \<longleftrightarrow> (\<forall>a. addr_used s' a \<longrightarrow> addr_used s a \<or> a \<in> set (new_addrs env))"

text \<open>A file request is refused only in an environment that refuses one.\<close>

definition refused_frame :: "uv_env \<Rightarrow> runtime \<Rightarrow> runtime \<Rightarrow> bool" where
  "refused_frame env s s' \<longleftrightarrow> ((\<forall>call. 0 \<le> uv_fs env call) \<longrightarrow> uv_refused s' = uv_refused s)"

definition op_frame :: "uv_env \<Rightarrow> addr \<Rightarrow> task \<Rightarrow> runtime \<Rightarrow> runtime \<Rightarrow> bool" where
  "op_frame env t tk s s' \<longleftrightarrow> tasks_frame t s s' \<and> keeps_handles tk s s' \<and> same_control s s'
     \<and> uses_only env s s' \<and> refused_frame env s s'"

section \<open>Internal streams\<close>

lemma internal_ok_mono:
  assumes ok: "internal_ok hs hl pend" and sub: "internal_of hl' pend' \<subseteq># internal_of hl pend"
    and eq: "\<forall>x. x \<in># internal_of hl' pend' \<longrightarrow> hs' x = hs x"
  shows "internal_ok hs' hl' pend'"
proof -
  have "count (internal_of hl' pend') x \<le> 1" for x
    using ok sub le_trans by (fastforce simp: internal_ok_def subseteq_mset_def)
  then show ?thesis using ok sub eq mset_subset_eqD [OF sub] by (auto simp: internal_ok_def)
qed

lemma internal_ok_add:
  assumes ok: "internal_ok hs hl pend" and int: "internal_of hl' pend' = add_mset x (internal_of hl pend)"
    and x: "hs x = None"
  shows "internal_ok (hs(x \<mapsto> Stream_ctor)) hl' pend'"
proof -
  have n: "x \<notin># internal_of hl pend" using ok x by (auto simp: internal_ok_def)
  have "count (internal_of hl' pend') y \<le> 1" for y
    using ok n by (cases "y = x") (auto simp: internal_ok_def int not_in_iff)
  then show ?thesis using ok n by (auto simp: internal_ok_def int Stream_ctor_def)
qed

lemma internal_ok_open:
  assumes "internal_ok hs hl pend" and "x \<in># internal_of hl pend"
  obtains st where "hs x = Some st" and "\<not> uv_closing st" and "s_read_queue st = []"
  using assms by (auto simp: internal_ok_def)

lemma internal_of_listener:
  assumes "finite (dom hl)" and "hl l = Some lo"
  shows "mset (l_accepted lo) + internal_of (hl(l \<mapsto> lo')) pend
    = mset (l_accepted lo') + internal_of hl pend"
  using msum_upd [OF assms, of "\<lambda>lo. mset (l_accepted lo)" lo'] by (simp add: internal_of_def ac_simps)

lemma internal_of_new_listener:
  assumes "finite (dom hl)" and "hl l = None" and "l_accepted lo = []"
  shows "internal_of (hl(l \<mapsto> lo)) pend = internal_of hl pend"
  using msum_new [OF assms(1,2), of "\<lambda>lo. mset (l_accepted lo)" lo] assms(3) by (simp add: internal_of_def)

lemma internal_of_delete_listener:
  assumes "finite (dom hl)" and "hl l = Some lo" and "l_accepted lo = []"
  shows "internal_of (hl(l := None)) pend = internal_of hl pend"
  using msum_delete [OF assms(1,2), of "\<lambda>lo. mset (l_accepted lo)"] assms(3) by (simp add: internal_of_def)

lemma internal_of_append:
  "internal_of hl (pend @ rs) = internal_of hl pend + mset (concat (map req_stream rs))"
  by (simp add: internal_of_def)

lemma internal_of_request: "req_stream q = [] \<Longrightarrow> internal_of hl (pend @ [q]) = internal_of hl pend"
  by (simp add: internal_of_append)

lemma internal_of_remove1:
  assumes "q \<in> set pend"
  shows "internal_of hl pend = mset (req_stream q) + internal_of hl (remove1 q pend)"
proof -
  have "mset (concat (map req_stream pend)) = mset (req_stream q) + mset (concat (map req_stream (remove1 q pend)))"
    using assms by (induction pend) (auto simp: ac_simps)
  then show ?thesis by (simp add: internal_of_def ac_simps)
qed

lemma accepted_internal:
  assumes "finite (dom hl)" and "hl l = Some lo" and "x \<in> set (l_accepted lo)"
  shows "x \<in># internal_of hl pend"
  using member_msum [OF assms(1,2), of x "\<lambda>lo. mset (l_accepted lo)"] assms(3)
  by (simp add: internal_of_def)

lemma accepted_distinct:
  assumes fin: "finite (dom hl)" and l: "hl l = Some lo" and ok: "internal_ok hs hl pend"
  shows "distinct (l_accepted lo)"
proof -
  have "internal_of hl pend = mset (l_accepted lo) + internal_of (hl(l := None)) pend"
    using msum_split [OF fin l, of "\<lambda>lo. mset (l_accepted lo)"] by (simp add: internal_of_def ac_simps)
  then have "count (mset (l_accepted lo)) x \<le> 1" for x
    using ok by (metis (no_types, lifting) add_leD1 count_union internal_ok_def)
  then have "count (mset (l_accepted lo)) x = (if x \<in> set (l_accepted lo) then 1 else 0)" for x
    by (metis One_nat_def count_eq_zero_iff le_Suc_eq le_zero_eq set_mset_mset)
  then show ?thesis by (simp add: distinct_count_atmost_1)
qed

section \<open>Frames\<close>

lemma same_handles_control: "same_handles s s' \<Longrightarrow> same_control s s'"
  by (simp add: same_handles_def same_control_def)

lemma same_handles_refused: "same_handles s1 s' \<Longrightarrow> uv_refused s1 = uv_refused s \<Longrightarrow> refused_frame env s s'"
  by (simp add: same_handles_fields refused_frame_def)

lemma same_control_trans: "same_control s s1 \<Longrightarrow> same_control s1 s2 \<Longrightarrow> same_control s s2"
  by (simp add: same_control_def)

lemma same_control_simps [simp]:
  "same_control s s"
  "same_control (s\<lparr>h_streams := a\<rparr>) s' \<longleftrightarrow> same_control s s'"
  "same_control (s\<lparr>h_listeners := b\<rparr>) s' \<longleftrightarrow> same_control s s'"
  "same_control (s\<lparr>h_processes := c\<rparr>) s' \<longleftrightarrow> same_control s s'"
  "same_control (s\<lparr>h_watchers := d\<rparr>) s' \<longleftrightarrow> same_control s s'"
  "same_control (s\<lparr>uv_pending := e\<rparr>) s' \<longleftrightarrow> same_control s s'"
  "same_control (s\<lparr>listeners := f\<rparr>) s' \<longleftrightarrow> same_control s s'"
  "same_control (s\<lparr>reading_streams := g\<rparr>) s' \<longleftrightarrow> same_control s s'"
  by (simp_all add: same_control_def)

lemma shape_completed [simp]: "shape (completed r tk) = shape tk"
  by (simp add: shape_def)

lemma done_kept_refl [simp]: "done_kept m m"
  by (simp add: done_kept_def)

lemma done_kept_trans: "done_kept m m1 \<Longrightarrow> done_kept m1 m2 \<Longrightarrow> done_kept m m2"
  by (simp add: done_kept_def)

lemma done_kept_done: "set ps \<subseteq> undone m \<Longrightarrow> done_kept m (done_with ps r m)"
  by (auto simp: done_kept_def done_with_def undone_def)

lemma owned_undone: "core (add_mset t L) s \<Longrightarrow> set [t] \<subseteq> undone (h_tasks s)"
  using core_member_undone [of "add_mset t L" s t] by simp

lemma owned_not_done: "core (add_mset t L) s \<Longrightarrow> h_tasks s t = Some tk \<Longrightarrow> \<not> t_done tk"
  using owned_undone by (fastforce simp: undone_def)

lemma readers_undone: "core L s \<Longrightarrow> h_streams s x = Some st \<Longrightarrow> set (s_read_queue st) \<subseteq> undone (h_tasks s)"
  using stream_heap.share_undone by (fastforce simp: stream_held_def)

lemma acceptors_undone:
  "core L s \<Longrightarrow> h_listeners s l = Some lo \<Longrightarrow> set (l_pending_accepts lo) \<subseteq> undone (h_tasks s)"
  using listener_heap.share_undone by (fastforce simp: listener_held_def)

lemma waiter_undone:
  "core L s \<Longrightarrow> h_processes s p = Some po \<Longrightarrow> p_wait_task po \<noteq> nullptr \<Longrightarrow> set [p_wait_task po] \<subseteq> undone (h_tasks s)"
  using process_heap.share_undone by (fastforce simp: process_held_def)

lemma next_undone:
  "core L s \<Longrightarrow> h_watchers s w = Some wo \<Longrightarrow> w_pending_next wo \<noteq> nullptr \<Longrightarrow>
    set [w_pending_next wo] \<subseteq> undone (h_tasks s)"
  using watcher_heap.share_undone by (fastforce simp: watcher_held_def)

lemma tasks_frame_done:
  "h_tasks s' = done_with ps r (h_tasks s) \<Longrightarrow> set ps \<subseteq> undone (h_tasks s) \<Longrightarrow> tasks_frame t s s'"
  using done_kept_done by (auto simp: tasks_frame_def done_with_def option.map_comp o_def)

lemma tasks_frame_upd:
  "h_tasks s t = Some tk \<Longrightarrow> \<not> t_done tk \<Longrightarrow> shape tk' = shape tk \<Longrightarrow> h_tasks s' = (h_tasks s)(t \<mapsto> tk') \<Longrightarrow> tasks_frame t s s'"
  by (auto simp: tasks_frame_def done_kept_def)

lemma tasks_frame_refl: "h_tasks s' = h_tasks s \<Longrightarrow> tasks_frame t s s'"
  by (auto simp: tasks_frame_def)

lemma tasks_frame_cases:
  assumes "tasks_frame t s s'" and "t' \<noteq> t"
  obtains "h_tasks s' t' = h_tasks s t'" | r where "h_tasks s' t' = map_option (completed r) (h_tasks s t')"
  using assms by (auto simp: tasks_frame_def)

lemma task_data_completed [simp]: "task_data t (completed r tk) = task_data t tk"
  by (simp add: task_data_def)

lemma req_good_completed:
  assumes "req_good ht q" and "ht' (req_task q) = map_option (completed r) (ht (req_task q))"
  shows "req_good ht' q"
  using assms by (cases "(ht, q)" rule: req_good.cases) (auto split: option.splits)

lemma req_good_cong: "ht' (req_task q) = ht (req_task q) \<Longrightarrow> req_good ht' q = req_good ht q"
  by (cases "(ht, q)" rule: req_good.cases) auto

lemma reqs_ok_frame:
  assumes ok: "reqs_ok (h_tasks s) pend" and f: "tasks_frame t s s'"
    and t: "\<forall>q \<in> set pend. req_task q \<noteq> t"
  shows "reqs_ok (h_tasks s') pend"
  unfolding reqs_ok_def
proof
  fix q assume q: "q \<in> set pend"
  then have g: "req_good (h_tasks s) q" and n: "req_task q \<noteq> t" using ok t by (auto simp: reqs_ok_def)
  show "req_good (h_tasks s') q"
    by (rule tasks_frame_cases [OF f n]) (use g req_good_cong req_good_completed in blast)+
qed

lemma bufs_ok_shape:
  assumes ok: "bufs_ok ht" and e: "\<And>t. map_option shape (ht' t) = map_option shape (ht t)"
  shows "bufs_ok ht'"
  unfolding bufs_ok_def
proof (intro allI impI)
  fix t tk assume *: "ht' t = Some tk" "t_ext_data tk = nullptr"
  then obtain tk0 where "ht t = Some tk0" "shape tk = shape tk0" using e [of t] by (cases "ht t") auto
  then show "unat (t_nbytes tk) \<le> length (t_buffer tk)" using ok * by (auto simp: bufs_ok_def shape_def)
qed

lemma bufs_ok_frame:
  assumes "bufs_ok (h_tasks s)" and f: "tasks_frame t s s'"
  shows "bufs_ok (h_tasks s')"
proof (rule bufs_ok_shape [OF assms(1)])
  fix t'
  show "map_option shape (h_tasks s' t') = map_option shape (h_tasks s t')"
  proof (cases "t' = t")
    case True
    then show ?thesis using f by (simp add: tasks_frame_def)
  next
    case False
    from f this show ?thesis by (rule tasks_frame_cases) (simp_all add: option.map_comp o_def)
  qed
qed

text \<open>A task the loop thread holds has no request.\<close>

lemma held_pending: "q \<in> set (uv_pending s) \<Longrightarrow> req_task q \<in># held s"
  by (auto simp: held_def)

lemma local_no_request: "core (add_mset t L) s \<Longrightarrow> \<forall>q \<in> set (uv_pending s). req_task q \<noteq> t"
  using held_pending core_unique(1) by blast

lemma null_no_request: "core L s \<Longrightarrow> \<forall>q \<in> set (uv_pending s). req_task q \<noteq> nullptr"
  using held_pending core_nonnull by fastforce

lemma struct_invD:
  assumes "struct_inv s"
  shows "reads_ok (h_streams s) (reading_streams s)" "close_slots_ok (h_streams s)"
    "listeners_ok (h_listeners s) (listeners s)" "processes_ok (h_processes s)"
    "watchers_ok (h_watchers s)" "internal_ok (h_streams s) (h_listeners s) (uv_pending s)"
    "reqs_ok (h_tasks s) (uv_pending s)"
  using assms by (simp_all add: struct_inv_def)

lemma open_inI: "m a = Some h \<Longrightarrow> \<not> uv_closing h \<Longrightarrow> open_in m a"
  by (auto simp: open_in_def)

lemma open_in_upd:
  "open_in (m(a \<mapsto> h)) b \<longleftrightarrow> (if b = a then \<not> uv_closing h else open_in m b)"
  by (auto simp: open_in_def)

lemma close_slots_upd:
  "close_slots_ok m \<Longrightarrow> (\<not> uv_closing h \<Longrightarrow> close_task h = nullptr) \<Longrightarrow> close_slots_ok (m(a \<mapsto> h))"
  by (auto simp: close_slots_ok_def)

lemma close_slotsD: "close_slots_ok m \<Longrightarrow> m a = Some h \<Longrightarrow> \<not> uv_closing h \<Longrightarrow> close_task h = nullptr"
  by (auto simp: close_slots_ok_def)

end
