(* ===== verification/Dispatching.thy ===== *)
theory Dispatching
  imports Discipline
begin

text \<open>
  \<open>Dispatch\<close> under the client discipline: for every operation code, a task whose target
  is in use is dispatched without a fault, ownership and the handle invariant are kept,
  and the handles of other tasks stay usable. \<open>Drain\<close> follows by induction over the
  batch.
\<close>

section \<open>Definitions\<close>

definition dispatch_pre :: "uv_env \<Rightarrow> addr \<Rightarrow> task \<Rightarrow> addr multiset \<Rightarrow> runtime \<Rightarrow> bool" where
  "dispatch_pre env t tk L s \<longleftrightarrow> core (add_mset t L) s \<and> struct_inv s \<and> h_tasks s t = Some tk
     \<and> ready s tk \<and> env_ok env \<and> fresh env s"

definition goes_well :: "uv_env \<Rightarrow> addr \<Rightarrow> task \<Rightarrow> addr multiset \<Rightarrow> runtime \<Rightarrow> fault + runtime \<Rightarrow> bool" where
  "goes_well env t tk L s m \<longleftrightarrow> (\<exists>s'. m = Inr s' \<and> core L s' \<and> struct_inv s' \<and> op_frame env t tk s s')"

text \<open>Each dispatch of a batch gets its own unused addresses.\<close>

definition fresh_envs :: "(nat \<Rightarrow> uv_env) \<Rightarrow> nat \<Rightarrow> runtime \<Rightarrow> bool" where
  "fresh_envs envs n s \<longleftrightarrow> (\<forall>i < n. env_ok (envs i) \<and> fresh (envs i) s)
     \<and> (\<forall>i < n. \<forall>j < n. i \<noteq> j \<longrightarrow> set (new_addrs (envs i)) \<inter> set (new_addrs (envs j)) = {})"

text \<open>
  The lifecycle: the member handles the wind-down closes are initialised, and a wake-up
  is pending whenever there is something to drain.
\<close>

definition life_ok :: "runtime \<Rightarrow> bool" where
  "life_ok s \<longleftrightarrow>
     (async s = Active \<and> exit_on_signal s \<longrightarrow> sig_int s = Active \<and> sig_term s = Active)
   \<and> (shutdown_timer_started s \<longrightarrow> shutdown_timer s = Active \<and> shutdown_signaled s)
   \<and> (running s \<longrightarrow> async s = Active \<and> \<not> stopping s)
   \<and> (queue s \<noteq> [] \<longrightarrow> async s = Active \<and> async_sent s)
   \<and> (stopping s \<and> async s = Active \<longrightarrow> async_sent s)"

text \<open>What the frame rules need: the invariant, and that \<open>t\<close> is no connecting task.\<close>

definition base :: "addr \<Rightarrow> runtime \<Rightarrow> bool" where
  "base t s \<longleftrightarrow> struct_inv s \<and> (\<forall>q \<in> set (uv_pending s). req_task q \<noteq> t)"

section \<open>Frame rules\<close>

lemma dispatch_preD:
  assumes "dispatch_pre env t tk L s"
  shows "core (add_mset t L) s" "struct_inv s" "h_tasks s t = Some tk" "ready s tk" "env_ok env" "fresh env s"
  using assms by (simp_all add: dispatch_pre_def)

lemma baseD:
  assumes "base t s"
  shows "\<forall>q \<in> set (uv_pending s). req_task q \<noteq> t" "struct_inv s"
  using assms by (simp_all add: base_def)

lemma base_local: "core (add_mset t L) s \<Longrightarrow> struct_inv s \<Longrightarrow> base t s"
  using local_no_request by (simp add: base_def)

lemma base_null: "core L s \<Longrightarrow> struct_inv s \<Longrightarrow> base nullptr s"
  using null_no_request by (simp add: base_def)

lemma base_pre: "dispatch_pre env t tk L s \<Longrightarrow> base t s"
  using base_local dispatch_preD by blast

lemma fresh_addrs:
  assumes "fresh env s" and "a \<in> set (new_addrs env)"
  shows "h_streams s a = None" "h_listeners s a = None" "h_processes s a = None" "h_watchers s a = None"
    "a \<noteq> 0"
  using assms by (auto simp: fresh_def addr_used_def domIff)

lemma new_addrs_mem [simp]:
  "new_addr env 0 \<in> set (new_addrs env)" "new_addr env 1 \<in> set (new_addrs env)"
  "new_addr env 2 \<in> set (new_addrs env)" "new_addr env 3 \<in> set (new_addrs env)"
  "new_addr env (Suc 0) \<in> set (new_addrs env)"
  by (simp_all add: new_addrs_def)

lemma fresh_addr:
  assumes "fresh env s"
  shows "h_streams s (new_addr env 0) = None" "h_listeners s (new_addr env 0) = None"
    "h_processes s (new_addr env 0) = None" "h_watchers s (new_addr env 0) = None" "new_addr env 0 \<noteq> 0"
  using fresh_addrs [OF assms new_addrs_mem(1)] by simp_all

lemma goes_wellI:
  assumes "m = Inr s'" "core L s'" "struct_inv s'" "tasks_frame t s s'" "keeps_handles tk s s'"
    "same_control s s'" "uses_only env s s'" "refused_frame env s s'"
  shows "goes_well env t tk L s m"
  using assms by (auto simp: goes_well_def op_frame_def)

lemma keeps_handles_refl:
  "h_streams s' = h_streams s \<Longrightarrow> h_listeners s' = h_listeners s \<Longrightarrow> h_processes s' = h_processes s \<Longrightarrow>
   h_watchers s' = h_watchers s \<Longrightarrow>
   internal_of (h_listeners s') (uv_pending s') = internal_of (h_listeners s) (uv_pending s) \<Longrightarrow>
   keeps_handles tk s s'"
  by (simp add: keeps_handles_def client_stream_def unwaited_def)

lemma keeps_handles_streams:
  assumes "h_listeners s' = h_listeners s" "h_processes s' = h_processes s" "h_watchers s' = h_watchers s"
    and "\<And>x. client_stream s x \<Longrightarrow> \<not> (t_op tk = StreamClose \<and> t_stream tk = x) \<Longrightarrow> client_stream s' x"
  shows "keeps_handles tk s s'"
  using assms by (simp add: keeps_handles_def unwaited_def)

lemma uses_only_same:
  "h_streams s' = h_streams s \<Longrightarrow> h_listeners s' = h_listeners s \<Longrightarrow> h_processes s' = h_processes s \<Longrightarrow>
   h_watchers s' = h_watchers s \<Longrightarrow> uses_only env s s'"
  by (simp add: uses_only_def addr_used_def)

text \<open>An operation that completes its task, or turns it into a request that creates no stream.\<close>

lemma reqs_ok_append: "reqs_ok ht (pend @ rs) \<longleftrightarrow> reqs_ok ht pend \<and> reqs_ok ht rs"
  by (auto simp: reqs_ok_def)

lemma step_request:
  assumes pre: "base t s"
    and m: "m = Inr s'" "core L s'" "same_handles (s\<lparr>uv_pending := uv_pending s @ rs\<rparr>) s'"
    and rs: "concat (map req_stream rs) = []" "reqs_ok (h_tasks s') rs" and fr: "tasks_frame t s s'"
  shows "goes_well env t tk L s m"
proof (rule goes_wellI [OF m(1,2) _ fr])
  note p = baseD [OF pre]
  note f = same_handles_fields [OF m(3), simplified]
  have i: "internal_of (h_listeners s) (uv_pending s @ rs) = internal_of (h_listeners s) (uv_pending s)"
    using rs by (simp add: internal_of_append)
  have "reqs_ok (h_tasks s') (uv_pending s)"
    by (rule reqs_ok_frame [OF struct_invD(7) [OF p(2)] fr p(1)])
  then show "struct_inv s'"
    using struct_invD [OF p(2)] rs i by (simp add: struct_inv_def f reqs_ok_append internal_ok_def)
  show "keeps_handles tk s s'" by (rule keeps_handles_refl) (simp_all add: f i)
  show "same_control s s'" using same_handles_control [OF m(3)] by simp
  show "uses_only env s s'" by (rule uses_only_same) (simp_all add: f)
  show "refused_frame env s s'" using same_handles_refused [OF m(3)] by simp
qed

lemma step_complete:
  assumes pre: "base t s" and m: "m = Inr s'" "core L s'" "same_handles s s'"
    and fr: "tasks_frame t s s'"
  shows "goes_well env t tk L s m"
  by (rule step_request [OF pre m(1,2), of "[]"]) (use m(3) fr in \<open>simp_all add: reqs_ok_def\<close>)

section \<open>One-shot operations\<close>

lemma Timer_step:
  assumes pre: "dispatch_pre env t tk L s"
  shows "goes_well env t tk L s (Dispatch_Timer t s)"
proof -
  note p = dispatch_preD [OF pre]
  note q = uv_request_core [OF p(1), of "TimerReq t (t_timeout_ms tk)", simplified]
  show ?thesis
    by (rule step_request [OF base_pre [OF pre] _ q(1,2)])
      (use p(3) q(3) in \<open>simp_all add: Dispatch_Timer_def tasks_frame_refl reqs_ok_def\<close>)
qed

lemma fs_step:
  assumes pre: "dispatch_pre env t tk L s" and g: "req_good (h_tasks s) (FsReq t (call tk))"
  shows "goes_well env t tk L s (fs_start env t call s)"
proof (cases "uv_fs env (call tk) < 0")
  case True
  note p = dispatch_preD [OF pre]
  note l = fs_refused_lost [where call = call, OF p(1,3) True]
  note d = struct_invD [OF p(2)]
  show ?thesis
  proof (rule goes_wellI [OF l(1,2)])
    show "struct_inv (s\<lparr>uv_refused := uv_refused s @ [(t, call tk)]\<rparr>)" using d by (simp add: struct_inv_def)
    show "refused_frame env s (s\<lparr>uv_refused := uv_refused s @ [(t, call tk)]\<rparr>)"
      using True by (auto simp: refused_frame_def not_le intro: exI [of _ "call tk"])
  qed (simp_all add: tasks_frame_refl keeps_handles_refl same_control_def uses_only_same)
next
  case False
  then have f: "0 \<le> uv_fs env (call tk)" by simp
  note p = dispatch_preD [OF pre]
  note q = uv_request_core [OF p(1), of "FsReq t (call tk)", simplified]
  show ?thesis
    by (rule step_request [OF base_pre [OF pre] fs_start_ok(1) [where call = call, OF p(1,3) f] q(1,2)])
      (use q(3) g in \<open>simp_all add: tasks_frame_refl reqs_ok_def\<close>)
qed

lemma DnsResolve_step:
  assumes pre: "dispatch_pre env t tk L s"
  shows "goes_well env t tk L s (Dispatch_DnsResolve env t s)"
proof -
  note p = dispatch_preD [OF pre]
  obtain s' rs where s': "Dispatch_DnsResolve env t s = Inr s'" "core L s'"
    "same_handles (s\<lparr>uv_pending := uv_pending s @ rs\<rparr>) s'"
    and r: "\<exists>r. rs = [] \<and> r < 0 \<and> h_tasks s' = done_with [t] r (h_tasks s)
       \<or> (\<exists>n v f. rs = [AddrReq t n v f]) \<and> h_tasks s' = h_tasks s"
    using Dispatch_DnsResolve_ok [OF p(1,3), of env] by blast
  have "concat (map req_stream rs) = []" "reqs_ok (h_tasks s') rs" using r by (auto simp: reqs_ok_def)
  moreover have "tasks_frame t s s'" using r tasks_frame_done [OF _ owned_undone [OF p(1)]] tasks_frame_refl by blast
  ultimately show ?thesis by (rule step_request [OF base_pre [OF pre] s'])
qed

section \<open>Streams\<close>

lemma client_streamD:
  assumes "client_stream s x"
  obtains st where "h_streams s x = Some st" and "\<not> uv_closing st"
  using assms by (auto simp: client_stream_def open_in_def)

text \<open>An operation that replaces one stream of the client's.\<close>

lemma step_client_stream:
  assumes pre: "base t s" and m: "m = Inr s'" "core L s'"
    and sh: "same_handles (s\<lparr>h_streams := h_streams s', reading_streams := reading_streams s'\<rparr>) s'"
    and hs: "h_streams s' = (h_streams s)(x \<mapsto> st')" and x: "client_stream s x"
    and r: "reads_ok (h_streams s') (reading_streams s')"
    and cl: "\<not> uv_closing st' \<Longrightarrow> close_task st' = nullptr"
    and op: "uv_closing st' \<Longrightarrow> t_op tk = StreamClose \<and> t_stream tk = x"
    and fr: "tasks_frame t s s'"
  shows "goes_well env t tk L s m"
proof (rule goes_wellI [OF m _ fr])
  note p = baseD [OF pre]
  have f: "h_listeners s' = h_listeners s" "h_processes s' = h_processes s" "h_watchers s' = h_watchers s"
    "listeners s' = listeners s" "uv_pending s' = uv_pending s"
    using same_handles_fields [OF sh] by simp_all
  have c: "reqs_ok (h_tasks s') (uv_pending s)"
    by (rule reqs_ok_frame [OF struct_invD(7) [OF p(2)] fr p(1)])
  have "internal_ok (h_streams s') (h_listeners s) (uv_pending s)"
    by (rule internal_ok_mono [OF struct_invD(6) [OF p(2)]]) (use x hs in \<open>auto simp: client_stream_def\<close>)
  moreover have "close_slots_ok (h_streams s')"
    unfolding hs by (rule close_slots_upd [OF struct_invD(2) [OF p(2)] cl])
  ultimately show "struct_inv s'" using struct_invD [OF p(2)] r c by (simp add: struct_inv_def f)
  show "keeps_handles tk s s'"
    by (rule keeps_handles_streams) (use op f in \<open>auto simp: client_stream_def hs open_in_upd\<close>)
  show "same_control s s'" using same_handles_control [OF sh] by simp
  show "uses_only env s s'" using x
    by (auto simp: uses_only_def addr_used_def f hs client_stream_def open_in_def)
  show "refused_frame env s s'" using same_handles_refused [OF sh] by simp
qed

lemma StreamRead_step:
  assumes pre: "dispatch_pre env t tk L s" and op: "t_op tk = StreamRead"
  shows "goes_well env t tk L s (Dispatch_StreamRead env t s)"
proof -
  note p = dispatch_preD [OF pre]
  have x: "client_stream s (t_stream tk)" using p(4) op by (simp add: ready_def)
  then obtain st where st: "h_streams s (t_stream tk) = Some st" "\<not> uv_closing st" by (rule client_streamD)
  have ct: "close_task st = nullptr" using close_slotsD [OF struct_invD(2) [OF p(2)] st] .
  obtain s' st' where s': "Dispatch_StreamRead env t s = Inr s'" "core L s'"
    "reads_ok (h_streams s') (reading_streams s')" "h_streams s' = (h_streams s)(t_stream tk \<mapsto> st')"
    "uv_closing st' = uv_closing st" "close_task st' = close_task st"
    "same_handles (s\<lparr>h_streams := h_streams s', reading_streams := reading_streams s'\<rparr>) s'"
    "h_tasks s' = h_tasks s \<or> (\<exists>r. h_tasks s' = done_with [t] r (h_tasks s))"
    using Dispatch_StreamRead_ok [OF p(1) struct_invD(1) [OF p(2)] p(3) refl st] by blast
  have "tasks_frame t s s'" using s'(8) tasks_frame_done [OF _ owned_undone [OF p(1)]] tasks_frame_refl by blast
  then show ?thesis
    by (intro step_client_stream [OF base_pre [OF pre] s'(1,2,7,4) x s'(3)]) (use s'(5,6) st ct in auto)
qed

lemma StreamWrite_step:
  assumes pre: "dispatch_pre env t tk L s" and op: "t_op tk = StreamWrite"
  shows "goes_well env t tk L s (Dispatch_StreamWrite env t s)"
proof -
  note p = dispatch_preD [OF pre]
  have "client_stream s (t_stream tk)" using p(4) op by (simp add: ready_def)
  then obtain st where st: "h_streams s (t_stream tk) = Some st" "\<not> uv_closing st" by (rule client_streamD)
  obtain s' rs where s': "Dispatch_StreamWrite env t s = Inr s'" "core L s'"
    "same_handles (s\<lparr>uv_pending := uv_pending s @ rs\<rparr>) s'"
    and r: "(\<exists>r < 0. rs = [] \<and> h_tasks s' = done_with [t] r (h_tasks s))
       \<or> rs = [WriteReq t (t_stream tk) (task_data t tk) (t_nbytes tk)] \<and> h_tasks s' = h_tasks s"
    using Dispatch_StreamWrite_ok [OF p(1,3) st(1), of env] by blast
  have "concat (map req_stream rs) = []" "reqs_ok (h_tasks s') rs" using r by (auto simp: reqs_ok_def)
  moreover have "tasks_frame t s s'" using r tasks_frame_done [OF _ owned_undone [OF p(1)]] tasks_frame_refl by blast
  ultimately show ?thesis by (rule step_request [OF base_pre [OF pre] s'])
qed

lemma StreamClose_step:
  assumes pre: "dispatch_pre env t tk L s" and op: "t_op tk = StreamClose"
  shows "goes_well env t tk L s (Dispatch_StreamClose t s)"
proof -
  note p = dispatch_preD [OF pre]
  have x: "client_stream s (t_stream tk)" using p(4) op by (simp add: ready_def)
  then obtain st where st: "h_streams s (t_stream tk) = Some st" "\<not> uv_closing st" by (rule client_streamD)
  have ct: "close_task st = nullptr" using close_slotsD [OF struct_invD(2) [OF p(2)] st] .
  obtain s' where s': "Dispatch_StreamClose t s = Inr s'" "core L s'"
    "reads_ok (h_streams s') (reading_streams s')"
    "h_streams s' = (h_streams s)(t_stream tk \<mapsto> (idle st)\<lparr>close_task := t, uv_closing := True\<rparr>)"
    "same_handles (s\<lparr>h_streams := h_streams s', reading_streams := reading_streams s'\<rparr>) s'"
    "h_tasks s' = done_with (s_read_queue st) UV_ECANCELED (h_tasks s)"
    using Dispatch_StreamClose_ok [OF p(1) struct_invD(1) [OF p(2)] p(3) refl st ct] by blast
  show ?thesis
    by (rule step_client_stream [OF base_pre [OF pre] s'(1,2,5,4) x s'(3)])
      (use op tasks_frame_done [OF s'(6) readers_undone [OF p(1) st(1)]] in auto)
qed

text \<open>An operation that creates a stream, and perhaps a connection request for it.\<close>

lemma new_stream_ok:
  assumes "st = Stream_ctor \<or> st = Stream_ctor\<lparr>uv_closing := True\<rparr>"
  shows "reads_ok m rs \<Longrightarrow> m x = None \<Longrightarrow> reads_ok (m(x \<mapsto> st)) rs"
    and "close_slots_ok m \<Longrightarrow> close_slots_ok (m(x \<mapsto> st))"
  using assms by (auto simp: reads_ok_def close_slots_ok_def Stream_ctor_def)

lemma step_new_stream:
  assumes pre: "base t s" and fre: "fresh env s" and m: "m = Inr s'" "core L s'"
    and sh: "same_handles (s\<lparr>h_streams := h_streams s', uv_pending := uv_pending s'\<rparr>) s'"
    and x: "x \<in> set (new_addrs env)" and hs: "h_streams s' = (h_streams s)(x \<mapsto> st)"
    and st: "st = Stream_ctor \<or> st = Stream_ctor\<lparr>uv_closing := True\<rparr>"
    and pd: "uv_pending s' = uv_pending s
       \<or> uv_pending s' = uv_pending s @ [ConnectReq t x] \<and> st = Stream_ctor
         \<and> (\<exists>tk'. h_tasks s' t = Some tk' \<and> t_stream tk' = x)"
    and fr: "tasks_frame t s s'"
  shows "goes_well env t tk L s m"
proof (rule goes_wellI [OF m _ fr])
  note p = baseD [OF pre]
  have xn: "h_streams s x = None" using fresh_addrs(1) [OF fre] x by blast
  have f: "h_listeners s' = h_listeners s" "h_processes s' = h_processes s" "h_watchers s' = h_watchers s"
    "listeners s' = listeners s" "reading_streams s' = reading_streams s"
    using same_handles_fields [OF sh] by simp_all
  have i0: "internal_ok (h_streams s) (h_listeners s) (uv_pending s)" using struct_invD(6) [OF p(2)] .
  have xi: "x \<notin># internal_of (h_listeners s) (uv_pending s)" using i0 xn by (auto simp: internal_ok_def)
  have "reqs_ok (h_tasks s') (uv_pending s)"
    by (rule reqs_ok_frame [OF struct_invD(7) [OF p(2)] fr p(1)])
  then have c: "reqs_ok (h_tasks s') (uv_pending s')" using pd by (auto simp: reqs_ok_def)
  have "internal_ok (h_streams s') (h_listeners s) (uv_pending s')"
  proof (cases "uv_pending s' = uv_pending s")
    case True
    show ?thesis by (rule internal_ok_mono [OF i0]) (use True xi hs in auto)
  next
    case False
    then have "h_streams s' = (h_streams s)(x \<mapsto> Stream_ctor)"
      and "internal_of (h_listeners s) (uv_pending s') = add_mset x (internal_of (h_listeners s) (uv_pending s))"
      using pd hs by (auto simp: internal_of_append)
    then show ?thesis using internal_ok_add [OF i0 _ xn] by simp
  qed
  then show "struct_inv s'"
    using struct_invD [OF p(2)] c new_stream_ok [OF st] xn by (simp add: struct_inv_def f hs)
  have "client_stream s' y" if "client_stream s y" for y
  proof -
    have "y \<noteq> x" using that xn by (auto simp: client_stream_def open_in_def)
    then show ?thesis using that pd by (auto simp: client_stream_def f hs open_in_upd internal_of_append)
  qed
  then show "keeps_handles tk s s'" by (intro keeps_handles_streams) (simp_all add: f)
  show "same_control s s'" using same_handles_control [OF sh] by simp
  show "uses_only env s s'" using x by (auto simp: uses_only_def addr_used_def f hs)
  show "refused_frame env s s'" using same_handles_refused [OF sh] by simp
qed

lemma TcpConnect_step:
  assumes pre: "dispatch_pre env t tk L s"
  shows "goes_well env t tk L s (Dispatch_TcpConnect env t s)"
proof -
  note p = dispatch_preD [OF pre]
  note x = fresh_addr(1) [OF p(6)] fresh_addr(5) [OF p(6)]
  have "fst (parse_ip_addr env (t_path tk) (t_port tk)) \<le> 0"
    using p(5) by (simp add: parse_ip_addr_def env_ok_def case_prod_beta Let_def)
  from Dispatch_TcpConnect_ok [OF p(1,3) refl x this] obtain s' st tk' where s':
    "Dispatch_TcpConnect env t s = Inr s'" "core L s'"
    "h_streams s' = (h_streams s)(new_addr env 0 \<mapsto> st)" "h_tasks s' = (h_tasks s)(t \<mapsto> tk')"
    "same_handles (s\<lparr>h_streams := h_streams s', uv_pending := uv_pending s'\<rparr>) s'"
    and o: "st = Stream_ctor \<and> uv_pending s' = uv_pending s @ [ConnectReq t (new_addr env 0)]
          \<and> tk' = tk\<lparr>t_stream := new_addr env 0\<rparr>
       \<or> st = Stream_ctor\<lparr>uv_closing := True\<rparr> \<and> uv_pending s' = uv_pending s
          \<and> (\<exists>r. r < 0 \<and> tk' = completed r (tk\<lparr>t_stream := nullptr\<rparr>))"
    by blast
  show ?thesis
    by (rule step_new_stream [OF base_pre [OF pre] dispatch_preD(6) [OF pre] s'(1,2,5) new_addrs_mem(1) s'(3) _ _ tasks_frame_upd [OF p(3) owned_not_done [OF p(1,3)] _ s'(4)]])
      (use o s'(4) in \<open>auto simp: shape_def\<close>)
qed

lemma StdioOpen_step:
  assumes pre: "dispatch_pre env t tk L s"
  shows "goes_well env t tk L s (Dispatch_StdioOpen env t s)"
proof -
  note p = dispatch_preD [OF pre]
  note x = fresh_addr(1) [OF p(6)] fresh_addr(5) [OF p(6)]
  have ini: "init_ok env" using p(5) by (simp add: env_ok_def)
  from Dispatch_StdioOpen_ok [OF p(1,3) ini refl x] obtain s' r where s':
    "Dispatch_StdioOpen env t s = Inr s'" "core L s'"
    "same_handles (s\<lparr>h_streams := h_streams s'\<rparr>) s'" "h_tasks s' = done_with [t] r (h_tasks s)"
    and o: "r = 0 \<and> h_streams s' = h_streams s
       \<or> r = as_result (new_addr env 0) \<and> h_streams s' = (h_streams s)(new_addr env 0 \<mapsto> Stream_ctor)
       \<or> r < 0 \<and> h_streams s' = (h_streams s)(new_addr env 0 \<mapsto> Stream_ctor\<lparr>uv_closing := True\<rparr>)"
    by blast
  note fr = tasks_frame_done [OF s'(4) owned_undone [OF p(1)], of t]
  have pd: "uv_pending s' = uv_pending s" using same_handles_fields [OF s'(3)] by simp
  have sh: "same_handles (s\<lparr>h_streams := h_streams s', uv_pending := uv_pending s'\<rparr>) s'"
    using s'(3) pd by (simp add: same_handles_def)
  from o consider "h_streams s' = h_streams s"
    | st where "h_streams s' = (h_streams s)(new_addr env 0 \<mapsto> st)"
        "st = Stream_ctor \<or> st = Stream_ctor\<lparr>uv_closing := True\<rparr>" by blast
  then show ?thesis
  proof cases
    case 1
    then have "same_handles s s'" using s'(3) by (simp add: same_handles_def)
    then show ?thesis using step_complete [OF base_pre [OF pre] s'(1,2) _ fr] by blast
  next
    case 2
    show ?thesis by (rule step_new_stream [OF base_pre [OF pre] dispatch_preD(6) [OF pre] s'(1,2) sh new_addrs_mem(1) 2 _ fr]) (simp add: pd)
  qed
qed

section \<open>Listeners\<close>

lemma step_listener:
  assumes pre: "base t s" and m: "m = Inr s'" "core L s'"
    and sh: "same_handles (s\<lparr>h_listeners := h_listeners s', listeners := listeners s'\<rparr>) s'"
    and hl: "h_listeners s' = (h_listeners s)(l \<mapsto> lo)"
      "h_listeners s l = None \<Longrightarrow> l \<in> set (new_addrs env)"
    and ok: "listeners_ok (h_listeners s') (listeners s')"
    and sub: "internal_of (h_listeners s') (uv_pending s) \<subseteq># internal_of (h_listeners s) (uv_pending s)"
    and op: "open_in (h_listeners s) l \<Longrightarrow> \<not> uv_closing lo"
    and fr: "tasks_frame t s s'"
  shows "goes_well env t tk L s m"
proof (rule goes_wellI [OF m _ fr])
  note p = baseD [OF pre]
  have f: "h_streams s' = h_streams s" "h_processes s' = h_processes s" "h_watchers s' = h_watchers s"
    "reading_streams s' = reading_streams s" "uv_pending s' = uv_pending s"
    using same_handles_fields [OF sh] by simp_all
  have c: "reqs_ok (h_tasks s') (uv_pending s)"
    by (rule reqs_ok_frame [OF struct_invD(7) [OF p(2)] fr p(1)])
  have "internal_ok (h_streams s) (h_listeners s') (uv_pending s)"
    by (rule internal_ok_mono [OF struct_invD(6) [OF p(2)] sub]) simp
  then show "struct_inv s'" using struct_invD [OF p(2)] ok c by (simp add: struct_inv_def f)
  show "keeps_handles tk s s'"
    using op mset_subset_eqD [OF sub]
    by (auto simp: keeps_handles_def client_stream_def unwaited_def f hl(1) open_in_upd)
  show "same_control s s'" using same_handles_control [OF sh] by simp
  show "uses_only env s s'" using hl by (auto simp: uses_only_def addr_used_def f)
  show "refused_frame env s s'" using same_handles_refused [OF sh] by simp
qed

lemma TcpListen_step:
  assumes pre: "dispatch_pre env t tk L s"
  shows "goes_well env t tk L s (Dispatch_TcpListen env t s)"
proof -
  note p = dispatch_preD [OF pre]
  note l = fresh_addr(2) [OF p(6)] fresh_addr(5) [OF p(6)]
  from Dispatch_TcpListen_ok [OF p(1,3) refl l] obtain s' lo r where s':
    "Dispatch_TcpListen env t s = Inr s'" "core L s'"
    "h_listeners s' = (h_listeners s)(new_addr env 0 \<mapsto> lo)"
    "same_handles (s\<lparr>h_listeners := h_listeners s', listeners := listeners s'\<rparr>) s'"
    "h_tasks s' = done_with [t] r (h_tasks s)"
    and o: "r < 0 \<and> lo = Listener_ctor\<lparr>uv_closing := True\<rparr> \<and> listeners s' = listeners s
       \<or> r = as_result (new_addr env 0) \<and> lo = Listener_ctor
          \<and> listeners s' = us_insert (new_addr env 0) (listeners s)" by blast
  have ok: "listeners_ok (h_listeners s') (listeners s')"
    using o listeners_ok_new [OF struct_invD(3) [OF p(2)] l(1)] s'(3) by auto
  have "l_accepted lo = []" using o by (auto simp: Listener_ctor_def)
  then have "internal_of (h_listeners s') (uv_pending s) = internal_of (h_listeners s) (uv_pending s)"
    using internal_of_new_listener [OF core_finite(4) [OF p(1)] l(1)] s'(3) by simp
  then show ?thesis
    by (intro step_listener [OF base_pre [OF pre] s'(1,2,4,3) _ ok _ _ tasks_frame_done [OF s'(5) owned_undone [OF p(1)]]])
      (use l in \<open>auto simp: open_in_def\<close>)
qed

lemma TcpAccept_step:
  assumes pre: "dispatch_pre env t tk L s" and op: "t_op tk = TcpAccept"
  shows "goes_well env t tk L s (Dispatch_TcpAccept t s)"
proof -
  note p = dispatch_preD [OF pre]
  let ?l = "t_listener tk"
  obtain lo where lo: "h_listeners s ?l = Some lo" "\<not> uv_closing lo"
    using p(4) op by (auto simp: ready_def open_in_def)
  note okl = struct_invD(3) [OF p(2)]
  from Dispatch_TcpAccept_ok [OF p(1,3) refl lo(1)] obtain s' lo' where s':
    "Dispatch_TcpAccept t s = Inr s'" "core L s'" "h_listeners s' = (h_listeners s)(?l \<mapsto> lo')"
    "same_handles (s\<lparr>h_listeners := h_listeners s'\<rparr>) s'"
    and o: "l_accepted lo = [] \<and> lo' = lo\<lparr>l_pending_accepts := l_pending_accepts lo @ [t]\<rparr>
          \<and> h_tasks s' = h_tasks s
       \<or> (\<exists>x xs. l_accepted lo = x # xs \<and> lo' = lo\<lparr>l_accepted := xs\<rparr>
          \<and> h_tasks s' = done_with [t] (as_result x) (h_tasks s))" by blast
  have ls: "listeners s' = listeners s" using same_handles_fields [OF s'(4)] by simp
  have sh: "same_handles (s\<lparr>h_listeners := h_listeners s', listeners := listeners s'\<rparr>) s'"
    using s'(4) ls by (simp add: same_handles_def)
  have fr: "tasks_frame t s s'" using o tasks_frame_done [OF _ owned_undone [OF p(1)]] tasks_frame_refl by blast
  have n: "\<not> uv_closing lo'" using o lo(2) by auto
  have "listeners_ok ((h_listeners s)(?l \<mapsto> lo')) (listeners s)"
    by (rule listeners_ok_upd [OF okl lo(1)])
      (use o lo listeners_okD(1,5) [OF okl lo(1)] in auto)
  then have ok: "listeners_ok (h_listeners s') (listeners s')" using s'(3) ls by simp
  have "mset (l_accepted lo) + internal_of (h_listeners s') (uv_pending s)
      = mset (l_accepted lo') + internal_of (h_listeners s) (uv_pending s)"
    unfolding s'(3) by (rule internal_of_listener [OF core_finite(4) [OF p(1)] lo(1)])
  then have "internal_of (h_listeners s) (uv_pending s)
      = mset (take 1 (l_accepted lo)) + internal_of (h_listeners s') (uv_pending s)"
    using o by auto
  then have "internal_of (h_listeners s') (uv_pending s) \<subseteq># internal_of (h_listeners s) (uv_pending s)"
    by simp
  then show ?thesis
    by (intro step_listener [OF base_pre [OF pre] s'(1,2) sh s'(3) _ ok _ _ fr]) (use lo n in auto)
qed

text \<open>Dropping the backlog of a listener.\<close>

lemma abort_internal:
  assumes fin: "finite (dom hl)" and l: "hl l = Some lo" and ok: "internal_ok hs hl pend"
  shows "internal_of hl pend = mset (l_accepted lo) + internal_of (hl(l \<mapsto> aborted ct lo)) pend"
    and "internal_ok (closing_all (l_accepted lo) hs) (hl(l \<mapsto> aborted ct lo)) pend"
    and "\<forall>x. x \<notin># internal_of hl pend \<longrightarrow> closing_all (l_accepted lo) hs x = hs x"
proof -
  show i: "internal_of hl pend = mset (l_accepted lo) + internal_of (hl(l \<mapsto> aborted ct lo)) pend"
    using internal_of_listener [OF fin l, of "aborted ct lo" pend] by simp
  have "x \<notin> set (l_accepted lo)" if "x \<in># internal_of (hl(l \<mapsto> aborted ct lo)) pend" for x
  proof
    assume "x \<in> set (l_accepted lo)"
    then have "count (internal_of hl pend) x \<ge> 2" using that i
      by (metis Suc_1 Suc_leI add_mono count_greater_eq_one_iff count_union one_add_one set_mset_mset)
    then show False using ok by (auto simp: internal_ok_def dest: spec [of _ x])
  qed
  then show "internal_ok (closing_all (l_accepted lo) hs) (hl(l \<mapsto> aborted ct lo)) pend"
    by (intro internal_ok_mono [OF ok]) (auto simp: i closing_all_def)
  show "\<forall>x. x \<notin># internal_of hl pend \<longrightarrow> closing_all (l_accepted lo) hs x = hs x"
    by (auto simp: i closing_all_def)
qed

lemma abort_streams:
  assumes fin: "finite (dom hl)" and l: "hl l = Some lo" and ok: "internal_ok hs hl pend"
  shows "reads_ok hs rs \<Longrightarrow> reads_ok (closing_all (l_accepted lo) hs) rs"
    and "close_slots_ok hs \<Longrightarrow> close_slots_ok (closing_all (l_accepted lo) hs)"
    and "dom (closing_all (l_accepted lo) hs) = dom hs"
proof -
  have a: "\<exists>st. hs x = Some st \<and> \<not> uv_closing st \<and> s_read_queue st = []" if "x \<in> set (l_accepted lo)" for x
    using accepted_internal [OF fin l that, of pend] ok by (auto simp: internal_ok_def)
  show "reads_ok hs rs \<Longrightarrow> reads_ok (closing_all (l_accepted lo) hs) rs"
    using a by (fastforce simp: reads_ok_def closing_all_def split: if_splits)
  show "close_slots_ok hs \<Longrightarrow> close_slots_ok (closing_all (l_accepted lo) hs)"
    by (auto simp: close_slots_ok_def closing_all_def split: if_splits)
  show "dom (closing_all (l_accepted lo) hs) = dom hs"
    by (auto simp: closing_all_def split: if_splits)
qed

lemma backlog_open:
  assumes c: "core L s" and i: "struct_inv s" and l: "h_listeners s l = Some lo"
    and x: "x \<in> set (l_accepted lo)"
  shows "\<exists>st. h_streams s x = Some st \<and> \<not> uv_closing st \<and> close_task st = nullptr"
proof -
  have "x \<in># internal_of (h_listeners s) (uv_pending s)"
    using accepted_internal [OF core_finite(4) [OF c] l x] .
  then obtain st where "h_streams s x = Some st" "\<not> uv_closing st" "s_read_queue st = []"
    by (rule internal_ok_open [OF struct_invD(6) [OF i]])
  then show ?thesis using close_slotsD [OF struct_invD(2) [OF i]] by blast
qed

lemma backlog_distinct:
  "core L s \<Longrightarrow> struct_inv s \<Longrightarrow> h_listeners s l = Some lo \<Longrightarrow> distinct (l_accepted lo)"
  using accepted_distinct [OF core_finite(4) _ struct_invD(6)] by blast

lemma ListenerClose_step:
  assumes pre: "dispatch_pre env t tk L s" and op: "t_op tk = ListenerClose"
  shows "goes_well env t tk L s (Dispatch_ListenerClose t s)"
proof (cases "t_listener tk \<in> set (listeners s)")
  case False
  note p = dispatch_preD [OF pre]
  obtain s' where s': "Dispatch_ListenerClose t s = Inr s'" "core L s'" "same_handles s s'"
    "h_tasks s' = done_with [t] 0 (h_tasks s)"
    using Dispatch_ListenerClose_late [OF p(1,3) False] by blast
  show ?thesis by (rule step_complete [OF base_pre [OF pre] s'(1-3) tasks_frame_done [OF s'(4) owned_undone [OF p(1)]]])
next
  case True
  note p = dispatch_preD [OF pre]
  let ?l = "t_listener tk"
  note okl = struct_invD(3) [OF p(2)] and fin = core_finite(4) [OF p(1)]
  obtain lo where lo: "h_listeners s ?l = Some lo" "\<not> uv_closing lo"
    using listeners_ok_registered [OF okl True] by blast
  obtain s' where s': "Dispatch_ListenerClose t s = Inr s'" "core L s'"
    "h_listeners s' = (h_listeners s)(?l \<mapsto> aborted t lo)" "listeners s' = us_erase ?l (listeners s)"
    "h_streams s' = closing_all (l_accepted lo) (h_streams s)"
    "same_handles (s\<lparr>h_listeners := h_listeners s', h_streams := h_streams s', listeners := listeners s'\<rparr>) s'"
    "h_tasks s' = done_with (l_pending_accepts lo) UV_ECANCELED (h_tasks s)"
    using Dispatch_ListenerClose_open [OF p(1,3) refl okl True lo(1) backlog_distinct [OF p(1,2) lo(1)]
        backlog_open [OF p(1,2) lo(1)]] by blast
  note fr = tasks_frame_done [OF s'(7) acceptors_undone [OF p(1) lo(1)], of t]
  have f: "h_processes s' = h_processes s" "h_watchers s' = h_watchers s"
    "reading_streams s' = reading_streams s" "uv_pending s' = uv_pending s"
    using same_handles_fields [OF s'(6)] by simp_all
  note ab = abort_internal(1,2) [OF fin lo(1) struct_invD(6) [OF p(2)], of t]
    abort_internal(3) [OF fin lo(1) struct_invD(6) [OF p(2)]]
  note as = abort_streams [OF fin lo(1) struct_invD(6) [OF p(2)]]
  have c: "reqs_ok (h_tasks s') (uv_pending s)"
    by (rule reqs_ok_frame [OF struct_invD(7) [OF p(2)] fr local_no_request [OF p(1)]])
  have "listeners_ok (h_listeners s') (listeners s')"
    unfolding s'(3,4) by (rule listeners_ok_closed [OF okl]) simp_all
  then have "struct_inv s'" using struct_invD [OF p(2)] c ab(2) as(1,2)
    by (simp add: struct_inv_def f s'(3,5))
  moreover have "keeps_handles tk s s'"
    using op ab(1,3)
    by (auto simp: keeps_handles_def client_stream_def unwaited_def f s'(3,5) open_in_upd)
      (auto simp: open_in_def)
  moreover have "same_control s s'" using same_handles_control [OF s'(6)] by simp
  moreover have "uses_only env s s'" using lo(1) as(3) by (auto simp: uses_only_def addr_used_def f s'(3,5))
  moreover have "refused_frame env s s'" using same_handles_refused [OF s'(6)] by simp
  ultimately show ?thesis using goes_wellI [OF s'(1,2) _ fr] by blast
qed

section \<open>Processes\<close>

lemma ProcKill_step:
  assumes pre: "dispatch_pre env t tk L s" and op: "t_op tk = ProcKill"
  shows "goes_well env t tk L s (Dispatch_ProcKill env t s)"
proof -
  note p = dispatch_preD [OF pre]
  obtain po where "h_processes s (t_process tk) = Some po"
    using p(4) op by (auto simp: ready_def open_in_def)
  from Dispatch_ProcKill_ok [OF p(1,3) this] obtain s' where s': "Dispatch_ProcKill env t s = Inr s'"
    "core L s'" "same_handles s s'"
    "h_tasks s' = done_with [t] (uv_process_kill env (t_process tk) (t_signum tk)) (h_tasks s)" by blast
  show ?thesis by (rule step_complete [OF base_pre [OF pre] s'(1-3) tasks_frame_done [OF s'(4) owned_undone [OF p(1)]]])
qed

text \<open>An operation that replaces one process.\<close>

lemma step_process:
  assumes pre: "base t s" and m: "m = Inr s'" "core L s'"
    and sh: "same_handles (s\<lparr>h_processes := h_processes s'\<rparr>) s'"
    and hp: "h_processes s' = (h_processes s)(p \<mapsto> po')" "h_processes s p = Some po"
    and ok: "processes_ok (h_processes s')"
    and op: "uv_closing po' \<Longrightarrow> \<not> uv_closing po \<Longrightarrow> t_op tk = ProcClose \<and> t_process tk = p"
      "p_wait_task po' \<noteq> p_wait_task po \<Longrightarrow> t_op tk \<in> {ProcWait, ProcClose} \<and> t_process tk = p"
    and fr: "tasks_frame t s s'"
  shows "goes_well env t tk L s m"
proof (rule goes_wellI [OF m _ fr])
  note q = baseD [OF pre]
  have f: "h_streams s' = h_streams s" "h_listeners s' = h_listeners s" "h_watchers s' = h_watchers s"
    "listeners s' = listeners s" "reading_streams s' = reading_streams s" "uv_pending s' = uv_pending s"
    using same_handles_fields [OF sh] by simp_all
  have "reqs_ok (h_tasks s') (uv_pending s)"
    by (rule reqs_ok_frame [OF struct_invD(7) [OF q(2)] fr q(1)])
  then show "struct_inv s'" using struct_invD [OF q(2)] ok by (simp add: struct_inv_def f)
  have "open_in (h_processes s') a" if "open_in (h_processes s) a" "\<not> (t_op tk = ProcClose \<and> t_process tk = a)" for a
    using that hp op(1) by (auto simp: open_in_def)
  moreover have "unwaited s' a" if "unwaited s a" "\<not> (t_op tk \<in> {ProcWait, ProcClose} \<and> t_process tk = a)" for a
  proof (cases "a = p")
    case True
    then have "\<not> uv_closing po'" "p_wait_task po' = nullptr"
      using that hp(2) op by (auto simp: unwaited_def)
    then show ?thesis using True hp(1) by (simp add: unwaited_def)
  next
    case False
    then show ?thesis using that hp by (simp add: unwaited_def)
  qed
  ultimately show "keeps_handles tk s s'" by (simp add: keeps_handles_def client_stream_def f)
  show "same_control s s'" using same_handles_control [OF sh] by simp
  show "uses_only env s s'" using hp by (auto simp: uses_only_def addr_used_def f)
  show "refused_frame env s s'" using same_handles_refused [OF sh] by simp
qed

lemma ProcWait_step:
  assumes pre: "dispatch_pre env t tk L s" and op: "t_op tk = ProcWait"
  shows "goes_well env t tk L s (Dispatch_ProcWait t s)"
proof -
  note p = dispatch_preD [OF pre]
  obtain po where po: "h_processes s (t_process tk) = Some po" "\<not> uv_closing po" "p_wait_task po = nullptr"
    using p(4) op by (auto simp: ready_def unwaited_def)
  note okp = struct_invD(4) [OF p(2)]
  from Dispatch_ProcWait_ok [OF p(1,3) refl po(1)] po(3) obtain s' where s': "Dispatch_ProcWait t s = Inr s'"
    "core L s'" "same_handles (s\<lparr>h_processes := h_processes s'\<rparr>) s'"
    and o: "if p_exited po then h_processes s' = h_processes s
         \<and> h_tasks s' = done_with [t] (p_exit_status po) (h_tasks s)
       else h_processes s' = (h_processes s)(t_process tk \<mapsto> po\<lparr>p_wait_task := t\<rparr>) \<and> h_tasks s' = h_tasks s"
    by blast
  show ?thesis
  proof (cases "p_exited po")
    case True
    then have "h_processes s' = (h_processes s)(t_process tk \<mapsto> po)"
      using o po(1) by (simp add: fun_upd_idem)
    then show ?thesis
      using step_process [OF base_pre [OF pre] s' _ po(1), of po] True o okp tasks_frame_done [OF _ owned_undone [OF p(1)]] by simp
  next
    case False
    then have hp: "h_processes s' = (h_processes s)(t_process tk \<mapsto> po\<lparr>p_wait_task := t\<rparr>)" using o by simp
    have "processes_ok (h_processes s')" unfolding hp
      by (rule processes_ok_upd [OF okp]) (use False po processes_okD(3) [OF okp po(1)] in simp_all)
    then show ?thesis using step_process [OF base_pre [OF pre] s' hp po(1)] False o op po tasks_frame_refl by simp
  qed
qed

lemma ProcClose_step:
  assumes pre: "dispatch_pre env t tk L s" and op: "t_op tk = ProcClose"
  shows "goes_well env t tk L s (Dispatch_ProcClose t s)"
proof -
  note p = dispatch_preD [OF pre]
  obtain po where po: "h_processes s (t_process tk) = Some po" "\<not> uv_closing po" "p_wait_task po = nullptr"
    using p(4) op by (auto simp: ready_def unwaited_def)
  note okp = struct_invD(4) [OF p(2)]
  let ?h = "po\<lparr>close_task := t, uv_closing := True\<rparr>"
  define s' where "s' = s\<lparr>h_processes := (h_processes s)(t_process tk \<mapsto> ?h)\<rparr>"
  have s: "Dispatch_ProcClose t s = Inr s'" "core L s'"
    using Dispatch_ProcClose_ok [OF p(1,3) refl po(1,2) processes_okD(3) [OF okp po(1,2)]]
    by (auto simp: s'_def)
  have hp: "h_processes s' = (h_processes s)(t_process tk \<mapsto> ?h)" by (simp add: s'_def)
  have "same_handles (s\<lparr>h_processes := h_processes s'\<rparr>) s'" by (simp add: s'_def)
  moreover have "processes_ok (h_processes s')" unfolding hp
    by (rule processes_ok_upd [OF okp]) (use po in simp_all)
  moreover have "tasks_frame t s s'" by (rule tasks_frame_refl) (simp add: s'_def)
  ultimately show ?thesis by (intro step_process [OF base_pre [OF pre] s _ hp po(1)]) (use op in simp_all)
qed

lemma added_streams_ok:
  assumes st: "st = Stream_ctor \<or> st = Stream_ctor\<lparr>uv_closing := True\<rparr>" and new: "\<forall>x \<in> set xs. m x = None"
  shows "reads_ok m rs \<Longrightarrow> reads_ok (add_streams xs st m) rs"
    and "close_slots_ok m \<Longrightarrow> close_slots_ok (add_streams xs st m)"
proof -
  show "reads_ok m rs \<Longrightarrow> reads_ok (add_streams xs st m) rs"
    using st new by (fastforce simp: reads_ok_def add_streams_def Stream_ctor_def split: if_splits)
  show "close_slots_ok m \<Longrightarrow> close_slots_ok (add_streams xs st m)"
    using st by (auto simp: close_slots_ok_def add_streams_def Stream_ctor_def split: if_splits)
qed

lemma ProcSpawn_step:
  assumes pre: "dispatch_pre env t tk L s" and op: "t_op tk = ProcSpawn"
  shows "goes_well env t tk L s (Dispatch_ProcSpawn env t s)"
proof -
  note p = dispatch_preD [OF pre]
  let ?p = "new_addr env 0" let ?xs = "spawned_streams env tk"
  have ds: "distinct (new_addrs env)" using p(5) by (simp add: env_ok_def)
  have pk: "packed_ok tk" using p(4) op by (simp add: ready_def)
  then obtain argv where a: "UnpackStrings (t_buffer tk) (t_argc tk) = Inr argv"
    by (auto simp: packed_ok_def)
  have "\<exists>envp. (if t_envc tk \<ge> 0 then UnpackStrings (t_env_buf tk) (t_envc tk) else Inr []) = Inr envp"
    using pk by (simp add: packed_ok_def)
  then obtain envp where e: "(if t_envc tk \<ge> 0 then UnpackStrings (t_env_buf tk) (t_envc tk) else Inr []) = Inr envp"
    by blast
  have d: "distinct ?xs" using ds by (simp add: spawned_streams_def new_addrs_def)
  have n: "\<forall>x \<in> set ?xs. h_streams s x = None \<and> x \<noteq> 0"
    using fresh_addrs(1,5) [OF p(6)] by (auto simp: spawned_streams_def)
  have r: "set ?xs \<subseteq> set (new_addrs env)" by (auto simp: spawned_streams_def)
  from Dispatch_ProcSpawn_ok [OF p(1,3) a e refl fresh_addr(3,5) [OF p(6)] refl d n] obtain s' po st z where s':
    "Dispatch_ProcSpawn env t s = Inr s'" "core L s'" "h_processes s' = (h_processes s)(?p \<mapsto> po)"
    "h_streams s' = add_streams ?xs st (h_streams s)"
    "same_handles (s\<lparr>h_streams := h_streams s', h_processes := h_processes s'\<rparr>) s'"
    "h_tasks s' = done_with [t] z (h_tasks s)"
    and o: "z < 0 \<and> po = (spawned env tk)\<lparr>uv_closing := True\<rparr> \<and> st = Stream_ctor\<lparr>uv_closing := True\<rparr>
       \<or> z = as_result ?p \<and> po = spawned env tk \<and> st = Stream_ctor" by blast
  note fr = tasks_frame_done [OF s'(6) owned_undone [OF p(1)], of t] and pn = fresh_addr(3) [OF p(6)]
  have f: "h_listeners s' = h_listeners s" "h_watchers s' = h_watchers s" "listeners s' = listeners s"
    "reading_streams s' = reading_streams s" "uv_pending s' = uv_pending s"
    using same_handles_fields [OF s'(5)] by simp_all
  have st: "st = Stream_ctor \<or> st = Stream_ctor\<lparr>uv_closing := True\<rparr>" using o by blast
  note i0 = struct_invD(6) [OF p(2)]
  have xi: "\<forall>x \<in># internal_of (h_listeners s) (uv_pending s). x \<notin> set ?xs"
    using i0 n by (fastforce simp: internal_ok_def)
  have c: "reqs_ok (h_tasks s') (uv_pending s)"
    by (rule reqs_ok_frame [OF struct_invD(7) [OF p(2)] fr local_no_request [OF p(1)]])
  have "internal_ok (h_streams s') (h_listeners s) (uv_pending s)"
    by (rule internal_ok_mono [OF i0]) (use xi s'(4) in \<open>auto simp: add_streams_def\<close>)
  moreover have "processes_ok (h_processes s')" unfolding s'(3)
    by (rule processes_ok_upd [OF struct_invD(4) [OF p(2)]]) (use o in auto)
  moreover have "\<forall>x \<in> set ?xs. h_streams s x = None" using n by blast
  note added_streams_ok [OF st this]
  ultimately have "struct_inv s'" using struct_invD [OF p(2)] c
    by (simp add: struct_inv_def f s'(4))
  moreover have "keeps_handles tk s s'"
    using n pn by (auto simp: keeps_handles_def client_stream_def unwaited_def f s'(3,4) open_in_def add_streams_def)
  moreover have "same_control s s'" using same_handles_control [OF s'(5)] by simp
  moreover have "uses_only env s s'"
    using r by (auto simp: uses_only_def addr_used_def f s'(3,4) add_streams_def split: if_splits)
  moreover have "refused_frame env s s'" using same_handles_refused [OF s'(5)] by simp
  ultimately show ?thesis using goes_wellI [OF s'(1,2) _ fr] by blast
qed

section \<open>Watchers\<close>

lemma step_watcher:
  assumes pre: "base t s" and m: "m = Inr s'" "core L s'"
    and sh: "same_handles (s\<lparr>h_watchers := h_watchers s'\<rparr>) s'"
    and hw: "h_watchers s' = (h_watchers s)(w \<mapsto> wo')" "h_watchers s w = None \<Longrightarrow> w \<in> set (new_addrs env)"
    and ok: "watchers_ok (h_watchers s')"
    and op: "uv_closing wo' \<Longrightarrow> open_in (h_watchers s) w \<Longrightarrow> t_op tk = FsWatchClose \<and> t_watcher tk = w"
    and fr: "tasks_frame t s s'"
  shows "goes_well env t tk L s m"
proof (rule goes_wellI [OF m _ fr])
  note q = baseD [OF pre]
  have f: "h_streams s' = h_streams s" "h_listeners s' = h_listeners s" "h_processes s' = h_processes s"
    "listeners s' = listeners s" "reading_streams s' = reading_streams s" "uv_pending s' = uv_pending s"
    using same_handles_fields [OF sh] by simp_all
  have "reqs_ok (h_tasks s') (uv_pending s)"
    by (rule reqs_ok_frame [OF struct_invD(7) [OF q(2)] fr q(1)])
  then show "struct_inv s'" using struct_invD [OF q(2)] ok by (simp add: struct_inv_def f)
  show "keeps_handles tk s s'" using op
    by (auto simp: keeps_handles_def client_stream_def unwaited_def f hw(1) open_in_upd)
  show "same_control s s'" using same_handles_control [OF sh] by simp
  show "uses_only env s s'" using hw by (auto simp: uses_only_def addr_used_def f)
  show "refused_frame env s s'" using same_handles_refused [OF sh] by simp
qed

lemma FsWatchOpen_step:
  assumes pre: "dispatch_pre env t tk L s"
  shows "goes_well env t tk L s (Dispatch_FsWatchOpen env t s)"
proof -
  note p = dispatch_preD [OF pre]
  from Dispatch_FsWatchOpen_ok [OF p(1,3) refl fresh_addr(4,5) [OF p(6)]] obtain s' wo r where s':
    "Dispatch_FsWatchOpen env t s = Inr s'" "core L s'"
    "h_watchers s' = (h_watchers s)(new_addr env 0 \<mapsto> wo)" "same_handles (s\<lparr>h_watchers := h_watchers s'\<rparr>) s'"
    "h_tasks s' = done_with [t] r (h_tasks s)"
    and o: "r < 0 \<and> wo = Watcher_ctor\<lparr>uv_closing := True\<rparr> \<or> r = as_result (new_addr env 0) \<and> wo = Watcher_ctor"
    by blast
  have "watchers_ok (h_watchers s')" unfolding s'(3)
    by (rule watchers_ok_upd [OF struct_invD(5) [OF p(2)]]) (use o in \<open>auto simp: Watcher_ctor_def\<close>)
  then show ?thesis
    by (intro step_watcher [OF base_pre [OF pre] s'(1,2,4,3) _ _ _ tasks_frame_done [OF s'(5) owned_undone [OF p(1)]]])
      (use fresh_addr(4) [OF p(6)] in \<open>auto simp: open_in_def\<close>)
qed

lemma FsWatchNext_step:
  assumes pre: "dispatch_pre env t tk L s" and op: "t_op tk = FsWatchNext"
  shows "goes_well env t tk L s (Dispatch_FsWatchNext t s)"
proof -
  note p = dispatch_preD [OF pre]
  let ?w = "t_watcher tk"
  obtain wo where wo: "h_watchers s ?w = Some wo" "\<not> uv_closing wo"
    using p(4) op by (auto simp: ready_def open_in_def)
  note okw = struct_invD(5) [OF p(2)]
  from Dispatch_FsWatchNext_ok [OF p(1,3) refl wo(1)] obtain s' wo' where s':
    "Dispatch_FsWatchNext t s = Inr s'" "core L s'" "h_watchers s' = (h_watchers s)(?w \<mapsto> wo')"
    "same_handles (s\<lparr>h_watchers := h_watchers s'\<rparr>) s'"
    and o: "w_pending_next wo \<noteq> nullptr \<and> wo' = wo \<and> h_tasks s' = done_with [t] UV_EBUSY (h_tasks s)
       \<or> w_pending_next wo = nullptr \<and> (\<exists>name ev es. w_events wo = (name, ev) # es
          \<and> wo' = wo\<lparr>w_events := es\<rparr>
          \<and> h_tasks s' = (h_tasks s)(t \<mapsto> completed ev (tk\<lparr>t_str_out := name\<rparr>)))
       \<or> w_pending_next wo = nullptr \<and> w_events wo = [] \<and> wo' = wo\<lparr>w_pending_next := t\<rparr>
          \<and> h_tasks s' = h_tasks s" by blast
  have "shape (completed ev (tk\<lparr>t_str_out := name\<rparr>)) = shape tk" for ev name by (simp add: shape_def)
  then have fr: "tasks_frame t s s'"
    using o tasks_frame_done [OF _ owned_undone [OF p(1)]] tasks_frame_refl tasks_frame_upd [OF p(3) owned_not_done [OF p(1,3)]] by blast
  have ct: "close_task wo = nullptr" using watchers_okD(3) [OF okw wo] .
  have "watchers_ok (h_watchers s')" unfolding s'(3)
    by (rule watchers_ok_upd [OF okw]) (use o wo ct watchers_okD(1) [OF okw wo(1)] in auto)
  then show ?thesis
    by (intro step_watcher [OF base_pre [OF pre] s'(1,2,4,3) _ _ _ fr]) (use o wo in auto)
qed

lemma FsWatchClose_step:
  assumes pre: "dispatch_pre env t tk L s" and op: "t_op tk = FsWatchClose"
  shows "goes_well env t tk L s (Dispatch_FsWatchClose t s)"
proof -
  note p = dispatch_preD [OF pre]
  let ?w = "t_watcher tk"
  obtain wo where wo: "h_watchers s ?w = Some wo" "\<not> uv_closing wo"
    using p(4) op by (auto simp: ready_def open_in_def)
  note okw = struct_invD(5) [OF p(2)]
  from Dispatch_FsWatchClose_ok [OF p(1,3) refl wo watchers_okD(3) [OF okw wo]] obtain s' where s':
    "Dispatch_FsWatchClose t s = Inr s'" "core L s'"
    "h_watchers s' = (h_watchers s)(?w \<mapsto> wo\<lparr>w_pending_next := nullptr, close_task := t, uv_closing := True\<rparr>)"
    "same_handles (s\<lparr>h_watchers := h_watchers s'\<rparr>) s'"
    and o: "h_tasks s' = (if w_pending_next wo = nullptr then h_tasks s
        else done_with [w_pending_next wo] UV_ECANCELED (h_tasks s))" by blast
  have fr: "tasks_frame t s s'"
    using o tasks_frame_done [OF _ next_undone [OF p(1) wo(1)]] tasks_frame_refl by (cases "w_pending_next wo = nullptr") auto
  have "watchers_ok (h_watchers s')" unfolding s'(3)
    by (rule watchers_ok_upd [OF okw]) simp_all
  then show ?thesis
    by (intro step_watcher [OF base_pre [OF pre] s'(1,2,4,3) _ _ _ fr]) (use op wo in auto)
qed

section \<open>Dispatch and Drain\<close>

lemmas op_steps = Timer_step DnsResolve_step TcpConnect_step TcpListen_step StdioOpen_step FsWatchOpen_step
lemmas target_steps = TcpAccept_step StreamRead_step StreamWrite_step StreamClose_step ListenerClose_step
  ProcSpawn_step ProcWait_step ProcKill_step ProcClose_step FsWatchNext_step FsWatchClose_step
lemmas fs_dispatch_defs = Dispatch_FsOpen_def Dispatch_FsRead_def Dispatch_FsWrite_def Dispatch_FsClose_def
  Dispatch_FsStat_def Dispatch_FsMkdir_def Dispatch_FsRmdir_def Dispatch_FsUnlink_def Dispatch_FsRename_def
  Dispatch_FsRealpath_def Dispatch_FsScandir_def

lemma Dispatch_step:
  assumes pre: "dispatch_pre env t tk L s"
  shows "goes_well env t tk L s (Dispatch env t s)"
proof -
  have t: "h_tasks s t = Some tk" using dispatch_preD [OF pre] by blast
  show ?thesis
    by (cases "t_op tk")
      (simp_all add: Dispatch_def t fs_dispatch_defs fs_step [OF pre] task_data_def op_steps [OF pre] target_steps [OF pre])
qed

lemma ready_kept:
  assumes "ready s tk'" and "keeps_handles tk s s'" and "\<not> conflict tk tk'"
  shows "ready s' tk'"
  using assms by (cases "t_op tk'"; cases "t_op tk") (auto simp: ready_def keeps_handles_def conflict_def)

text \<open>A task that is still owed a completion has its parameters as submitted.\<close>

lemma undone_unchanged:
  assumes fr: "tasks_frame t s s'" and "t' \<noteq> t" and u: "t' \<in> undone (h_tasks s')"
  shows "h_tasks s' t' = h_tasks s t'"
proof -
  consider "h_tasks s' t' = h_tasks s t'"
    | r where "h_tasks s' t' = map_option (completed r) (h_tasks s t')"
    using fr assms(2) by (auto simp: tasks_frame_def)
  then show ?thesis by cases (use u in \<open>auto simp: undone_def\<close>)
qed

lemma batch_next:
  assumes c: "core (mset (t # ts) + L) s" and b: "batch_ok (t # ts) s" and t: "h_tasks s t = Some tk"
    and c': "core (mset ts + L) s'" and f: "op_frame env t tk s s'"
  shows "batch_ok ts s'"
proof -
  have fr: "tasks_frame t s s'" "keeps_handles tk s s'" using f by (simp_all add: op_frame_def)
  have tt: "t \<notin> set ts" using core_unique(2) [of t "mset ts + L" s] c by simp
  have same: "task_of s' t' = task_of s t'" if "t' \<in> set ts" for t'
  proof -
    have "t' \<in> undone (h_tasks s')" using core_member_undone [OF c', of t'] that by simp
    moreover have "t' \<noteq> t" using that tt by blast
    ultimately show ?thesis using undone_unchanged [OF fr(1)] by (simp add: task_of_def)
  qed
  have nc: "\<not> conflict tk (task_of s t')" if "t' \<in> set ts" for t'
    using b that t by (auto simp: batch_ok_def task_of_def)
  have "ready s' (task_of s' t')" if "t' \<in> set ts" for t'
    unfolding same [OF that] by (rule ready_kept [OF _ fr(2) nc [OF that]]) (use b that in \<open>simp add: batch_ok_def\<close>)
  moreover have "sorted_wrt (\<lambda>a b. \<not> conflict (task_of s' a) (task_of s' b)) ts"
  proof -
    have "sorted_wrt (\<lambda>a b. \<not> conflict (task_of s a) (task_of s b)) ts" using b by (simp add: batch_ok_def)
    then show ?thesis by (rule sorted_wrt_mono_rel [rotated]) (simp add: same)
  qed
  ultimately show ?thesis by (simp add: batch_ok_def)
qed

lemma fresh_envs_next:
  assumes f: "fresh_envs envs (Suc n) s" and u: "uses_only (envs 0) s s'"
  shows "fresh_envs (\<lambda>i. envs (Suc i)) n s'"
proof -
  have "fresh (envs (Suc i)) s'" if "i < n" for i
    unfolding fresh_def
  proof
    fix a assume a: "a \<in> set (new_addrs (envs (Suc i)))"
    then have "\<not> addr_used s a" using f that by (auto simp: fresh_envs_def fresh_def)
    moreover have "a \<notin> set (new_addrs (envs 0))" using f that a by (fastforce simp: fresh_envs_def)
    ultimately show "\<not> addr_used s' a" using u by (auto simp: uses_only_def)
  qed
  then show ?thesis using f by (auto simp: fresh_envs_def)
qed

lemma tasks_frame_dom: "tasks_frame t s s' \<Longrightarrow> dom (h_tasks s') = dom (h_tasks s)"
proof -
  assume f: "tasks_frame t s s'"
  have "h_tasks s' t' = None \<longleftrightarrow> h_tasks s t' = None" for t'
  proof (cases "t' = t")
    case True
    then have "map_option shape (h_tasks s' t') = map_option shape (h_tasks s t')" using f by (simp add: tasks_frame_def)
    then show ?thesis by (cases "h_tasks s' t'"; cases "h_tasks s t'") simp_all
  next
    case False
    from f this show ?thesis by (rule tasks_frame_cases) simp_all
  qed
  then show ?thesis by (auto simp: dom_def)
qed

text \<open>The addresses a batch may use up.\<close>

definition batch_addrs :: "(nat \<Rightarrow> uv_env) \<Rightarrow> nat \<Rightarrow> addr set" where
  "batch_addrs envs n = (\<Union>i \<in> {..<n}. set (new_addrs (envs i)))"

lemma batch_addrs_Suc:
  "batch_addrs envs (Suc n) = set (new_addrs (envs 0)) \<union> batch_addrs (\<lambda>i. envs (Suc i)) n"
  by (simp add: batch_addrs_def lessThan_Suc_eq_insert_0)

lemma dispatch_all_ok:
  assumes "core (mset ts + L) s" and "struct_inv s" and "batch_ok ts s" and "fresh_envs envs (length ts) s"
  shows "\<exists>s'. dispatch_all envs ts s = Inr s' \<and> core L s' \<and> struct_inv s' \<and> same_control s s'
    \<and> (bufs_ok (h_tasks s) \<longrightarrow> bufs_ok (h_tasks s')) \<and> dom (h_tasks s') = dom (h_tasks s)
    \<and> done_kept (h_tasks s) (h_tasks s') \<and> (\<forall>a. addr_used s' a \<longrightarrow> addr_used s a \<or> a \<in> batch_addrs envs (length ts))
    \<and> ((\<forall>i call. 0 \<le> uv_fs (envs i) call) \<longrightarrow> uv_refused s' = uv_refused s)"
  using assms
proof (induction ts arbitrary: s envs)
  case Nil
  then show ?case by simp
next
  case (Cons t ts)
  have c: "core (add_mset t (mset ts + L)) s" using Cons.prems(1) by simp
  then obtain tk where tk: "h_tasks s t = Some tk" by (rule core_local_task)
  have "ready s tk" using Cons.prems(3) tk by (simp add: batch_ok_def task_of_def)
  then have "dispatch_pre (envs 0) t tk (mset ts + L) s"
    using c Cons.prems(2,4) tk by (simp add: dispatch_pre_def fresh_envs_def)
  from Dispatch_step [OF this] obtain s1 where s1: "Dispatch (envs 0) t s = Inr s1"
    "core (mset ts + L) s1" "struct_inv s1" "op_frame (envs 0) t tk s s1"
    by (auto simp: goes_well_def)
  have b1: "batch_ok ts s1" by (rule batch_next [OF Cons.prems(1,3) tk s1(2,4)])
  have f: "uses_only (envs 0) s s1" "same_control s s1" "tasks_frame t s s1" "refused_frame (envs 0) s s1"
    using s1(4) by (simp_all add: op_frame_def)
  from Cons.IH [OF s1(2,3) b1 fresh_envs_next [OF Cons.prems(4) [simplified] f(1)]] obtain s2 where s2:
    "dispatch_all (\<lambda>i. envs (Suc i)) ts s1 = Inr s2" "core L s2" "struct_inv s2" "same_control s1 s2"
    "bufs_ok (h_tasks s1) \<longrightarrow> bufs_ok (h_tasks s2)" "dom (h_tasks s2) = dom (h_tasks s1)"
    "done_kept (h_tasks s1) (h_tasks s2)"
    "\<forall>a. addr_used s2 a \<longrightarrow> addr_used s1 a \<or> a \<in> batch_addrs (\<lambda>i. envs (Suc i)) (length ts)"
    "(\<forall>i call. 0 \<le> uv_fs (envs (Suc i)) call) \<longrightarrow> uv_refused s2 = uv_refused s1" by blast
  have "\<forall>a. addr_used s2 a \<longrightarrow> addr_used s a \<or> a \<in> batch_addrs envs (length (t # ts))"
    using s2(8) f(1) by (auto simp: batch_addrs_Suc uses_only_def)
  moreover have "done_kept (h_tasks s) (h_tasks s2)"
    using f(3) s2(7) by (auto simp: tasks_frame_def intro: done_kept_trans)
  moreover have "(\<forall>i call. 0 \<le> uv_fs (envs i) call) \<longrightarrow> uv_refused s2 = uv_refused s"
    using f(4) s2(9) by (simp add: refused_frame_def)
  ultimately show ?case
    using s1(1) s2(1-6) same_control_trans [OF f(2) s2(4)] bufs_ok_frame [OF _ f(3)] tasks_frame_dom [OF f(3)] by simp
qed

lemma wind_down_ok:
  assumes "async s = Active" and "exit_on_signal s \<Longrightarrow> sig_int s = Active \<and> sig_term s = Active"
    and "shutdown_timer_started s \<Longrightarrow> shutdown_timer s = Active"
  shows "wind_down s = Inr (s\<lparr>async := Closed,
    sig_int := (if exit_on_signal s then Closed else sig_int s),
    sig_term := (if exit_on_signal s then Closed else sig_term s),
    shutdown_timer := (if shutdown_timer_started s then Closed else shutdown_timer s),
    shutdown_timer_started := False\<rparr>)"
  using assms by (simp add: wind_down_def uv_close_member_def)

text \<open>What the invariant does not look at.\<close>

lemma core_control:
  "core L (s\<lparr>async := a, sig_int := i, sig_term := j, shutdown_timer := m, shutdown_timer_started := b\<rparr>)
    \<longleftrightarrow> core L s"
  "core L (s\<lparr>async_sent := v\<rparr>) \<longleftrightarrow> core L s"
  by (auto intro: core_cong)

lemma struct_control:
  "struct_inv (s\<lparr>async := a, sig_int := i, sig_term := j, shutdown_timer := m, shutdown_timer_started := b\<rparr>)
    \<longleftrightarrow> struct_inv s"
  "struct_inv (s\<lparr>async_sent := v\<rparr>) \<longleftrightarrow> struct_inv s"
  "struct_inv (s\<lparr>queue := ts\<rparr>) \<longleftrightarrow> struct_inv s"
  by (simp_all add: struct_inv_def)

lemma ready_cong:
  assumes "h_streams s' = h_streams s" "h_listeners s' = h_listeners s" "h_processes s' = h_processes s"
    "h_watchers s' = h_watchers s" "uv_pending s' = uv_pending s"
  shows "ready s' tk = ready s tk"
  using assms by (cases "t_op tk") (simp_all add: ready_def client_stream_def unwaited_def)

lemma batch_ok_cong:
  assumes "h_streams s' = h_streams s" "h_listeners s' = h_listeners s" "h_processes s' = h_processes s"
    "h_watchers s' = h_watchers s" "uv_pending s' = uv_pending s" "h_tasks s' = h_tasks s"
  shows "batch_ok ts s' = batch_ok ts s"
  using assms by (simp add: batch_ok_def task_of_def ready_cong [OF assms(1-5)])

lemma Drain_ok:
  assumes c: "core {#} s" and i: "struct_inv s" and b: "batch_ok (queue s) s" and e: "fresh_envs envs (length (queue s)) s"
    and a: "async s = Active" "exit_on_signal s \<longrightarrow> sig_int s = Active \<and> sig_term s = Active"
      "shutdown_timer_started s \<longrightarrow> shutdown_timer s = Active"
  shows "\<exists>s'. Drain envs s = Inr s' \<and> core {#} s' \<and> struct_inv s' \<and> queue s' = []
    \<and> (if stopping s then async s' = Closed \<and> \<not> shutdown_timer_started s'
         \<and> (exit_on_signal s' \<longrightarrow> sig_int s' = Closed \<and> sig_term s' = Closed)
       else same_control (s\<lparr>queue := []\<rparr>) s')
    \<and> running s' = running s \<and> stopping s' = stopping s \<and> exit_code s' = exit_code s
    \<and> (bufs_ok (h_tasks s) \<longrightarrow> bufs_ok (h_tasks s')) \<and> dom (h_tasks s') = dom (h_tasks s)
    \<and> done_kept (h_tasks s) (h_tasks s') \<and> (\<forall>a. addr_used s' a \<longrightarrow> addr_used s a \<or> a \<in> batch_addrs envs (length (queue s)))
    \<and> (stopping s \<longrightarrow> exit_on_signal s' = exit_on_signal s
         \<and> (\<not> exit_on_signal s \<longrightarrow> sig_int s' = sig_int s \<and> sig_term s' = sig_term s)
         \<and> (shutdown_timer s' = Active \<longrightarrow> shutdown_timer s = Active \<and> \<not> shutdown_timer_started s))
    \<and> ((\<forall>i call. 0 \<le> uv_fs (envs i) call) \<longrightarrow> uv_refused s' = uv_refused s)"
proof -
  let ?s0 = "s\<lparr>queue := []\<rparr>"
  have c0: "core (mset (queue s) + {#}) ?s0" by (rule core_queue_upd [OF c]) simp
  have b0: "batch_ok (queue s) ?s0" using b batch_ok_cong [of ?s0 s] by simp
  have e0: "fresh_envs envs (length (queue s)) ?s0" using e by (simp add: fresh_envs_def fresh_def addr_used_def)
  have i0: "struct_inv ?s0" using i by (simp add: struct_control)
  from dispatch_all_ok [OF c0 i0 b0 e0] obtain s1 where s1:
    "dispatch_all envs (queue s) ?s0 = Inr s1" "core {#} s1" "struct_inv s1" "same_control ?s0 s1"
    "bufs_ok (h_tasks ?s0) \<longrightarrow> bufs_ok (h_tasks s1)" "dom (h_tasks s1) = dom (h_tasks ?s0)"
    "done_kept (h_tasks ?s0) (h_tasks s1)"
    "\<forall>a. addr_used ?s0 a \<or> a \<in> batch_addrs envs (length (queue s)) \<or> \<not> addr_used s1 a"
    "(\<forall>i call. 0 \<le> uv_fs (envs i) call) \<longrightarrow> uv_refused s1 = uv_refused ?s0" by blast
  have r: "(\<forall>i call. 0 \<le> uv_fs (envs i) call) \<longrightarrow> uv_refused s1 = uv_refused s" using s1(9) by simp
  have u: "\<forall>a. addr_used s1 a \<longrightarrow> addr_used s a \<or> a \<in> batch_addrs envs (length (queue s))"
    using s1(8) by (auto simp: addr_used_def)
  have k: "async s1 = Active" "exit_on_signal s1 \<Longrightarrow> sig_int s1 = Active \<and> sig_term s1 = Active"
    "shutdown_timer_started s1 \<Longrightarrow> shutdown_timer s1 = Active" "stopping s1 = stopping s" "queue s1 = []"
    "running s1 = running s" "exit_code s1 = exit_code s"
    using s1(4) a by (simp_all add: same_control_def)
  have g: "exit_on_signal s1 = exit_on_signal s" "sig_int s1 = sig_int s" "sig_term s1 = sig_term s"
    "shutdown_timer s1 = shutdown_timer s" "shutdown_timer_started s1 = shutdown_timer_started s"
    using s1(4) by (simp_all add: same_control_def)
  show ?thesis
  proof (cases "stopping s")
    case True
    then show ?thesis using s1(1-3,5-7) u r k g wind_down_ok [OF k(1-3)]
      by (simp add: Drain_def core_control struct_control addr_used_def)
  next
    case False
    then show ?thesis using s1(1-7) u r k by (simp add: Drain_def)
  qed
qed

end
