(* ===== verification/Events.thy ===== *)
theory Events
  imports Dispatching
begin

text \<open>
  What libuv may do next (\<open>uv_event\<close>, \<open>enabled\<close>) and what the runtime does then
  (\<open>fire\<close>): one event per callback the program registers. \<open>enabled\<close> is libuv's side of
  the contract: a request calls back once, a read callback comes only on a stream that is
  being read and brings at most as many bytes as the buffer holds, no callback comes on a
  handle after \<open>uv_close\<close> except the close callback, which comes after the callbacks of the
  handle's requests.

  For every event, the callback runs without a fault and keeps ownership and the handle
  invariant.
\<close>

section \<open>Definitions\<close>

text \<open>libuv stores the bytes it has read in the buffer it was given.\<close>

definition uv_fill :: "iobuf \<Rightarrow> byte list \<Rightarrow> runtime \<Rightarrow> fault + runtime" where
  "uv_fill b data s = (case b of
       TaskBuf t \<Rightarrow> sbind (deref (h_tasks s) t) (\<lambda>tk.
         if length data \<le> length (t_buffer tk)
         then Inr (put_task t (tk\<lparr>t_buffer := data @ drop (length data) (t_buffer tk)\<rparr>) s)
         else Inl BufferOverrun)
     | ExtBuf a \<Rightarrow> Inr (s\<lparr>ext_mem := (\<lambda>c. if unat (c - a) < length data
         then data ! unat (c - a) else ext_mem s c)\<rparr>))"

text \<open>A read: the buffer is asked for, filled, and the read callback runs.\<close>

definition deliver_read :: "addr \<Rightarrow> byte list \<Rightarrow> runtime \<Rightarrow> fault + runtime" where
  "deliver_read x data s = sbind (on_alloc x s) (\<lambda>(b, n).
     case b of None \<Rightarrow> Inr s
     | Some buf \<Rightarrow> sbind (uv_fill buf data s) (on_read x (int (length data))))"

definition deliver_fs :: "addr \<Rightarrow> fs_call \<Rightarrow> uv_fs_outcome \<Rightarrow> runtime \<Rightarrow> fault + runtime" where
  "deliver_fs t call q s = (case call of
       UvFsRead fd buf n off \<Rightarrow> sbind (uv_fill buf (fr_data q) s) (on_fs_done t q)
     | _ \<Rightarrow> on_fs_done t q s)"

datatype uv_event =
    EvTimer addr "64 word"
  | EvTimerClosed addr
  | EvFs addr fs_call uv_fs_outcome
  | EvConnect addr addr int
  | EvConnection uv_env addr int
  | EvRead addr "byte list"
  | EvReadEnd addr int
  | EvWrite addr addr iobuf "32 word" int
  | EvAddrInfo uv_env addr string "string option" ai_family int "(ai_family \<times> byte list) list"
  | EvFsEvent addr "string option" int int
  | EvExit addr int int
  | EvStreamClosed addr
  | EvListenerClosed addr
  | EvProcessClosed addr
  | EvWatcherClosed addr

definition unpend :: "uv_req \<Rightarrow> runtime \<Rightarrow> runtime" where
  "unpend q s = s\<lparr>uv_pending := remove1 q (uv_pending s)\<rparr>"

fun fire :: "uv_event \<Rightarrow> runtime \<Rightarrow> fault + runtime" where
  "fire (EvTimer t ms) s = on_timer t (unpend (TimerReq t ms) s)"
| "fire (EvTimerClosed t) s = on_timer_closed t (unpend (TimerClosing t) s)"
| "fire (EvFs t call q) s = deliver_fs t call q (unpend (FsReq t call) s)"
| "fire (EvConnect t x status) s = on_connect t status (unpend (ConnectReq t x) s)"
| "fire (EvConnection env l status) s = on_connection env l status s"
| "fire (EvRead x data) s = deliver_read x data s"
| "fire (EvReadEnd x nread) s = on_read x nread s"
| "fire (EvWrite t x b n status) s = on_write t status (unpend (WriteReq t x b n) s)"
| "fire (EvAddrInfo env t n v f status res) s =
     on_getaddrinfo env t status res (unpend (AddrReq t n v f) s)"
| "fire (EvFsEvent w filename events status) s = on_fs_event w filename events status s"
| "fire (EvExit p exit_status term_signal) s = on_process_exit p exit_status term_signal s"
| "fire (EvStreamClosed x) s = Stream_OnClosed x s"
| "fire (EvListenerClosed l) s = Listener_OnClosed l s"
| "fire (EvProcessClosed p) s = Process_OnClosed p s"
| "fire (EvWatcherClosed w) s = Watcher_OnClosed w s"

definition closing_in :: "(addr \<rightharpoonup> 'a loop_handle_scheme) \<Rightarrow> addr \<Rightarrow> bool" where
  "closing_in m a = (case m a of None \<Rightarrow> False | Some h \<Rightarrow> uv_closing h)"

definition reading_in :: "runtime \<Rightarrow> addr \<Rightarrow> bool" where
  "reading_in s x = (case h_streams s x of None \<Rightarrow> False | Some st \<Rightarrow> uv_reading st \<and> \<not> uv_closing st)"

fun enabled :: "uv_event \<Rightarrow> runtime \<Rightarrow> bool" where
  "enabled (EvTimer t ms) s = (TimerReq t ms \<in> set (uv_pending s))"
| "enabled (EvTimerClosed t) s = (TimerClosing t \<in> set (uv_pending s))"
| "enabled (EvFs t call q) s = (FsReq t call \<in> set (uv_pending s)
     \<and> (case call of UvFsRead fd buf n off \<Rightarrow> length (fr_data q) \<le> unat n | _ \<Rightarrow> True))"
| "enabled (EvConnect t x status) s = (ConnectReq t x \<in> set (uv_pending s))"
| "enabled (EvConnection env l status) s =
     (open_in (h_listeners s) l \<and> env_ok env \<and> fresh env s)"
| "enabled (EvRead x data) s = (reading_in s x \<and> data \<noteq> []
     \<and> (case on_alloc x s of Inr (Some b, n) \<Rightarrow> length data \<le> unat n | _ \<Rightarrow> False))"
| "enabled (EvReadEnd x nread) s = (reading_in s x \<and> nread \<le> 0)"
| "enabled (EvWrite t x b n status) s = (WriteReq t x b n \<in> set (uv_pending s))"
| "enabled (EvAddrInfo env t n v f status res) s = (AddrReq t n v f \<in> set (uv_pending s))"
| "enabled (EvFsEvent w filename events status) s = open_in (h_watchers s) w"
| "enabled (EvExit p exit_status term_signal) s =
     (case h_processes s p of None \<Rightarrow> False | Some po \<Rightarrow> \<not> uv_closing po \<and> \<not> p_exited po)"
| "enabled (EvStreamClosed x) s = closing_in (h_streams s) x"
| "enabled (EvListenerClosed l) s = closing_in (h_listeners s) l"
| "enabled (EvProcessClosed p) s = closing_in (h_processes s) p"
| "enabled (EvWatcherClosed w) s = closing_in (h_watchers s) w"

text \<open>A task that conflicts with no other, for callbacks that are no client operation.\<close>

abbreviation quiet :: task where
  "quiet \<equiv> Task_ctor Timer"

text \<open>The event went well; its frame is relative to the state before it.\<close>

definition event_ok :: "runtime \<Rightarrow> fault + runtime \<Rightarrow> bool" where
  "event_ok s m \<longleftrightarrow> (\<exists>s' t. m = Inr s' \<and> core {#} s' \<and> struct_inv s' \<and> tasks_frame t s s'
     \<and> (t = nullptr \<or> t \<notin> set (queue s)) \<and> keeps_handles quiet s s' \<and> same_control s s')"

section \<open>Events on a request\<close>

text \<open>Taking the request out of libuv puts its task into the hands of the callback.\<close>

lemma unpend_core:
  assumes "core {#} s" and "q \<in> set (uv_pending s)"
  shows "core {#req_task q#} (unpend q s)"
proof -
  have "image_mset req_task (mset (uv_pending s))
      = image_mset req_task (add_mset q (mset (remove1 q (uv_pending s))))"
    using assms(2) by simp
  then show ?thesis unfolding unpend_def by (intro core_pending_upd [OF assms(1)]) simp
qed

lemma unpend_simps [simp]:
  "h_tasks (unpend q s) = h_tasks s" "h_streams (unpend q s) = h_streams s"
  "h_listeners (unpend q s) = h_listeners s" "h_processes (unpend q s) = h_processes s"
  "h_watchers (unpend q s) = h_watchers s" "uv_pending (unpend q s) = remove1 q (uv_pending s)"
  "queue (unpend q s) = queue s" "reading_streams (unpend q s) = reading_streams s"
  "listeners (unpend q s) = listeners s" "ext_mem (unpend q s) = ext_mem s"
  by (simp_all add: unpend_def)

lemma internal_unpend:
  assumes "q \<in> set pend"
  shows "internal_of hl (remove1 q pend) \<subseteq># internal_of hl pend"
  using internal_of_remove1 [OF assms, of hl] by simp

lemma unpend_struct:
  assumes i: "struct_inv s" and q: "q \<in> set (uv_pending s)"
  shows "struct_inv (unpend q s)"
proof -
  note d = struct_invD [OF i]
  have "internal_ok (h_streams s) (h_listeners s) (remove1 q (uv_pending s))"
    by (rule internal_ok_mono [OF d(6) internal_unpend [OF q]]) simp
  moreover have "reqs_ok (h_tasks s) (remove1 q (uv_pending s))"
    using d(7) set_remove1_subset [of q "uv_pending s"] by (auto simp: reqs_ok_def)
  ultimately show ?thesis using d by (simp add: struct_inv_def)
qed

lemma unpend_keeps:
  assumes q: "q \<in> set (uv_pending s)" and k: "keeps_handles tk (unpend q s) s'"
  shows "keeps_handles tk s s'"
proof -
  have "client_stream (unpend q s) x" if "client_stream s x" for x
    using that mset_subset_eqD [OF internal_unpend [OF q]] by (auto simp: client_stream_def)
  then show ?thesis using k by (simp add: keeps_handles_def unwaited_def)
qed

lemma request_event:
  assumes c: "core {#} s" and i: "struct_inv s" and q: "q \<in> set (uv_pending s)"
    and g: "goes_well env (req_task q) quiet {#} (unpend q s) m"
  shows "event_ok s m"
proof -
  obtain s' where s': "m = Inr s'" "core {#} s'" "struct_inv s'"
    "tasks_frame (req_task q) (unpend q s) s'" "keeps_handles quiet (unpend q s) s'"
    "same_control (unpend q s) s'"
    using g by (auto simp: goes_well_def op_frame_def)
  have "req_task q \<notin># held (unpend q s)" using core_unique(1) unpend_core [OF c q] by blast
  then have "req_task q \<notin> set (queue s)" by (auto simp: held_def)
  moreover have "tasks_frame (req_task q) s s'" using s'(4) by (simp add: tasks_frame_def)
  moreover have "same_control s s'" using s'(6) by (simp add: same_control_def unpend_def)
  ultimately show ?thesis using s'(1-3) unpend_keeps [OF q s'(5)] by (auto simp: event_ok_def)
qed

lemma callback_base:
  assumes "core {#} s" and "struct_inv s" and "q \<in> set (uv_pending s)"
  shows "base (req_task q) (unpend q s)"
  by (rule base_local [OF unpend_core unpend_struct]) (use assms in auto)

lemma callback_task:
  assumes "core {#} s" and "q \<in> set (uv_pending s)"
  obtains tk where "h_tasks s (req_task q) = Some tk" and "h_tasks (unpend q s) (req_task q) = Some tk"
  using core_local_task [OF unpend_core [OF assms]] by (metis unpend_simps(1))

lemma EvTimer_ok:
  assumes c: "core {#} s" and i: "struct_inv s" and e: "enabled (EvTimer t ms) s"
  shows "event_ok s (fire (EvTimer t ms) s)"
proof -
  let ?q = "TimerReq t ms"
  have q: "?q \<in> set (uv_pending s)" using e by simp
  obtain tk where tk: "h_tasks (unpend ?q s) t = Some tk" using callback_task [OF c q] by auto
  have c1: "core {#t#} (unpend ?q s)" using unpend_core [OF c q] by simp
  note r = uv_request_core [OF c1 req_task.simps(2)]
  have b: "base t (unpend ?q s)" using callback_base [OF c i q] by simp
  have "goes_well env t quiet {#} (unpend ?q s) (on_timer t (unpend ?q s))" for env
    by (rule step_request [OF b _ r(1,2)])
      (use tk r(3) in \<open>simp_all add: on_timer_def tasks_frame_refl reqs_ok_def\<close>)
  then show ?thesis using request_event [OF c i q] by simp
qed

text \<open>A callback that only completes its task.\<close>

lemma completing_event:
  assumes c: "core {#} s" and i: "struct_inv s" and q: "q \<in> set (uv_pending s)"
    and m: "m = Inr s'" "core {#} s'" "same_handles (unpend q s) s'"
    and fr: "tasks_frame (req_task q) (unpend q s) s'"
  shows "event_ok s m"
  using request_event [OF c i q] step_complete [OF callback_base [OF c i q] m fr] by blast

lemma EvTimerClosed_ok:
  assumes c: "core {#} s" and i: "struct_inv s" and e: "enabled (EvTimerClosed t) s"
  shows "event_ok s (fire (EvTimerClosed t) s)"
proof -
  let ?q = "TimerClosing t"
  have q: "?q \<in> set (uv_pending s)" using e by simp
  have c1: "core (add_mset t {#}) (unpend ?q s)" using unpend_core [OF c q] by simp
  from Complete_core [OF c1, of 0] obtain s' where s': "Complete t 0 (unpend ?q s) = Inr s'" "core {#} s'"
    "same_handles (unpend ?q s) s'" "h_tasks s' = done_with [t] 0 (h_tasks (unpend ?q s))" by auto
  show ?thesis
    by (rule completing_event [OF c i q _ s'(2,3) tasks_frame_done [OF s'(4) owned_undone [OF c1]]])
      (use s'(1) in \<open>simp add: on_timer_closed_def\<close>)
qed

lemma EvWrite_ok:
  assumes c: "core {#} s" and i: "struct_inv s" and e: "enabled (EvWrite t x b n status) s"
  shows "event_ok s (fire (EvWrite t x b n status) s)"
proof -
  let ?q = "WriteReq t x b n"
  have q: "?q \<in> set (uv_pending s)" using e by simp
  obtain tk where tk: "h_tasks (unpend ?q s) t = Some tk" using callback_task [OF c q] by auto
  have c1: "core (add_mset t {#}) (unpend ?q s)" using unpend_core [OF c q] by simp
  from on_write_ok [OF c1 tk, of status] obtain s' where s': "on_write t status (unpend ?q s) = Inr s'"
    "core {#} s'" "same_handles (unpend ?q s) s'"
    "h_tasks s' = done_with [t] (if status < 0 then status else uint (t_nbytes tk)) (h_tasks (unpend ?q s))"
    by blast
  show ?thesis
    by (rule completing_event [OF c i q _ s'(2,3) tasks_frame_done [OF s'(4) owned_undone [OF c1]]]) (use s'(1) in simp)
qed

lemma EvAddrInfo_ok:
  assumes c: "core {#} s" and i: "struct_inv s" and e: "enabled (EvAddrInfo env t n v f status res) s"
  shows "event_ok s (fire (EvAddrInfo env t n v f status res) s)"
proof -
  let ?q = "AddrReq t n v f"
  have q: "?q \<in> set (uv_pending s)" using e by simp
  obtain tk where tk: "h_tasks (unpend ?q s) t = Some tk" using callback_task [OF c q] by auto
  have c1: "core (add_mset t {#}) (unpend ?q s)" using unpend_core [OF c q] by simp
  define tk' where "tk' = (if status \<noteq> 0 then completed status tk
    else completed (if collect_names env res (t_names tk) = [] then UV_EAI_NONAME else 0)
      (resolved (collect_names env res (t_names tk)) tk))"
  from on_getaddrinfo_ok [OF c1 tk refl, of env status res] obtain s' where s':
    "on_getaddrinfo env t status res (unpend ?q s) = Inr s'" "core {#} s'" "same_handles (unpend ?q s) s'"
    "h_tasks s' = (h_tasks (unpend ?q s))(t \<mapsto> tk')"
    by (auto simp: tk'_def)
  have "shape tk' = shape tk" by (simp add: tk'_def shape_def resolved_def)
  then show ?thesis
    by (intro completing_event [OF c i q _ s'(2,3)])
      (use s'(1,4) tk owned_not_done [OF c1 tk] in \<open>auto intro: tasks_frame_upd\<close>)
qed

subsection \<open>File reads\<close>

text \<open>
  Filling the buffer of a task changes its bytes, not its shape, and nothing else the
  invariants look at.
\<close>

definition filled :: "byte list \<Rightarrow> task \<Rightarrow> task" where
  "filled data tk = (if t_ext_data tk \<noteq> nullptr then tk
     else tk\<lparr>t_buffer := data @ drop (length data) (t_buffer tk)\<rparr>)"

lemma filled_simps [simp]:
  "t_op (filled d tk) = t_op tk" "t_done (filled d tk) = t_done tk" "t_cq (filled d tk) = t_cq tk"
  "t_pinned_obj (filled d tk) = t_pinned_obj tk" "t_stream (filled d tk) = t_stream tk"
  "t_ext_data (filled d tk) = t_ext_data tk" "t_nbytes (filled d tk) = t_nbytes tk"
  by (simp_all add: filled_def)

lemma uv_fill_ok:
  assumes c: "core L s" and t: "h_tasks s t = Some tk"
    and n: "t_ext_data tk = nullptr \<Longrightarrow> length data \<le> length (t_buffer tk)"
  shows "\<exists>e. uv_fill (task_data t tk) data s = Inr (s\<lparr>h_tasks := (h_tasks s)(t \<mapsto> filled data tk), ext_mem := e\<rparr>)
    \<and> core L (s\<lparr>h_tasks := (h_tasks s)(t \<mapsto> filled data tk), ext_mem := e\<rparr>) \<and> shape (filled data tk) = shape tk"
proof -
  have e: "core L (s\<lparr>h_tasks := (h_tasks s)(t \<mapsto> filled data tk), ext_mem := e\<rparr>)" for e
    by (rule core_cong [OF core_put_task [OF c t, of "filled data tk"]])
      (simp_all add: put_task_def)
  have sh: "shape (filled data tk) = shape tk" using n by (simp add: shape_def filled_def)
  show ?thesis
  proof (cases "t_ext_data tk = nullptr")
    case True
    have u: "s\<lparr>h_tasks := m, ext_mem := ext_mem s\<rparr> = s\<lparr>h_tasks := m\<rparr>" for m by simp
    show ?thesis using True e [of "ext_mem s"] sh t n
      by (intro exI [of _ "ext_mem s"]) (simp add: uv_fill_def task_data_def put_task_def filled_def)
  next
    case False
    then have k: "filled data tk = tk" by (simp add: filled_def)
    show ?thesis using False e sh t
      by (auto simp: uv_fill_def task_data_def k fun_upd_idem)
  qed
qed

lemma goes_well_filled:
  assumes t: "h_tasks s t = Some tk" "\<not> t_done tk" "shape tk1 = shape tk"
    and g: "goes_well env t q L (s\<lparr>h_tasks := (h_tasks s)(t \<mapsto> tk1), ext_mem := e\<rparr>) m"
  shows "goes_well env t q L s m"
proof -
  let ?s1 = "s\<lparr>h_tasks := (h_tasks s)(t \<mapsto> tk1), ext_mem := e\<rparr>"
  obtain s' where s': "m = Inr s'" "core L s'" "struct_inv s'" "tasks_frame t ?s1 s'"
    "keeps_handles q ?s1 s'" "same_control ?s1 s'" "uses_only env ?s1 s'" "refused_frame env ?s1 s'"
    using g by (auto simp: goes_well_def op_frame_def)
  have "done_kept ((h_tasks s)(t \<mapsto> tk1)) (h_tasks s')" using s'(4) by (simp add: tasks_frame_def)
  then have "done_kept (h_tasks s) (h_tasks s')" using t(1,2) unfolding done_kept_def
    by (metis fun_upd_other option.inject)
  then have "tasks_frame t s s'" using s'(4) t by (simp add: tasks_frame_def)
  moreover have "keeps_handles q s s'" using s'(5)
    by (simp add: keeps_handles_def client_stream_def unwaited_def)
  moreover have "same_control s s'" using s'(6) by (simp add: same_control_def)
  moreover have "uses_only env s s'" using s'(7) by (simp add: uses_only_def addr_used_def)
  moreover have "refused_frame env s s'" using s'(8) by (simp add: refused_frame_def)
  ultimately show ?thesis using s'(1-3) goes_wellI by blast
qed

lemma base_filled:
  assumes "base t s"
  shows "base t (s\<lparr>h_tasks := (h_tasks s)(t \<mapsto> tk1), ext_mem := e\<rparr>)"
proof -
  note b = baseD [OF assms]
  have "reqs_ok ((h_tasks s)(t \<mapsto> tk1)) (uv_pending s)"
    using struct_invD(7) [OF b(2)] b(1)
    by (auto simp: reqs_ok_def req_good_cong [of "(h_tasks s)(t \<mapsto> tk1)" _ "h_tasks s"])
  then show ?thesis using b by (simp add: base_def struct_inv_def)
qed

lemma on_fs_done_step:
  assumes b: "base t s" and c: "core {#t#} s" and t: "h_tasks s t = Some tk"
  shows "goes_well env t quiet {#} s (on_fs_done t q s)"
proof -
  obtain s' where s': "on_fs_done t q s = Inr s'" "core {#} s'" "same_handles s s'"
    "h_tasks s' = (h_tasks s)(t \<mapsto> completed (fr_result q) (fs_result q tk))"
    using on_fs_done_ok [of t "{#}" s tk q] c t by auto
  have "shape (completed (fr_result q) (fs_result q tk)) = shape tk"
    by (simp add: shape_def fs_result_def split: Op.splits)
  then show ?thesis using step_complete [OF b s'(1-3) tasks_frame_upd [OF t owned_not_done [OF c t] _ s'(4)]] by blast
qed

lemma EvFs_ok:
  assumes c: "core {#} s" and i: "struct_inv s" and bf: "bufs_ok (h_tasks s)"
    and e: "enabled (EvFs t call q) s"
  shows "event_ok s (fire (EvFs t call q) s)"
proof -
  let ?q = "FsReq t call" let ?s = "unpend ?q s"
  have q: "?q \<in> set (uv_pending s)" using e by simp
  have c1: "core {#t#} ?s" using unpend_core [OF c q] by simp
  have b: "base t ?s" using callback_base [OF c i q] by simp
  obtain tk where tk: "h_tasks s t = Some tk" "h_tasks ?s t = Some tk" using callback_task [OF c q] by auto
  have "goes_well env t quiet {#} ?s (deliver_fs t call q ?s)" for env
  proof (cases "\<exists>fd buf n off. call = UvFsRead fd buf n off")
    case False
    then have "deliver_fs t call q ?s = on_fs_done t q ?s" by (cases call) (simp_all add: deliver_fs_def)
    then show ?thesis using on_fs_done_step [OF b c1 tk(2)] by simp
  next
    case True
    then obtain fd buf n off where call: "call = UvFsRead fd buf n off" by blast
    have "req_good (h_tasks s) ?q" using struct_invD(7) [OF i] q by (auto simp: reqs_ok_def)
    then have g: "t_op tk = FsRead" "buf = task_data t tk" "n = t_nbytes tk" using call tk by auto
    have "length (fr_data q) \<le> length (t_buffer tk)" if "t_ext_data tk = nullptr"
    proof -
      have "unat (t_nbytes tk) \<le> length (t_buffer tk)" using bf tk that by (simp add: bufs_ok_def)
      then show ?thesis using e call g by simp
    qed
    then obtain em where f: "uv_fill buf (fr_data q) ?s
        = Inr (?s\<lparr>h_tasks := (h_tasks ?s)(t \<mapsto> filled (fr_data q) tk), ext_mem := em\<rparr>)"
      "core {#t#} (?s\<lparr>h_tasks := (h_tasks ?s)(t \<mapsto> filled (fr_data q) tk), ext_mem := em\<rparr>)"
      "shape (filled (fr_data q) tk) = shape tk"
      using uv_fill_ok [OF c1 tk(2), of "fr_data q"] g(2) by blast
    have "deliver_fs t call q ?s
        = on_fs_done t q (?s\<lparr>h_tasks := (h_tasks ?s)(t \<mapsto> filled (fr_data q) tk), ext_mem := em\<rparr>)"
      using f(1) by (simp add: deliver_fs_def call)
    moreover have "goes_well env t quiet {#} ?s
        (on_fs_done t q (?s\<lparr>h_tasks := (h_tasks ?s)(t \<mapsto> filled (fr_data q) tk), ext_mem := em\<rparr>))"
      by (rule goes_well_filled [OF tk(2) owned_not_done [OF c1 tk(2)] f(3) on_fs_done_step [OF base_filled [OF b] f(2)]]) simp
    ultimately show ?thesis by simp
  qed
  then show ?thesis using request_event [OF c i q] by simp
qed

section \<open>Connections\<close>

lemma EvConnect_ok:
  assumes c: "core {#} s" and i: "struct_inv s" and e: "enabled (EvConnect t x status) s"
  shows "event_ok s (fire (EvConnect t x status) s)"
proof -
  let ?q = "ConnectReq t x" let ?s = "unpend ?q s"
  have q: "?q \<in> set (uv_pending s)" using e by simp
  note d = struct_invD [OF i] and u = struct_invD [OF unpend_struct [OF i q]]
  have c1: "core (add_mset t {#}) ?s" using unpend_core [OF c q] by simp
  have nr: "\<forall>r \<in> set (uv_pending ?s). req_task r \<noteq> t" using local_no_request [OF c1] .
  have "t \<notin># held ?s" using core_unique(1) [OF c1] .
  then have tq: "t \<notin> set (queue s)" by (auto simp: held_def)
  obtain tk where tk: "h_tasks ?s t = Some tk" "t_stream tk = x"
  proof -
    have "req_good (h_tasks s) ?q" using d(7) q by (auto simp: reqs_ok_def)
    then show ?thesis using that by (auto split: option.splits)
  qed
  have int: "internal_of (h_listeners s) (uv_pending s)
      = add_mset x (internal_of (h_listeners s) (remove1 ?q (uv_pending s)))"
    using internal_of_remove1 [OF q, of "h_listeners s"] by simp
  have "x \<in># internal_of (h_listeners s) (uv_pending s)" unfolding int by simp
  then obtain st where st: "h_streams s x = Some st" "\<not> uv_closing st" "s_read_queue st = []"
    by (rule internal_ok_open [OF d(6)])
  have "count (internal_of (h_listeners s) (uv_pending s)) x \<le> 1" using d(6) by (simp add: internal_ok_def)
  then have xo: "x \<notin># internal_of (h_listeners s) (remove1 ?q (uv_pending s))"
    by (simp add: int not_in_iff)
  have "h_streams ?s x = Some st" using st by simp
  from on_connect_ok [OF c1 tk this st(2) close_slotsD [OF d(2) st(1,2)], of status] obtain s' where s':
    "on_connect t status ?s = Inr s'" "core {#} s'"
    "h_streams s' = (h_streams s)(x \<mapsto> (if status < 0 then st\<lparr>uv_closing := True\<rparr> else st))"
    "same_handles (?s\<lparr>h_streams := h_streams s'\<rparr>) s'"
    and ht: "h_tasks s' = (h_tasks s)(t \<mapsto> (if status < 0 then completed status (tk\<lparr>t_stream := nullptr\<rparr>)
        else completed (as_result x) tk))" by auto
  have f: "h_listeners s' = h_listeners s" "h_processes s' = h_processes s" "h_watchers s' = h_watchers s"
    "listeners s' = listeners s" "reading_streams s' = reading_streams s"
    "uv_pending s' = remove1 ?q (uv_pending s)"
    using same_handles_fields [OF s'(4)] by simp_all
  have fr: "tasks_frame t ?s s'"
    by (rule tasks_frame_upd [OF tk(1) owned_not_done [OF c1 tk(1)]]) (use ht in \<open>auto simp: shape_def\<close>)
  have rq: "reqs_ok (h_tasks s') (uv_pending ?s)" by (rule reqs_ok_frame [OF u(7) fr nr])
  have na: "\<not> s_read_active st" using reads_okD(1) [OF d(1) st(1)] st(3) by simp
  have ro: "reads_ok (h_streams s') (reading_streams s)"
    using d(1) reads_ok_close [OF d(1) st(1) na, of "close_task st"] st(1) s'(3) by (auto simp: fun_upd_idem)
  have cs: "close_slots_ok (h_streams s')" unfolding s'(3)
    by (rule close_slots_upd [OF d(2)]) (use close_slotsD [OF d(2) st(1,2)] in auto)
  have "internal_ok (h_streams s') (h_listeners s) (remove1 ?q (uv_pending s))"
    by (rule internal_ok_mono [OF u(6), simplified]) (use xo s'(3) in auto)
  then have "struct_inv s'" using d ro cs rq by (simp add: struct_inv_def f)
  moreover have "keeps_handles quiet s s'"
    by (rule keeps_handles_streams) (auto simp: f client_stream_def s'(3) open_in_upd int)
  moreover have "tasks_frame t s s'" using fr by (simp add: tasks_frame_def)
  moreover have "same_control s s'" using same_handles_control [OF s'(4)]
    by (simp add: same_control_def unpend_def)
  ultimately show ?thesis using s'(1,2) tq by (auto simp: event_ok_def)
qed

lemma EvConnection_ok:
  assumes c: "core {#} s" and i: "struct_inv s" and e: "enabled (EvConnection env l status) s"
  shows "event_ok s (fire (EvConnection env l status) s)"
proof -
  note d = struct_invD [OF i]
  let ?x = "new_addr env 0"
  have e': "open_in (h_listeners s) l" "fresh env s" using e by simp_all
  obtain lo where lo: "h_listeners s l = Some lo" "\<not> uv_closing lo" using e'(1) by (auto simp: open_in_def)
  note xn = fresh_addr(1) [OF e'(2)] fresh_addr(5) [OF e'(2)]
  have b: "base nullptr s" by (rule base_null [OF c i])
  consider "status < 0" | "\<not> status < 0" "uv_accept env \<noteq> 0" | "\<not> status < 0" "uv_accept env = 0" by blast
  then show ?thesis
  proof cases
    case 1
    then have m: "fire (EvConnection env l status) s = Inr s" using lo by (simp add: on_connection_def)
    show ?thesis using c i unfolding event_ok_def m
      by (intro exI [of _ s] exI [of _ nullptr]) (simp add: tasks_frame_refl keeps_handles_refl)
  next
    case 2
    obtain s' where s': "on_connection env l status s = Inr s'" "core {#} s'"
      "h_streams s' = (h_streams s)(?x \<mapsto> Stream_ctor\<lparr>uv_closing := True\<rparr>)"
      "same_handles (s\<lparr>h_streams := h_streams s'\<rparr>) s'" "h_tasks s' = h_tasks s"
      using on_connection_rejects [OF c lo(1) 2(1) refl xn 2(2)] by blast
    have pd: "uv_pending s' = uv_pending s" using same_handles_fields [OF s'(4)] by simp
    have sh: "same_handles (s\<lparr>h_streams := h_streams s', uv_pending := uv_pending s'\<rparr>) s'"
      using s'(4) pd by (simp add: same_handles_def)
    have "goes_well env nullptr quiet {#} s (Inr s')"
      by (rule step_new_stream [OF b e'(2) refl s'(2) sh new_addrs_mem(1) s'(3)])
        (use pd s'(5) in \<open>simp_all add: tasks_frame_refl\<close>)
    then show ?thesis using s'(1) by (auto simp: event_ok_def goes_well_def op_frame_def)
  next
    case 3
    obtain s' lo' where s': "on_connection env l status s = Inr s'" "core {#} s'"
      "h_streams s' = (h_streams s)(?x \<mapsto> Stream_ctor)" "h_listeners s' = (h_listeners s)(l \<mapsto> lo')"
      "same_handles (s\<lparr>h_listeners := h_listeners s', h_streams := h_streams s'\<rparr>) s'"
      and o: "l_pending_accepts lo = [] \<and> lo' = lo\<lparr>l_accepted := l_accepted lo @ [?x]\<rparr>
          \<and> h_tasks s' = h_tasks s
       \<or> (\<exists>t ts. l_pending_accepts lo = t # ts \<and> lo' = lo\<lparr>l_pending_accepts := ts\<rparr>
          \<and> h_tasks s' = done_with [t] (as_result ?x) (h_tasks s))"
      using on_connection_accepts [OF c lo(1) 3(1) refl xn 3(2)] by blast
    have f: "h_processes s' = h_processes s" "h_watchers s' = h_watchers s" "listeners s' = listeners s"
      "reading_streams s' = reading_streams s" "uv_pending s' = uv_pending s"
      using same_handles_fields [OF s'(5)] by simp_all
    have fr: "tasks_frame nullptr s s'"
      using o tasks_frame_done [of s' _ _ s nullptr] acceptors_undone [OF c lo(1)] tasks_frame_refl by fastforce
    have rq: "reqs_ok (h_tasks s') (uv_pending s)" by (rule reqs_ok_frame [OF d(7) fr null_no_request [OF c]])
    have lok: "listeners_ok (h_listeners s') (listeners s)" unfolding s'(4)
      by (rule listeners_ok_upd [OF d(3) lo(1)]) (use o lo listeners_okD(1,5) [OF d(3) lo(1)] in auto)
    have "mset (l_accepted lo) + internal_of (h_listeners s') (uv_pending s)
        = mset (l_accepted lo') + internal_of (h_listeners s) (uv_pending s)"
      unfolding s'(4) by (rule internal_of_listener [OF core_finite(4) [OF c] lo(1)])
    then have int: "internal_of (h_listeners s') (uv_pending s)
        = (if l_pending_accepts lo = [] then {#?x#} else {#}) + internal_of (h_listeners s) (uv_pending s)"
      using o by (auto simp: ac_simps)
    have "internal_ok (h_streams s') (h_listeners s') (uv_pending s)"
    proof (cases "l_pending_accepts lo = []")
      case True
      then show ?thesis unfolding s'(3) by (intro internal_ok_add [OF d(6) _ xn(1)]) (simp add: int)
    next
      case False
      have "?x \<notin># internal_of (h_listeners s) (uv_pending s)" using d(6) xn(1) by (auto simp: internal_ok_def)
      then show ?thesis by (intro internal_ok_mono [OF d(6)]) (use False int s'(3) in auto)
    qed
    then have "struct_inv s'"
      using d rq lok reads_ok_new [OF d(1) xn(1)] new_stream_ok(2) [of Stream_ctor, OF _ d(2)]
      by (simp add: struct_inv_def f s'(3))
    moreover have "client_stream s' y" if "client_stream s y" for y
    proof -
      have "y \<noteq> ?x" using that xn(1) by (auto simp: client_stream_def open_in_def)
      then show ?thesis using that by (auto simp: client_stream_def f int s'(3) open_in_upd)
    qed
    moreover have "open_in (h_listeners s') k" if "open_in (h_listeners s) k" for k
      using that o lo by (auto simp: s'(4) open_in_upd)
    ultimately have "struct_inv s'" "keeps_handles quiet s s'"
      by (simp_all add: keeps_handles_def unwaited_def f)
    moreover have "same_control s s'" using same_handles_control [OF s'(5)] by simp
    ultimately show ?thesis using s'(1,2) fr by (auto simp: event_ok_def)
  qed
qed

section \<open>Reads\<close>

lemma reading_client:
  assumes i: "struct_inv s" and r: "reading_in s x"
  obtains st t ts where "h_streams s x = Some st" and "uv_reading st" and "\<not> uv_closing st"
    and "s_read_queue st = t # ts" and "client_stream s x"
proof -
  obtain st where st: "h_streams s x = Some st" "uv_reading st" "\<not> uv_closing st"
    using r by (auto simp: reading_in_def split: option.splits)
  then obtain t ts where q: "s_read_queue st = t # ts"
    using reads_okD [OF struct_invD(1) [OF i] st(1)] by (cases "s_read_queue st") auto
  have "x \<notin># internal_of (h_listeners s) (uv_pending s)"
    using struct_invD(6) [OF i] st(1) q by (auto simp: internal_ok_def)
  then have "client_stream s x" using st by (auto simp: client_stream_def open_in_def)
  then show ?thesis using that st q by blast
qed

lemma plain_event:
  "goes_well env nullptr quiet {#} s m \<Longrightarrow> event_ok s m"
  by (auto simp: goes_well_def op_frame_def event_ok_def)

lemma EvReadEnd_ok:
  assumes c: "core {#} s" and i: "struct_inv s" and e: "enabled (EvReadEnd x nread) s"
  shows "event_ok s (fire (EvReadEnd x nread) s)"
proof -
  have e': "reading_in s x" "nread \<le> 0" using e by simp_all
  obtain st t ts where st: "h_streams s x = Some st" "uv_reading st" "\<not> uv_closing st"
    "s_read_queue st = t # ts" "client_stream s x" by (rule reading_client [OF i e'(1)])
  note d = struct_invD [OF i]
  show ?thesis
  proof (cases "nread = 0")
    case True
    then have m: "fire (EvReadEnd x nread) s = Inr s" using on_read_again [OF st(1)] by simp
    show ?thesis using c i unfolding event_ok_def m
      by (intro exI [of _ s] exI [of _ nullptr]) (simp add: tasks_frame_refl keeps_handles_refl)
  next
    case False
    have n: "nread < 0" "s_read_queue st \<noteq> []" using e'(2) False st(4) by simp_all
    obtain s' where s': "on_read x nread s = Inr s'" "core {#} s'"
      "h_streams s' = (h_streams s)(x \<mapsto> idle st)" "reading_streams s' = us_erase x (reading_streams s)"
      "same_handles (s\<lparr>h_streams := h_streams s', reading_streams := reading_streams s'\<rparr>) s'"
      "h_tasks s' = done_with (s_read_queue st) (if nread = UV_EOF then 0 else nread) (h_tasks s)"
      using on_read_end [OF c st(1) n(2,1)] by blast
    have "reads_ok (h_streams s') (reading_streams s')"
      unfolding s'(3,4) by (rule reads_ok_idle [OF d(1) st(1)])
    then have "goes_well env nullptr quiet {#} s (Inr s')" for env
      by (intro step_client_stream [OF base_null [OF c i] refl s'(2,5,3) st(5) _ _ _ tasks_frame_done [OF s'(6) readers_undone [OF c st(1)]]])
        (use st close_slotsD [OF d(2) st(1,3)] in auto)
    then show ?thesis using s'(1) plain_event by simp
  qed
qed

lemma EvRead_ok:
  assumes c: "core {#} s" and i: "struct_inv s" and bf: "bufs_ok (h_tasks s)"
    and e: "enabled (EvRead x data) s"
  shows "event_ok s (fire (EvRead x data) s)"
proof -
  have e': "reading_in s x" "data \<noteq> []" using e by simp_all
  obtain st t ts where st: "h_streams s x = Some st" "uv_reading st" "\<not> uv_closing st"
    "s_read_queue st = t # ts" "client_stream s x" by (rule reading_client [OF i e'(1)])
  note d = struct_invD [OF i]
  have c0: "core {#t#} (put_stream x (st\<lparr>s_read_queue := ts\<rparr>) s)" by (rule pop_reader_core [OF c st(1,4)])
  then obtain tk where tk: "h_tasks s t = Some tk" by (rule core_local_task) simp
  have al: "on_alloc x s = Inr (Some (task_data t tk), t_nbytes tk)"
    using st tk by (simp add: on_alloc_def)
  have b: "base t s" using local_no_request [OF c0] i by (simp add: base_def put_stream_def)
  have "t \<notin># held (put_stream x (st\<lparr>s_read_queue := ts\<rparr>) s)" using core_unique(1) [of t "{#}"] c0 by simp
  then have tq: "t \<notin> set (queue s)" by (auto simp: held_def put_stream_def)
  have "length data \<le> length (t_buffer tk)" if "t_ext_data tk = nullptr"
    using e al bf [unfolded bufs_ok_def, rule_format, OF tk that] by auto
  then obtain em where f: "uv_fill (task_data t tk) data s
      = Inr (s\<lparr>h_tasks := (h_tasks s)(t \<mapsto> filled data tk), ext_mem := em\<rparr>)"
    "core {#} (s\<lparr>h_tasks := (h_tasks s)(t \<mapsto> filled data tk), ext_mem := em\<rparr>)"
    "shape (filled data tk) = shape tk"
    using uv_fill_ok [OF c tk, of data] by blast
  define s1 where "s1 = s\<lparr>h_tasks := (h_tasks s)(t \<mapsto> filled data tk), ext_mem := em\<rparr>"
  have st1: "h_streams s1 x = Some st" using st(1) by (simp add: s1_def)
  have n: "0 < int (length data)" using e'(2) by simp
  obtain s' where s': "on_read x (int (length data)) s1 = Inr s'" "core {#} s'"
    "h_streams s' = (h_streams s1)(x \<mapsto> (if ts = [] then idle st else st\<lparr>s_read_queue := ts\<rparr>))"
    "reading_streams s' = (if ts = [] then us_erase x (reading_streams s1) else reading_streams s1)"
    "same_handles (s1\<lparr>h_streams := h_streams s', reading_streams := reading_streams s'\<rparr>) s'"
    "h_tasks s' = done_with [t] (int (length data)) (h_tasks s1)"
    using on_read_data [OF f(2) [folded s1_def] st1 st(4) n] by blast
  have r1: "reads_ok (h_streams s1) (reading_streams s1)" using d(1) by (simp add: s1_def)
  have r: "reads_ok (h_streams s') (reading_streams s')"
    unfolding s'(3,4) using reads_ok_idle [OF r1 st1] reads_ok_pop [OF r1 st1 st(4)] by simp
  have cl: "client_stream s1 x" using st(5) by (simp add: s1_def client_stream_def)
  have nd: "\<not> t_done tk" using owned_not_done [OF c0] tk by simp
  then have tu: "set [t] \<subseteq> undone (h_tasks s1)" by (simp add: s1_def undone_def)
  have "goes_well env t quiet {#} s1 (Inr s')" for env
    by (rule step_client_stream [OF base_filled [where ?tk1.0 = "filled data tk" and e = em, OF b, folded s1_def] refl s'(2,5,3) cl r
          _ _ tasks_frame_done [OF s'(6) tu]])
      (use st close_slotsD [OF d(2) st(1,3)] in \<open>auto split: if_splits\<close>)
  then have "goes_well env t quiet {#} s (Inr s')" for env
    by (intro goes_well_filled [OF tk nd f(3)]) (simp add: s1_def)
  moreover have "fire (EvRead x data) s = Inr s'"
    using f(1) s'(1) by (simp add: deliver_read_def al s1_def)
  ultimately show ?thesis using tq by (auto simp: goes_well_def op_frame_def event_ok_def)
qed

section \<open>Watch events and process exits\<close>

lemma EvFsEvent_ok:
  assumes c: "core {#} s" and i: "struct_inv s" and e: "enabled (EvFsEvent w filename events status) s"
  shows "event_ok s (fire (EvFsEvent w filename events status) s)"
proof -
  note d = struct_invD [OF i]
  obtain wo where wo: "h_watchers s w = Some wo" "\<not> uv_closing wo" using e by (auto simp: open_in_def)
  let ?t = "w_pending_next wo"
  have ct: "close_task wo = nullptr" using watchers_okD(3) [OF d(5) wo] .
  obtain s' wo' name ev where s': "on_fs_event w filename events status s = Inr s'" "core {#} s'"
    "h_watchers s' = (h_watchers s)(w \<mapsto> wo')" "same_handles (s\<lparr>h_watchers := h_watchers s'\<rparr>) s'"
    and o: "?t = nullptr \<and> wo' = wo\<lparr>w_events := w_events wo @ [(name, ev)]\<rparr> \<and> h_tasks s' = h_tasks s
       \<or> ?t \<noteq> nullptr \<and> wo' = wo\<lparr>w_pending_next := nullptr\<rparr>
          \<and> (\<exists>tk. h_tasks s ?t = Some tk
            \<and> h_tasks s' = (h_tasks s)(?t \<mapsto> completed ev (tk\<lparr>t_str_out := name\<rparr>)))"
    using on_fs_event_ok [OF c wo(1) refl refl, of filename events status] by blast
  have nq: "base ?t s \<and> (?t = nullptr \<or> ?t \<notin> set (queue s))"
  proof (cases "?t = nullptr")
    case True
    then show ?thesis using base_null [OF c i] by simp
  next
    case False
    let ?s1 = "put_watcher w (wo\<lparr>w_pending_next := nullptr\<rparr>) s"
    have c1: "core (add_mset ?t {#}) ?s1"
      by (rule core_put_watcher [OF c wo(1)]) (simp add: watcher_held_def False)
    show ?thesis using local_no_request [OF c1] core_unique(1) [OF c1] i
      by (auto simp: base_def put_watcher_def held_def)
  qed
  have sh: "shape (completed ev (tk\<lparr>t_str_out := name\<rparr>)) = shape tk" for tk by (simp add: shape_def)
  have nd: "\<not> t_done tk" if "?t \<noteq> nullptr" "h_tasks s ?t = Some tk" for tk
    using next_undone [OF c wo(1)] that by (simp add: undone_def)
  have fr: "tasks_frame ?t s s'" using o tasks_frame_refl tasks_frame_upd [OF _ nd sh] by blast
  have "watchers_ok (h_watchers s')" unfolding s'(3)
    by (rule watchers_ok_upd [OF d(5)]) (use o wo ct in auto)
  then have "goes_well env ?t quiet {#} s (Inr s')" for env
    by (intro step_watcher [OF conjunct1 [OF nq] refl s'(2,4,3) _ _ _ fr]) (use o wo in auto)
  then show ?thesis using s'(1) nq by (auto simp: goes_well_def op_frame_def event_ok_def)
qed

lemma EvExit_ok:
  assumes c: "core {#} s" and i: "struct_inv s" and e: "enabled (EvExit p st sg) s"
  shows "event_ok s (fire (EvExit p st sg) s)"
proof -
  note d = struct_invD [OF i]
  obtain po where po: "h_processes s p = Some po" "\<not> uv_closing po" using e by (auto split: option.splits)
  let ?po = "po\<lparr>p_exited := True, p_exit_status := st, p_term_signal := sg, p_wait_task := nullptr\<rparr>"
  obtain s' where s': "on_process_exit p st sg s = Inr s'" "core {#} s'"
    "h_processes s' = (h_processes s)(p \<mapsto> ?po)" "same_handles (s\<lparr>h_processes := h_processes s'\<rparr>) s'"
    and o: "h_tasks s' = (if p_wait_task po = nullptr then h_tasks s
        else done_with [p_wait_task po] st (h_tasks s))"
    using on_process_exit_ok [OF c po(1), of st sg] by blast
  have f: "h_streams s' = h_streams s" "h_listeners s' = h_listeners s" "h_watchers s' = h_watchers s"
    "listeners s' = listeners s" "reading_streams s' = reading_streams s" "uv_pending s' = uv_pending s"
    using same_handles_fields [OF s'(4)] by simp_all
  have fr: "tasks_frame nullptr s s'"
    using o tasks_frame_done [OF _ waiter_undone [OF c po(1)]] tasks_frame_refl by (cases "p_wait_task po = nullptr") auto
  have rq: "reqs_ok (h_tasks s') (uv_pending s)" by (rule reqs_ok_frame [OF d(7) fr null_no_request [OF c]])
  have "processes_ok (h_processes s')" unfolding s'(3)
    by (rule processes_ok_upd [OF d(4)]) (use po processes_okD(3) [OF d(4) po] in simp_all)
  then have "struct_inv s'" using d rq by (simp add: struct_inv_def f)
  moreover have "keeps_handles quiet s s'" using po(2)
    by (auto simp: keeps_handles_def client_stream_def unwaited_def f s'(3) open_in_upd)
  moreover have "same_control s s'" using same_handles_control [OF s'(4)] by simp
  ultimately show ?thesis using s'(1,2) fr by (auto simp: event_ok_def)
qed

section \<open>Close callbacks\<close>

lemma closing_inD:
  assumes "closing_in m a"
  obtains h where "m a = Some h" and "uv_closing h"
  using assms by (auto simp: closing_in_def split: option.splits)

lemma open_in_delete: "m a = Some h \<Longrightarrow> uv_closing h \<Longrightarrow> open_in (m(a := None)) b \<longleftrightarrow> open_in m b"
  by (auto simp: open_in_def)

lemma closed_event:
  assumes c: "core {#} s" and m: "m = Inr s'" "core {#} s'" and i: "struct_inv s"
    and ht: "h_tasks s' = (if ct = nullptr then h_tasks s else done_with [ct] 0 (h_tasks s))"
    and ct: "set_mset (opt_task ct) \<subseteq> undone (h_tasks s)"
    and st: "reqs_ok (h_tasks s') (uv_pending s) \<Longrightarrow> struct_inv s'"
    and k: "keeps_handles quiet s s'" "same_control s s'"
  shows "event_ok s m"
proof -
  have fr: "tasks_frame nullptr s s'"
    using ht ct tasks_frame_done [of s' "[ct]"] tasks_frame_refl by (cases "ct = nullptr") auto
  have "struct_inv s'"
    by (rule st) (rule reqs_ok_frame [OF struct_invD(7) [OF i] fr null_no_request [OF c]])
  then show ?thesis using m k fr by (auto simp: event_ok_def)
qed

lemma EvStreamClosed_ok:
  assumes c: "core {#} s" and i: "struct_inv s" and e: "enabled (EvStreamClosed x) s"
  shows "event_ok s (fire (EvStreamClosed x) s)"
proof -
  note d = struct_invD [OF i]
  have e': "closing_in (h_streams s) x" using e by simp
  then obtain st where st: "h_streams s x = Some st" "uv_closing st" by (rule closing_inD)
  have "s_read_queue st = []" using reads_okD(1,4) [OF d(1) st(1)] st(2) by simp
  then have hd: "stream_held st = opt_task (close_task st)" by (simp add: stream_held_def)
  from stream_close.OnClosed_core [OF c st(1) hd] obtain s' where s': "Stream_OnClosed x s = Inr s'"
    "core {#} s'" "same_handles (s\<lparr>h_streams := (h_streams s)(x := None)\<rparr>) s'"
    "h_tasks s' = (if close_task st = nullptr then h_tasks s else done_with [close_task st] 0 (h_tasks s))"
    by (auto simp: Stream_OnClosed_def)
  note f = same_handles_fields [OF s'(3), simplified]
  have nx: "x \<notin># internal_of (h_listeners s) (uv_pending s)" using d(6) st by (auto simp: internal_ok_def)
  have "internal_ok ((h_streams s)(x := None)) (h_listeners s) (uv_pending s)"
    by (rule internal_ok_mono [OF d(6)]) (use nx in auto)
  moreover have "close_slots_ok ((h_streams s)(x := None))" using d(2) by (auto simp: close_slots_ok_def)
  ultimately have "struct_inv s'" if "reqs_ok (h_tasks s') (uv_pending s)"
    using d that reads_ok_delete [OF d(1) st] by (simp add: struct_inv_def f)
  moreover have "keeps_handles quiet s s'"
    by (rule keeps_handles_streams) (simp_all add: f client_stream_def open_in_delete [of "h_streams s", OF st])
  moreover have "same_control s s'" using same_handles_control [OF s'(3)] by simp
  ultimately show ?thesis using closed_event [OF c _ s'(2) i s'(4) stream_heap.share_undone [OF c st(1), unfolded hd]] s'(1) by simp
qed

lemma EvListenerClosed_ok:
  assumes c: "core {#} s" and i: "struct_inv s" and e: "enabled (EvListenerClosed l) s"
  shows "event_ok s (fire (EvListenerClosed l) s)"
proof -
  note d = struct_invD [OF i]
  have e': "closing_in (h_listeners s) l" using e by simp
  then obtain lo where lo: "h_listeners s l = Some lo" "uv_closing lo" by (rule closing_inD)
  have a: "l_accepted lo = []" "l_pending_accepts lo = []" using listeners_okD(3,4) [OF d(3) lo(1)] lo(2) by simp_all
  then have hd: "listener_held lo = opt_task (close_task lo)" by (simp add: listener_held_def)
  from listener_close.OnClosed_core [OF c lo(1) hd] obtain s' where s': "Listener_OnClosed l s = Inr s'"
    "core {#} s'" "same_handles (s\<lparr>h_listeners := (h_listeners s)(l := None)\<rparr>) s'"
    "h_tasks s' = (if close_task lo = nullptr then h_tasks s else done_with [close_task lo] 0 (h_tasks s))"
    by (auto simp: Listener_OnClosed_def)
  note f = same_handles_fields [OF s'(3), simplified]
  note int = internal_of_delete_listener [OF core_finite(4) [OF c] lo(1) a(1)]
  have "struct_inv s'" if "reqs_ok (h_tasks s') (uv_pending s)"
    using d that listeners_ok_delete [OF d(3) lo] by (simp add: struct_inv_def f internal_ok_def int)
  moreover have "keeps_handles quiet s s'"
    by (simp add: keeps_handles_def client_stream_def unwaited_def f int open_in_delete [of "h_listeners s", OF lo])
  moreover have "same_control s s'" using same_handles_control [OF s'(3)] by simp
  ultimately show ?thesis using closed_event [OF c _ s'(2) i s'(4) listener_heap.share_undone [OF c lo(1), unfolded hd]] s'(1) by simp
qed

lemma EvProcessClosed_ok:
  assumes c: "core {#} s" and i: "struct_inv s" and e: "enabled (EvProcessClosed p) s"
  shows "event_ok s (fire (EvProcessClosed p) s)"
proof -
  note d = struct_invD [OF i]
  have e': "closing_in (h_processes s) p" using e by simp
  then obtain po where po: "h_processes s p = Some po" "uv_closing po" by (rule closing_inD)
  have hd: "process_held po = opt_task (close_task po)"
    using processes_okD(2) [OF d(4) po] by (simp add: process_held_def)
  from process_close.OnClosed_core [OF c po(1) hd] obtain s' where s': "Process_OnClosed p s = Inr s'"
    "core {#} s'" "same_handles (s\<lparr>h_processes := (h_processes s)(p := None)\<rparr>) s'"
    "h_tasks s' = (if close_task po = nullptr then h_tasks s else done_with [close_task po] 0 (h_tasks s))"
    by (auto simp: Process_OnClosed_def)
  note f = same_handles_fields [OF s'(3), simplified]
  have "struct_inv s'" if "reqs_ok (h_tasks s') (uv_pending s)"
    using d that processes_ok_delete [OF d(4)] by (simp add: struct_inv_def f)
  moreover have "keeps_handles quiet s s'" using po
    by (auto simp: keeps_handles_def client_stream_def unwaited_def f open_in_delete [of "h_processes s", OF po])
  moreover have "same_control s s'" using same_handles_control [OF s'(3)] by simp
  ultimately show ?thesis using closed_event [OF c _ s'(2) i s'(4) process_heap.share_undone [OF c po(1), unfolded hd]] s'(1) by simp
qed

lemma EvWatcherClosed_ok:
  assumes c: "core {#} s" and i: "struct_inv s" and e: "enabled (EvWatcherClosed w) s"
  shows "event_ok s (fire (EvWatcherClosed w) s)"
proof -
  note d = struct_invD [OF i]
  have e': "closing_in (h_watchers s) w" using e by simp
  then obtain wo where wo: "h_watchers s w = Some wo" "uv_closing wo" by (rule closing_inD)
  have hd: "watcher_held wo = opt_task (close_task wo)"
    using watchers_okD(2) [OF d(5) wo] by (simp add: watcher_held_def)
  from watcher_close.OnClosed_core [OF c wo(1) hd] obtain s' where s': "Watcher_OnClosed w s = Inr s'"
    "core {#} s'" "same_handles (s\<lparr>h_watchers := (h_watchers s)(w := None)\<rparr>) s'"
    "h_tasks s' = (if close_task wo = nullptr then h_tasks s else done_with [close_task wo] 0 (h_tasks s))"
    by (auto simp: Watcher_OnClosed_def)
  note f = same_handles_fields [OF s'(3), simplified]
  have "struct_inv s'" if "reqs_ok (h_tasks s') (uv_pending s)"
    using d that watchers_ok_delete [OF d(5)] by (simp add: struct_inv_def f)
  moreover have "keeps_handles quiet s s'"
    by (simp add: keeps_handles_def client_stream_def unwaited_def f open_in_delete [of "h_watchers s", OF wo])
  moreover have "same_control s s'" using same_handles_control [OF s'(3)] by simp
  ultimately show ?thesis using closed_event [OF c _ s'(2) i s'(4) watcher_heap.share_undone [OF c wo(1), unfolded hd]] s'(1) by simp
qed

section \<open>Every event\<close>

lemmas event_steps = EvTimer_ok EvTimerClosed_ok EvFs_ok EvConnect_ok EvConnection_ok EvRead_ok EvReadEnd_ok
  EvWrite_ok EvAddrInfo_ok EvFsEvent_ok EvExit_ok EvStreamClosed_ok EvListenerClosed_ok EvProcessClosed_ok
  EvWatcherClosed_ok

lemma fire_ok:
  assumes "core {#} s" and "struct_inv s" and "bufs_ok (h_tasks s)" and "enabled ev s"
  shows "event_ok s (fire ev s)"
  using assms event_steps by (cases ev) (simp_all only:)

end
