(* ===== verification/Client.thy ===== *)
theory Client
  imports Events
begin

text \<open>
  The client's side of the ABI: allocating and submitting a task, freeing a completed one,
  and the completion queues, each with its effect on the ownership account; what the
  result accessors return; and the round trip of the packed argument vector.
\<close>

section \<open>Definitions\<close>

text \<open>Filling in parameters touches neither the routing nor the lock of the task.\<close>

definition fills :: "(task \<Rightarrow> task) \<Rightarrow> bool" where
  "fills f \<longleftrightarrow> (\<forall>tk. t_op (f tk) = t_op tk \<and> t_cq (f tk) = t_cq tk \<and> t_done (f tk) = t_done tk
     \<and> t_pinned_obj (f tk) = t_pinned_obj tk)"

definition fresh_task :: "Op \<Rightarrow> addr \<Rightarrow> task" where
  "fresh_task op cq = (Task_ctor op)\<lparr>t_cq := cq\<rparr>"

definition pinned_task :: "uv_env \<Rightarrow> Op \<Rightarrow> addr \<Rightarrow> addr \<Rightarrow> 32 word \<Rightarrow> 32 word \<Rightarrow> task" where
  "pinned_task env op cq bv start n = (fresh_task op cq)\<lparr>t_pinned_obj := bv,
     t_ext_data := bytevector_data env bv + ucast start, t_nbytes := n\<rparr>"

text \<open>The heaps and registries of the handles, and the requests, are untouched.\<close>

definition same_loop :: "runtime \<Rightarrow> runtime \<Rightarrow> bool" where
  "same_loop s s' \<longleftrightarrow>
     h_streams s' = h_streams s \<and> h_listeners s' = h_listeners s \<and> h_processes s' = h_processes s
     \<and> h_watchers s' = h_watchers s \<and> listeners s' = listeners s
     \<and> reading_streams s' = reading_streams s \<and> uv_pending s' = uv_pending s
     \<and> uv_refused s' = uv_refused s
     \<and> queue s' = queue s \<and> running s' = running s \<and> stopping s' = stopping s
     \<and> exit_on_signal s' = exit_on_signal s \<and> async s' = async s
     \<and> async_sent s' = async_sent s \<and> sig_int s' = sig_int s \<and> sig_term s' = sig_term s
     \<and> shutdown_timer s' = shutdown_timer s
     \<and> shutdown_timer_started s' = shutdown_timer_started s
     \<and> shutdown_signaled s' = shutdown_signaled s \<and> exit_code s' = exit_code s"

definition cq_alive :: "addr \<Rightarrow> runtime \<Rightarrow> bool" where
  "cq_alive cq s \<longleftrightarrow> cq = nullptr \<or> (\<exists>c. h_cqs s cq = Some c)"

section \<open>Allocation\<close>

lemma undone_new: "m t = None \<Longrightarrow> \<not> t_done tk \<Longrightarrow> undone (m(t \<mapsto> tk)) = insert t (undone m)"
  by (auto simp: undone_def)

lemma cq_users_new:
  assumes "m t = None" and "\<not> t_done tk"
  shows "cq_users (m(t \<mapsto> tk)) q = (if t_cq tk = q then insert t (cq_users m q) else cq_users m q)"
  using assms by (auto simp: cq_users_def undone_new) (auto simp: undone_def)

text \<open>The reference the new task takes on its queue.\<close>

definition retained :: "addr \<Rightarrow> (addr \<rightharpoonup> completion_queue) \<Rightarrow> (addr \<rightharpoonup> completion_queue)" where
  "retained q cs = (if q = nullptr then cs else cs(q := map_option (\<lambda>c. c\<lparr>cq_refs := cq_refs c + 1\<rparr>) (cs q)))"

lemma refs_ok_new:
  assumes ok: "refs_ok m cs" and fin: "finite (undone m)" and t: "m t = None" "\<not> t_done tk"
    and q: "t_cq tk = nullptr \<or> cs (t_cq tk) \<noteq> None"
  shows "refs_ok (m(t \<mapsto> tk)) (retained (t_cq tk) cs)"
  unfolding refs_ok_def
proof (intro allI impI)
  fix p :: addr assume p: "p \<noteq> nullptr"
  have okp: "(cs p = None \<longrightarrow> cq_users m p = {}) \<and> (\<forall>c. cs p = Some c \<longrightarrow> 0 < cq_refs c
      \<and> int (card (cq_users m p)) \<le> cq_refs c \<and> cq_refs c \<le> int (card (cq_users m p)) + 1)"
    using ok p by (simp add: refs_ok_def)
  have n: "t \<notin> cq_users m p" "finite (cq_users m p)" using t fin by (auto simp: cq_users_def undone_def)
  show "(retained (t_cq tk) cs p = None \<longrightarrow> cq_users (m(t \<mapsto> tk)) p = {}) \<and>
     (\<forall>c. retained (t_cq tk) cs p = Some c \<longrightarrow> 0 < cq_refs c
        \<and> int (card (cq_users (m(t \<mapsto> tk)) p)) \<le> cq_refs c
        \<and> cq_refs c \<le> int (card (cq_users (m(t \<mapsto> tk)) p)) + 1)"
    using okp n q p by (cases "t_cq tk = p") (auto simp: cq_users_new [of m t, OF t] retained_def)
qed

lemma core_new_task:
  assumes c: "core L s" and t: "h_tasks s t = None" "t \<noteq> nullptr"
    and tk: "\<not> t_done tk" and q: "cq_alive (t_cq tk) s"
    and s': "h_tasks s' = (h_tasks s)(t \<mapsto> tk)" "h_cqs s' = retained (t_cq tk) (h_cqs s)"
      "live s' = (live s)(CTask := live s CTask + 1)"
      "locked s' = opt_task (t_pinned_obj tk) + locked s" "same_loop s s'"
  shows "core (add_mset t L) s'"
proof -
  have sl: "h_streams s' = h_streams s" "h_listeners s' = h_listeners s" "h_processes s' = h_processes s"
    "h_watchers s' = h_watchers s" "uv_pending s' = uv_pending s" "queue s' = queue s"
    "uv_refused s' = uv_refused s"
    using s'(5) by (simp_all add: same_loop_def)
  have fin: "finite (undone (h_tasks s))" using core_finite_undone [OF c] .
  have u: "undone (h_tasks s') = insert t (undone (h_tasks s))" using undone_new [of "h_tasks s" t, OF t(1) tk] s'(1) by simp
  have tn: "t \<notin> undone (h_tasks s)" using t by (auto simp: undone_def)
  have "held s' = held s" "refused s' = refused s" by (simp_all add: held_def refused_def sl)
  then have h: "held s' + refused s' + add_mset t L = mset_set (undone (h_tasks s'))"
    using c fin tn by (simp add: core_def u)
  have "refs_ok (h_tasks s') (h_cqs s')" unfolding s'(1,2)
    by (rule refs_ok_new) (use c fin t tk q in \<open>auto simp: core_def cq_alive_def\<close>)
  moreover have "locked s' = locks_of (h_tasks s')"
    using c msum_new [OF core_finite(1) [OF c] t(1), of "\<lambda>tk. opt_task (t_pinned_obj tk)" tk] s'(1,4)
    by (simp add: core_def locks_of_def)
  moreover have "dom (retained q cs) = dom cs" for q cs by (auto simp: retained_def split: if_splits)
  then have "heap_ok (h_cqs s') (live s' CCompletionQueue)"
    using c s'(2,3) by (auto simp: core_def heaps_ok_def heap_ok_def retained_def)
  moreover have "heap_ok (h_tasks s') (live s' CTask)"
    using c heap_ok_new [of "h_tasks s" "live s CTask" t tk] t s'(1,3) by (simp add: core_def heaps_ok_def)
  ultimately show ?thesis using c h s'(3) by (simp add: core_def heaps_ok_def sl)
qed

lemma new_task_ok:
  assumes "new_addr env 0 = t" and "cq_alive cq s"
  shows "\<exists>s'. new_task env op cq s = Inr s' \<and> h_tasks s' = (h_tasks s)(t \<mapsto> fresh_task op cq)
    \<and> h_cqs s' = retained cq (h_cqs s) \<and> live s' = (live s)(CTask := live s CTask + 1)
    \<and> locked s' = locked s \<and> same_loop s s'"
proof (cases "cq = nullptr")
  case True
  then show ?thesis using assms
    by (simp add: new_task_def Let_def fresh_task_def retained_def Counted_ctor_def same_loop_def)
next
  case False
  then obtain c where "h_cqs s cq = Some c" using assms(2) by (auto simp: cq_alive_def)
  then show ?thesis using assms(1) False
    by (simp add: new_task_def Let_def fresh_task_def retained_def Counted_ctor_def same_loop_def Retain_def)
qed

lemma new_pinned_task_ok:
  assumes "new_addr env 0 = t" and "cq_alive cq s"
  shows "\<exists>s'. new_pinned_task env op cq bv start n s = Inr s'
    \<and> h_tasks s' = (h_tasks s)(t \<mapsto> pinned_task env op cq bv start n)
    \<and> h_cqs s' = retained cq (h_cqs s) \<and> live s' = (live s)(CTask := live s CTask + 1)
    \<and> locked s' = add_mset bv (locked s) \<and> same_loop s s'"
proof -
  obtain s1 where s1: "new_task env op cq s = Inr s1" "h_tasks s1 = (h_tasks s)(t \<mapsto> fresh_task op cq)"
    "h_cqs s1 = retained cq (h_cqs s)" "live s1 = (live s)(CTask := live s CTask + 1)"
    "locked s1 = locked s" "same_loop s s1" using new_task_ok [OF assms] by blast
  have "t_cq (pinned_task env op cq bv start n) = cq" by (simp add: pinned_task_def fresh_task_def)
  then show ?thesis using s1 assms(1)
    by (simp add: new_pinned_task_def put_task_def pinned_task_def same_loop_def)
qed

section \<open>Submission\<close>

text \<open>
  Filling in and submitting: the task is on the queue, the loop is woken, and nothing else
  has changed.
\<close>

lemma fill_submit_ok:
  assumes t: "new_addr env 0 = t" and s1: "h_tasks s1 t = Some tk0" and r: "running s1" "async s1 = Active"
  shows "fill_submit env f (Inr s1) = Inr (t, (s1\<lparr>h_tasks := (h_tasks s1)(t \<mapsto> f tk0),
    queue := queue s1 @ [t], async_sent := True\<rparr>))"
  using assms by (simp add: fill_submit_def Submit_handle_def Submit_def uv_async_send_def put_task_def)

lemma submit_core:
  assumes c: "core (add_mset t {#}) s1" and t: "h_tasks s1 t = Some tk0" and f: "fills f"
  shows "core {#} (s1\<lparr>h_tasks := (h_tasks s1)(t \<mapsto> f tk0), queue := queue s1 @ [t], async_sent := b\<rparr>)"
proof -
  let ?s2 = "put_task t (f tk0) s1"
  have "core (add_mset t {#}) ?s2"
    by (rule core_put_task [OF c t]) (use f in \<open>auto simp: fills_def\<close>)
  then have "core {#} (?s2\<lparr>queue := queue s1 @ [t]\<rparr>)"
    by (rule core_queue_upd) (simp add: put_task_def)
  then show ?thesis by (rule core_cong) (simp_all add: put_task_def)
qed

section \<open>Freeing a completed task\<close>

lemma undone_delete: "m t = Some tk \<Longrightarrow> t_done tk \<Longrightarrow> undone (m(t := None)) = undone m"
  by (auto simp: undone_def)

lemma cq_users_delete:
  assumes "m t = Some tk" and "t_done tk"
  shows "cq_users (m(t := None)) q = cq_users m q"
proof -
  have "t \<notin> undone m" using assms by (simp add: undone_def)
  then show ?thesis unfolding cq_users_def undone_delete [of m t, OF assms] by auto
qed

lemma rt_task_free_ok:
  assumes c: "core L s" and t: "h_tasks s t = Some tk" "t_done tk"
  shows "\<exists>s'. rt_task_free t s = Inr s' \<and> core L s' \<and> same_loop s s'
    \<and> h_tasks s' = (h_tasks s)(t := None) \<and> h_cqs s' = h_cqs s
    \<and> locked s = opt_task (t_pinned_obj tk) + locked s'
    \<and> rt_debug_live_tasks s' = rt_debug_live_tasks s - 1"
proof -
  let ?lk = "locked s - opt_task (t_pinned_obj tk)"
  let ?s' = "s\<lparr>h_tasks := (h_tasks s)(t := None), locked := ?lk,
    live := (live s)(CTask := live s CTask - 1)\<rparr>"
  have r: "rt_task_free t s = Inr ?s'"
    using t by (cases "t_pinned_obj tk = 0") (simp_all add: rt_task_free_def Counted_dtor_def)
  have l: "opt_task (t_pinned_obj tk) + locks_of ((h_tasks s)(t := None)) = locked s"
    using msum_delete [OF core_finite(1) [OF c] t(1), of "\<lambda>tk. opt_task (t_pinned_obj tk)"] c
    by (simp add: core_def locks_of_def)
  have h: "heap_ok ((h_tasks s)(t := None)) (live s CTask - 1)"
    using c heap_ok_delete [of "h_tasks s" "live s CTask" t tk] t by (simp add: core_def heaps_ok_def)
  have "refs_ok ((h_tasks s)(t := None)) (h_cqs s)"
    using c by (simp add: core_def refs_ok_def cq_users_delete [of "h_tasks s" t, OF t])
  then have "core L ?s'"
    using c h l undone_delete [of "h_tasks s" t, OF t]
    by (simp add: core_def heaps_ok_def held_def refused_def) (metis add_diff_cancel_left')
  moreover have "locked s = opt_task (t_pinned_obj tk) + ?lk"
    using l by (metis add_diff_cancel_left')
  ultimately show ?thesis using r
    by (intro exI [of _ ?s']) (simp add: same_loop_def rt_debug_live_tasks_def)
qed

section \<open>Completion queues\<close>

lemma refs_ok_cq:
  assumes "refs_ok m cs" and "\<And>p. p \<noteq> q \<Longrightarrow> cs' p = cs p"
    and "q \<noteq> nullptr \<Longrightarrow> (cs' q = None \<longrightarrow> cq_users m q = {}) \<and> (\<forall>c. cs' q = Some c \<longrightarrow> 0 < cq_refs c
      \<and> int (card (cq_users m q)) \<le> cq_refs c \<and> cq_refs c \<le> int (card (cq_users m q)) + 1)"
  shows "refs_ok m cs'"
  unfolding refs_ok_def
proof (intro allI impI)
  fix p :: addr assume "p \<noteq> nullptr"
  then show "(cs' p = None \<longrightarrow> cq_users m p = {}) \<and> (\<forall>c. cs' p = Some c \<longrightarrow> 0 < cq_refs c
      \<and> int (card (cq_users m p)) \<le> cq_refs c \<and> cq_refs c \<le> int (card (cq_users m p)) + 1)"
    using assms by (cases "p = q") (simp_all add: refs_ok_def)
qed

lemma core_cqs:
  assumes c: "core L s" and r: "refs_ok (h_tasks s) cs" and h: "heap_ok cs n"
  shows "core L (s\<lparr>h_cqs := cs, live := (live s)(CCompletionQueue := n)\<rparr>)"
  using assms by (simp add: core_def heaps_ok_def held_def refused_def)

lemma rt_cq_create_ok:
  assumes c: "core L s" and q: "new_addr env 0 = q" "h_cqs s q = None" "q \<noteq> nullptr"
  shows "\<exists>s'. rt_cq_create env s = (q, s') \<and> core L s' \<and> same_loop s s' \<and> h_tasks s' = h_tasks s
    \<and> h_cqs s' = (h_cqs s)(q \<mapsto> CompletionQueue_ctor)"
proof -
  let ?cs = "(h_cqs s)(q \<mapsto> CompletionQueue_ctor)"
  have ok: "refs_ok (h_tasks s) (h_cqs s)" using c by (simp add: core_def)
  then have "cq_users (h_tasks s) q = {}" using q by (auto simp: refs_ok_def)
  then have "refs_ok (h_tasks s) ?cs" by (intro refs_ok_cq [OF ok, of q]) (simp_all add: CompletionQueue_ctor_def)
  moreover have "heap_ok ?cs (live s CCompletionQueue + 1)"
    using c heap_ok_new [of "h_cqs s" "live s CCompletionQueue" q] q by (simp add: core_def heaps_ok_def)
  ultimately have "core L (s\<lparr>h_cqs := ?cs, live := (live s)(CCompletionQueue := live s CCompletionQueue + 1)\<rparr>)"
    by (rule core_cqs [OF c])
  then show ?thesis using q(1) by (simp add: rt_cq_create_def Counted_ctor_def same_loop_def)
qed

text \<open>Dropping the creator's reference: the queue goes at once, or with its last task.\<close>

lemma rt_cq_free_ok:
  assumes c: "core L s" and q: "h_cqs s q = Some d" "q \<noteq> nullptr"
    and own: "cq_refs d = int (card (cq_users (h_tasks s) q)) + 1"
  shows "\<exists>s'. rt_cq_free q s = Inr s' \<and> core L s' \<and> same_loop s s' \<and> h_tasks s' = h_tasks s
    \<and> h_cqs s' = (h_cqs s)(q := if cq_users (h_tasks s) q = {} then None
        else Some (d\<lparr>cq_refs := cq_refs d - 1\<rparr>))"
proof -
  have fin: "finite (cq_users (h_tasks s) q)" using core_finite_undone [OF c] by (simp add: cq_users_def)
  have e: "cq_users (h_tasks s) q = {} \<longleftrightarrow> cq_refs d = 1" using own fin by auto
  have ok: "refs_ok (h_tasks s) (h_cqs s)" using c by (simp add: core_def)
  show ?thesis
  proof (cases "cq_refs d = 1")
    case True
    let ?cs = "(h_cqs s)(q := None)"
    have "refs_ok (h_tasks s) ?cs" by (rule refs_ok_cq [OF ok, of q]) (use True e in simp_all)
    moreover have "heap_ok ?cs (live s CCompletionQueue - 1)"
      using c heap_ok_delete [of "h_cqs s" "live s CCompletionQueue" q d] q by (simp add: core_def heaps_ok_def)
    ultimately have "core L (s\<lparr>h_cqs := ?cs, live := (live s)(CCompletionQueue := live s CCompletionQueue - 1)\<rparr>)"
      by (rule core_cqs [OF c])
    then show ?thesis using True q e by (simp add: rt_cq_free_def Release_def Counted_dtor_def same_loop_def)
  next
    case False
    let ?cs = "(h_cqs s)(q \<mapsto> d\<lparr>cq_refs := cq_refs d - 1\<rparr>)"
    have "card (cq_users (h_tasks s) q) > 0" using False e fin by (simp add: card_gt_0_iff)
    then have "refs_ok (h_tasks s) ?cs" by (intro refs_ok_cq [OF ok, of q]) (use own in simp_all)
    moreover have "heap_ok ?cs (live s CCompletionQueue)"
      using c heap_ok_upd [of "h_cqs s" "live s CCompletionQueue" q d] q by (simp add: core_def heaps_ok_def)
    ultimately have "core L (s\<lparr>h_cqs := ?cs, live := (live s)(CCompletionQueue := live s CCompletionQueue)\<rparr>)"
      by (rule core_cqs [OF c])
    then show ?thesis using False q e by (simp add: rt_cq_free_def Release_def same_loop_def)
  qed
qed

lemma pop_core:
  assumes c: "core L s" and q: "h_cqs s q = Some d" and p: "CompletionQueue_pop d = Some (t, d')"
  shows "core L (s\<lparr>h_cqs := (h_cqs s)(q \<mapsto> d')\<rparr>)"
proof -
  have r: "cq_refs d' = cq_refs d" using p by (auto simp: CompletionQueue_pop_def split: list.splits)
  have ok: "refs_ok (h_tasks s) (h_cqs s)" using c by (simp add: core_def)
  have "refs_ok (h_tasks s) ((h_cqs s)(q \<mapsto> d'))"
    by (rule refs_ok_cq [OF ok, of q]) (use ok q r in \<open>simp_all add: refs_ok_def\<close>)
  moreover have "heap_ok ((h_cqs s)(q \<mapsto> d')) (live s CCompletionQueue)"
    using c heap_ok_upd [of "h_cqs s" "live s CCompletionQueue" q d] q by (simp add: core_def heaps_ok_def)
  ultimately have "core L (s\<lparr>h_cqs := (h_cqs s)(q \<mapsto> d'),
      live := (live s)(CCompletionQueue := live s CCompletionQueue)\<rparr>)"
    by (rule core_cqs [OF c])
  then show ?thesis by simp
qed

lemma rt_cq_wait_ok:
  assumes c: "core L s" and q: "h_cqs s q = Some d"
  shows "\<exists>s'. rt_cq_wait q s = Inr (case cq_q d of [] \<Rightarrow> None | t # _ \<Rightarrow> Some t, s') \<and> core L s' \<and> same_loop s s'
    \<and> h_tasks s' = h_tasks s \<and> h_cqs s' = (h_cqs s)(q \<mapsto> d\<lparr>cq_q := tl (cq_q d)\<rparr>)"
proof (cases "cq_q d")
  case Nil
  then show ?thesis using c q
    by (simp add: rt_cq_wait_def WaitOne_def CompletionQueue_pop_def same_loop_def fun_upd_idem)
next
  case (Cons t ts)
  then have p: "CompletionQueue_pop d = Some (t, d\<lparr>cq_q := ts\<rparr>)" by (simp add: CompletionQueue_pop_def)
  show ?thesis using pop_core [OF c q p] q Cons p
    by (simp add: rt_cq_wait_def WaitOne_def same_loop_def)
qed

lemma rt_cq_try_pop_ok:
  assumes c: "core L s" and q: "h_cqs s q = Some d"
  shows "\<exists>s'. rt_cq_try_pop q s = Inr (case cq_q d of [] \<Rightarrow> nullptr | t # _ \<Rightarrow> t, s') \<and> core L s' \<and> same_loop s s'
    \<and> h_tasks s' = h_tasks s \<and> h_cqs s' = (h_cqs s)(q \<mapsto> d\<lparr>cq_q := tl (cq_q d)\<rparr>)"
proof (cases "cq_q d")
  case Nil
  then show ?thesis using c q
    by (simp add: rt_cq_try_pop_def TryPop_def CompletionQueue_pop_def same_loop_def fun_upd_idem)
next
  case (Cons t ts)
  then have p: "CompletionQueue_pop d = Some (t, d\<lparr>cq_q := ts\<rparr>)" by (simp add: CompletionQueue_pop_def)
  show ?thesis using pop_core [OF c q p] q Cons p
    by (simp add: rt_cq_try_pop_def TryPop_def same_loop_def)
qed

section \<open>Packed argument vectors\<close>

lemma pack_total: "fold (\<lambda>p a. a + length p + 1) parts n = n + length (concat (map (\<lambda>w. w @ [0 :: byte]) parts))"
  by (induction parts arbitrary: n) simp_all

lemma pack_loop_eq:
  assumes "length out = off + length (concat (map (\<lambda>w. w @ [0]) parts)) + k" 
  shows "pack_loop parts out off
    = take off out @ concat (map (\<lambda>w. w @ [0]) parts) @ drop (length out - k) out"
  using assms
proof (induction parts arbitrary: out off)
  case Nil
  then show ?case by simp
next
  case (Cons p ps)
  let ?out = "(bytevector_copy p out off)[off + length p := 0]"
  let ?rest = "concat (map (\<lambda>w. w @ [0]) ps)"
  have le: "off + length p < length out" using Cons.prems by simp
  have o: "?out = take off out @ p @ 0 # drop (off + length p + 1) out"
  proof -
    have "drop (off + length p) out = out ! (off + length p) # drop (off + length p + 1) out"
      using le by (simp add: Cons_nth_drop_Suc)
    then show ?thesis using le by (simp add: bytevector_copy_def list_update_append)
  qed
  have len: "length ?out = (off + length p + 1) + length ?rest + k" using Cons.prems le by (simp add: o)
  have lo: "length ?out = length out" using le by (simp add: o)
  have "take (off + length p + 1) ?out = take off out @ p @ [0]" using le by (simp add: o)
  moreover have "drop (length out - k) ?out = drop (length out - k) out"
    using le Cons.prems by (simp add: o add.assoc add.commute add.left_commute)
  ultimately show ?case using Cons.IH [OF len] lo by simp
qed

lemma pack_strings_eq:
  "pack_strings parts = (if parts = [] then [0] else concat (map (\<lambda>w. w @ [0]) parts))"
proof (cases parts)
  case Nil
  then show ?thesis by (simp add: pack_strings_def)
next
  case (Cons p ps)
  let ?n = "length (concat (map (\<lambda>w. w @ [0 :: byte]) parts))"
  have t: "max ?n 1 = ?n" using Cons by simp
  have f: "fold (\<lambda>p a. a + length p + 1) parts 0 = ?n" using pack_total [of parts 0] by simp
  have "pack_strings parts = pack_loop parts (replicate ?n 0) 0"
    by (simp only: pack_strings_def Let_def f t)
  also have "\<dots> = concat (map (\<lambda>w. w @ [0]) parts)"
    using pack_loop_eq [of "replicate ?n 0" 0 parts 0] by simp
  finally show ?thesis using Cons by simp
qed

end
