(* ===== verification/Shutdown.thy ===== *)
theory Shutdown
  imports Client
begin

text \<open>
  Graceful shutdown: the first signal closes every registered listener and cancels every
  parked read, and arms the deadline; a second signal, or a signal with no listener open,
  exits the process. The loop over the registry is followed with the listeners still to
  be closed in the place of the registry, so that the invariant holds at every turn.
\<close>

section \<open>Frames\<close>

text \<open>Some tasks completed with \<open>ECANCELED\<close>, the others as they were.\<close>

definition cancelled :: "runtime \<Rightarrow> runtime \<Rightarrow> bool" where
  "cancelled s s' \<longleftrightarrow> (\<exists>ps. set ps \<subseteq> undone (h_tasks s) \<and> h_tasks s' = done_with ps UV_ECANCELED (h_tasks s))"

lemma cancelled_refl: "h_tasks s' = h_tasks s \<Longrightarrow> cancelled s s'"
  unfolding cancelled_def by (rule exI [of _ "[]"]) simp

lemma cancelled_trans: "cancelled s s1 \<Longrightarrow> cancelled s1 s2 \<Longrightarrow> cancelled s s2"
proof -
  assume "cancelled s s1" and "cancelled s1 s2"
  then obtain ps qs where "set ps \<subseteq> undone (h_tasks s)" "set qs \<subseteq> undone (h_tasks s) - set ps"
    "h_tasks s2 = done_with (ps @ qs) UV_ECANCELED (h_tasks s)"
    by (auto simp: cancelled_def undone_done_with done_with_append)
  then show ?thesis unfolding cancelled_def by (intro exI [of _ "ps @ qs"]) auto
qed

lemma cancelled_frame: "cancelled s s' \<Longrightarrow> tasks_frame t s s'"
  using tasks_frame_done by (fastforce simp: cancelled_def)

text \<open>What the shutdown leaves of the client's handles: all but the listeners.\<close>

definition keeps_clients :: "runtime \<Rightarrow> runtime \<Rightarrow> bool" where
  "keeps_clients s s' \<longleftrightarrow> (\<forall>x. client_stream s x \<longrightarrow> client_stream s' x)
     \<and> h_processes s' = h_processes s \<and> h_watchers s' = h_watchers s"

lemma keeps_clients_trans: "keeps_clients s s1 \<Longrightarrow> keeps_clients s1 s2 \<Longrightarrow> keeps_clients s s2"
  by (simp add: keeps_clients_def)

section \<open>Closing the listeners\<close>

text \<open>The acceptors parked at the listeners, and the readers parked at the streams.\<close>

definition acceptors :: "runtime \<Rightarrow> addr list \<Rightarrow> addr list" where
  "acceptors s ls = concat (map (\<lambda>l. l_pending_accepts (the (h_listeners s l))) ls)"

definition readers :: "runtime \<Rightarrow> addr list \<Rightarrow> addr list" where
  "readers s xs = concat (map (\<lambda>x. s_read_queue (the (h_streams s x))) xs)"

text \<open>The reads and the requests are as they were.\<close>

definition same_reads :: "runtime \<Rightarrow> runtime \<Rightarrow> bool" where
  "same_reads s s' \<longleftrightarrow> (\<forall>x. map_option s_read_queue (h_streams s' x) = map_option s_read_queue (h_streams s x))
     \<and> reading_streams s' = reading_streams s \<and> uv_pending s' = uv_pending s"

lemma same_reads_trans: "same_reads s s1 \<Longrightarrow> same_reads s1 s2 \<Longrightarrow> same_reads s s2"
  by (simp add: same_reads_def)

lemma same_reads_readers:
  assumes "same_reads s s'" and "set xs \<subseteq> dom (h_streams s)"
  shows "readers s' xs = readers s xs"
proof -
  have "s_read_queue (the (h_streams s' x)) = s_read_queue (the (h_streams s x))" if "x \<in> set xs" for x
  proof -
    have "x \<in> dom (h_streams s)" using that assms(2) by blast
    moreover have "map_option s_read_queue (h_streams s' x) = map_option s_read_queue (h_streams s x)"
      using assms(1) by (simp add: same_reads_def)
    ultimately show ?thesis by (cases "h_streams s x"; cases "h_streams s' x") auto
  qed
  then show ?thesis unfolding readers_def by (metis (mono_tags, lifting) map_eq_conv)
qed

lemma abort_step:
  assumes c: "core {#} s" and i: "struct_inv (s\<lparr>listeners := l # ls\<rparr>)"
  shows "\<exists>s'. abort_listener l nullptr s = Inr s' \<and> core {#} s' \<and> struct_inv (s'\<lparr>listeners := ls\<rparr>)
    \<and> cancelled s s' \<and> same_control s s' \<and> keeps_clients s s' \<and> closing_in (h_listeners s') l
    \<and> h_tasks s' = done_with (acceptors s [l]) UV_ECANCELED (h_tasks s) \<and> same_reads s s'
    \<and> (\<forall>l'. l' \<noteq> l \<longrightarrow> h_listeners s' l' = h_listeners s l')"
proof -
  let ?s = "s\<lparr>listeners := l # ls\<rparr>"
  note d = struct_invD [OF i]
  have c': "core {#} ?s" using c by simp
  have okl: "listeners_ok (h_listeners s) (l # ls)" using d(3) by simp
  obtain lo where lo: "h_listeners s l = Some lo" "\<not> uv_closing lo"
    using listeners_ok_registered [OF okl, of l] by auto
  have ct: "close_task lo = nullptr" using listeners_okD(5) [OF okl lo] .
  have bo: "\<And>x. x \<in> set (l_accepted lo) \<Longrightarrow>
      \<exists>st. h_streams s x = Some st \<and> \<not> uv_closing st \<and> close_task st = nullptr"
    using backlog_open [OF c' i] lo by simp
  have c0: "core (opt_task nullptr + {#}) s" using c by simp
  have dist: "distinct (l_accepted lo)" using backlog_distinct [OF c' i] lo by simp
  obtain s' where s': "abort_listener l nullptr s = Inr s'" "core {#} s'"
    "h_listeners s' = (h_listeners s)(l \<mapsto> aborted nullptr lo)"
    "h_streams s' = closing_all (l_accepted lo) (h_streams s)"
    "same_handles (s\<lparr>h_listeners := h_listeners s', h_streams := h_streams s'\<rparr>) s'"
    "h_tasks s' = done_with (l_pending_accepts lo) UV_ECANCELED (h_tasks s)"
    using abort_listener_ok [OF c0 lo ct dist bo] by blast
  have cn: "cancelled s s'" using s'(6) acceptors_undone [OF c lo(1)] by (auto simp: cancelled_def)
  note fr = cancelled_frame [OF cn, of nullptr]
  have f: "h_processes s' = h_processes s" "h_watchers s' = h_watchers s"
    "reading_streams s' = reading_streams s" "uv_pending s' = uv_pending s"
    using same_handles_fields [OF s'(5)] by simp_all
  have int: "internal_ok (h_streams s) (h_listeners s) (uv_pending s)" using d(6) by simp
  note fin = core_finite(4) [OF c]
  note ab = abort_internal(1,2) [OF fin lo(1) int, of nullptr] abort_internal(3) [OF fin lo(1) int]
  note as = abort_streams [OF fin lo(1) int]
  have rq: "reqs_ok (h_tasks s') (uv_pending s)"
    by (rule reqs_ok_frame [OF _ fr null_no_request [OF c]]) (use d(7) in simp)
  have "us_erase l (l # ls) = ls" using okl by (simp add: us_erase_def listeners_ok_def)
  then have "listeners_ok (h_listeners s') ls"
    using listeners_ok_closed [OF okl, of "aborted nullptr lo" l] s'(3) by simp
  then have "struct_inv (s'\<lparr>listeners := ls\<rparr>)"
    using d ab(2) as(1,2) rq by (simp add: struct_inv_def f s'(3,4))
  moreover have "keeps_clients s s'"
    using ab(1,3) by (auto simp: keeps_clients_def client_stream_def f s'(3,4)) (auto simp: open_in_def)
  moreover have "same_control s s'" using same_handles_control [OF s'(5)] by simp
  moreover have "closing_in (h_listeners s') l" by (simp add: s'(3) closing_in_def)
  moreover have "h_tasks s' = done_with (acceptors s [l]) UV_ECANCELED (h_tasks s)"
    using s'(6) lo(1) by (simp add: acceptors_def)
  moreover have "same_reads s s'"
    by (auto simp: same_reads_def f s'(4) closing_all_def option.map_comp o_def)
  ultimately show ?thesis using s'(1,2,3) cn by simp
qed

lemma abort_loop:
  assumes "core {#} s" and "struct_inv (s\<lparr>listeners := ls\<rparr>)"
  shows "\<exists>s'. sfold (\<lambda>l. abort_listener l nullptr) ls s = Inr s' \<and> core {#} s'
    \<and> struct_inv (s'\<lparr>listeners := []\<rparr>) \<and> cancelled s s' \<and> same_control s s' \<and> keeps_clients s s'
    \<and> h_tasks s' = done_with (acceptors s ls) UV_ECANCELED (h_tasks s) \<and> same_reads s s'
    \<and> (\<forall>l \<in> set ls. closing_in (h_listeners s') l) \<and> (\<forall>l. l \<notin> set ls \<longrightarrow> h_listeners s' l = h_listeners s l)"
  using assms
proof (induction ls arbitrary: s)
  case Nil
  then show ?case by (simp add: cancelled_refl keeps_clients_def acceptors_def same_reads_def)
next
  case (Cons l ls)
  from abort_step [OF Cons.prems] obtain s1 where s1: "abort_listener l nullptr s = Inr s1" "core {#} s1"
    "struct_inv (s1\<lparr>listeners := ls\<rparr>)" "cancelled s s1" "same_control s s1" "keeps_clients s s1"
    "closing_in (h_listeners s1) l" "h_tasks s1 = done_with (acceptors s [l]) UV_ECANCELED (h_tasks s)"
    "same_reads s s1" "\<forall>l'. l' \<noteq> l \<longrightarrow> h_listeners s1 l' = h_listeners s l'"
    by blast
  have "l \<notin> set ls" using struct_invD(3) [OF Cons.prems(2)] by (simp add: listeners_ok_def)
  then have ac: "acceptors s1 ls = acceptors s ls" using s1(10) by (auto simp: acceptors_def intro!: arg_cong [of _ _ concat] map_cong)
  from Cons.IH [OF s1(2,3)] obtain s2 where s2: "sfold (\<lambda>l. abort_listener l nullptr) ls s1 = Inr s2"
    "core {#} s2" "struct_inv (s2\<lparr>listeners := []\<rparr>)" "cancelled s1 s2" "same_control s1 s2"
    "keeps_clients s1 s2" "h_tasks s2 = done_with (acceptors s1 ls) UV_ECANCELED (h_tasks s1)" "same_reads s1 s2"
    "\<forall>l \<in> set ls. closing_in (h_listeners s2) l" "\<forall>l. l \<notin> set ls \<longrightarrow> h_listeners s2 l = h_listeners s1 l" by blast
  have "h_tasks s2 = done_with (acceptors s (l # ls)) UV_ECANCELED (h_tasks s)"
    using s1(8) s2(7) ac by (simp add: done_with_append) (simp add: acceptors_def)
  moreover have "\<forall>k \<in> set (l # ls). closing_in (h_listeners s2) k"
    using s2(9,10) s1(7) \<open>l \<notin> set ls\<close> by (simp add: closing_in_def)
  moreover have "\<forall>k. k \<notin> set (l # ls) \<longrightarrow> h_listeners s2 k = h_listeners s k" using s2(10) s1(10) by simp
  ultimately show ?case using s1(1) s2(1-3) same_reads_trans [OF s1(9) s2(8)] cancelled_trans [OF s1(4) s2(4)] same_control_trans [OF s1(5) s2(5)]
      keeps_clients_trans [OF s1(6) s2(6)] by simp
qed

section \<open>Cancelling the parked reads\<close>

lemma cancel_step:
  assumes c: "core {#} s" and i: "struct_inv s" and e: "env_ok env"
  shows "\<exists>s'. cancel_pending_reads env s = Inr s' \<and> core {#} s' \<and> struct_inv s' \<and> cancelled s s'
    \<and> same_control s s' \<and> keeps_clients s s' \<and> listeners s' = listeners s
    \<and> reading_streams s' = [] \<and> h_streams s' = (\<lambda>x. map_option idle (h_streams s x))
    \<and> h_tasks s' = done_with (readers s (iter_order env (reading_streams s))) UV_ECANCELED (h_tasks s)
    \<and> h_listeners s' = h_listeners s \<and> uv_pending s' = uv_pending s"
proof -
  note d = struct_invD [OF i]
  have it: "mset (iter_order env (reading_streams s)) = mset (reading_streams s)" using e by (simp add: env_ok_def)
  obtain s' where s': "cancel_pending_reads env s = Inr s'" "core {#} s'"
    "h_streams s' = (\<lambda>x. map_option idle (h_streams s x))" "reading_streams s' = []"
    "same_handles (s\<lparr>h_streams := h_streams s', reading_streams := []\<rparr>) s'"
    "h_tasks s' = done_with (concat (map (\<lambda>x. s_read_queue (the (h_streams s x)))
        (iter_order env (reading_streams s)))) UV_ECANCELED (h_tasks s)"
    using cancel_pending_reads_ok [OF c d(1) it] by blast
  have "set (iter_order env (reading_streams s)) \<subseteq> dom (h_streams s)"
    using mset_eq_setD [OF it] d(1) by (simp add: reads_ok_def)
  then have "set (concat (map (\<lambda>x. s_read_queue (the (h_streams s x))) (iter_order env (reading_streams s))))
      \<subseteq> undone (h_tasks s)" using readers_undone [OF c] by fastforce
  then have cn: "cancelled s s'" using s'(6) unfolding cancelled_def by blast
  note fr = cancelled_frame [OF cn, of nullptr]
  have f: "h_listeners s' = h_listeners s" "h_processes s' = h_processes s" "h_watchers s' = h_watchers s"
    "listeners s' = listeners s" "uv_pending s' = uv_pending s"
    using same_handles_fields [OF s'(5)] by simp_all
  have rq: "reqs_ok (h_tasks s') (uv_pending s)" by (rule reqs_ok_frame [OF d(7) fr null_no_request [OF c]])
  have "internal_ok (h_streams s') (h_listeners s) (uv_pending s)"
    using d(6) unfolding s'(3) by (fastforce simp: internal_ok_def)
  moreover have "close_slots_ok (h_streams s')" using d(2) unfolding s'(3) by (auto simp: close_slots_ok_def)
  ultimately have "struct_inv s'"
    using d rq reads_ok_idle_all [OF d(1)] by (simp add: struct_inv_def f s'(3,4))
  moreover have "keeps_clients s s'"
    by (auto simp: keeps_clients_def client_stream_def f s'(3) open_in_def)
  moreover have "same_control s s'" using same_handles_control [OF s'(5)] by simp
  moreover have "h_tasks s' = done_with (readers s (iter_order env (reading_streams s))) UV_ECANCELED (h_tasks s)"
    using s'(6) by (simp add: readers_def)
  ultimately show ?thesis using s'(1-4) cn f(1,4,5) by simp
qed

section \<open>The signal handler\<close>

lemma listeners_ok_permute:
  assumes "listeners_ok m ls" and "mset ls' = mset ls"
  shows "listeners_ok m ls'"
  using assms mset_eq_imp_distinct_iff [OF assms(2)] mset_eq_setD [OF assms(2)] by (simp add: listeners_ok_def)

lemma core_shutdown:
  "core L (s\<lparr>shutdown_signaled := b, shutdown_signum := n\<rparr>) \<longleftrightarrow> core L s"
  "core L (s\<lparr>shutdown_timer := h, shutdown_timer_started := b, shutdown_timer_due := w\<rparr>) \<longleftrightarrow> core L s"
  by (auto intro: core_cong)

lemma struct_shutdown:
  "struct_inv (s\<lparr>shutdown_signaled := b, shutdown_signum := n\<rparr>) \<longleftrightarrow> struct_inv s"
  "struct_inv (s\<lparr>shutdown_timer := h, shutdown_timer_started := b, shutdown_timer_due := w\<rparr>) \<longleftrightarrow> struct_inv s"
  by (simp_all add: struct_inv_def)

lemma OnSignal_graceful:
  assumes c: "core {#} s" and i: "struct_inv s" and e: "env_ok env"
    and g: "\<not> shutdown_signaled s" "listeners s \<noteq> []"
  shows "\<exists>s'. OnSignal env n s = Inr s' \<and> core {#} s' \<and> struct_inv s' \<and> cancelled s s'
    \<and> keeps_clients s s' \<and> listeners s' = [] \<and> reading_streams s' = []
    \<and> h_tasks s' = done_with (acceptors s (iter_order env (listeners s)) @ readers s (iter_order env (reading_streams s)))
        UV_ECANCELED (h_tasks s)
    \<and> (\<forall>l \<in> set (listeners s). closing_in (h_listeners s') l) \<and> uv_pending s' = uv_pending s
    \<and> same_control (s\<lparr>shutdown_signaled := True, shutdown_signum := n, shutdown_timer := Active,
        shutdown_timer_started := True, shutdown_timer_due := shutdown_timeout_ms s\<rparr>) s'"
proof -
  let ?s0 = "s\<lparr>shutdown_signaled := True, shutdown_signum := n\<rparr>"
  let ?ls = "iter_order env (listeners s)"
  have c0: "core {#} ?s0" using c by (simp add: core_shutdown)
  have "mset ?ls = mset (listeners s)" using e by (simp add: env_ok_def)
  then have "listeners_ok (h_listeners s) ?ls" using listeners_ok_permute struct_invD(3) [OF i] by blast
  then have i0: "struct_inv (?s0\<lparr>listeners := ?ls\<rparr>)" using i by (simp add: struct_inv_def)
  from abort_loop [OF c0 i0] obtain s1 where s1: "sfold (\<lambda>l. abort_listener l nullptr) ?ls ?s0 = Inr s1"
    "core {#} s1" "struct_inv (s1\<lparr>listeners := []\<rparr>)" "cancelled ?s0 s1" "same_control ?s0 s1"
    "keeps_clients ?s0 s1" "h_tasks s1 = done_with (acceptors ?s0 ?ls) UV_ECANCELED (h_tasks ?s0)"
    "same_reads ?s0 s1" "\<forall>l \<in> set ?ls. closing_in (h_listeners s1) l" by blast
  have c1: "core {#} (s1\<lparr>listeners := []\<rparr>)" using s1(2) by simp
  from cancel_step [OF c1 s1(3) e] obtain s2 where s2:
    "cancel_pending_reads env (s1\<lparr>listeners := []\<rparr>) = Inr s2" "core {#} s2" "struct_inv s2"
    "cancelled (s1\<lparr>listeners := []\<rparr>) s2" "same_control (s1\<lparr>listeners := []\<rparr>) s2"
    "keeps_clients (s1\<lparr>listeners := []\<rparr>) s2" "listeners s2 = listeners (s1\<lparr>listeners := []\<rparr>)"
    "reading_streams s2 = []"
    "h_tasks s2 = done_with (readers (s1\<lparr>listeners := []\<rparr>) (iter_order env (reading_streams (s1\<lparr>listeners := []\<rparr>))))
       UV_ECANCELED (h_tasks (s1\<lparr>listeners := []\<rparr>))"
    "h_listeners s2 = h_listeners (s1\<lparr>listeners := []\<rparr>)" "uv_pending s2 = uv_pending (s1\<lparr>listeners := []\<rparr>)" by blast
  have rs: "reading_streams s1 = reading_streams s" "uv_pending s1 = uv_pending s" using s1(8) by (simp_all add: same_reads_def)
  have "set (iter_order env (reading_streams s)) \<subseteq> dom (h_streams s)"
    using struct_invD(1) [OF i] e mset_eq_setD [of "iter_order env (reading_streams s)" "reading_streams s"]
    by (auto simp: reads_ok_def env_ok_def)
  then have "readers s1 (iter_order env (reading_streams s)) = readers ?s0 (iter_order env (reading_streams s))"
    by (intro same_reads_readers [OF s1(8)]) simp
  then have ht: "h_tasks s2 = done_with (acceptors s (iter_order env (listeners s)) @ readers s (iter_order env (reading_streams s)))
        UV_ECANCELED (h_tasks s)"
    using s2(9) s1(7) rs(1) by (simp add: acceptors_def readers_def done_with_append)
  let ?s' = "s2\<lparr>shutdown_timer := Active, shutdown_timer_started := True,
    shutdown_timer_due := shutdown_timeout_ms s2\<rparr>"
  have "OnSignal env n s = Inr ?s'" using g s1(1) s2(1) by (simp add: OnSignal_def Let_def)
  moreover have "core {#} ?s'" "struct_inv ?s'" using s2(2,3) by (simp_all add: core_shutdown struct_shutdown)
  moreover have "cancelled s ?s'"
    using cancelled_trans [OF s1(4), of s2] s2(4) by (simp add: cancelled_def)
  moreover have "keeps_clients s ?s'"
    using s1(6) s2(6) by (simp add: keeps_clients_def client_stream_def)
  moreover have "same_control (s\<lparr>shutdown_signaled := True, shutdown_signum := n, shutdown_timer := Active,
        shutdown_timer_started := True, shutdown_timer_due := shutdown_timeout_ms s\<rparr>) ?s'"
    using s1(5) s2(5) by (simp add: same_control_def)
  moreover have "\<forall>l \<in> set (listeners s). closing_in (h_listeners s2) l"
    using s1(9) s2(10) mset_eq_setD [OF \<open>mset ?ls = mset (listeners s)\<close>] by simp
  ultimately show ?thesis using s2(7,8,11) ht rs(2) by (intro exI [of _ ?s']) simp
qed

text \<open>A second signal, or one with nothing to drain, ends the process.\<close>

lemma OnSignal_exit:
  assumes "shutdown_signaled s \<or> listeners s = []"
  shows "OnSignal env n s = Inr (s\<lparr>shutdown_signaled := True, exit_code := Some (128 + n)\<rparr>)"
  using assms by (auto simp: OnSignal_def Let_def)

end
