(* ===== verification/System.thy ===== *)
theory System
  imports Shutdown
begin

text \<open>
  The whole runtime as a transition system: the actions of the client (the C ABI), of
  libuv (callbacks, the async wake-up, signals, the deadline) and of the lifecycle, each
  with the condition under which it may happen and its execution by the definitions of the
  other theories. Two things are assumed of the client beyond the handle discipline: tasks
  are submitted while the runtime is running, and a task is freed once, after it completed.

  The main result: every reachable state satisfies \<open>inv\<close>, and no allowed action faults.

  One condition of \<open>allowed\<close> is neither the client's to keep nor libuv's: the first signal
  does not arrive while an accept is still queued. In the program it may, and the accept then
  uses its listener after it was freed (C27 in \<open>Server_Theorems\<close>), so no theorem about the
  states beyond could hold. Every other order of the actions is covered.
\<close>

section \<open>Definitions\<close>

datatype action =
    Event uv_event
  | Async "nat \<Rightarrow> uv_env"
  | Signal uv_env int
  | Deadline
  | StartRt
  | StopRt
  | SetExitOnSignal int
  | SetTimeout "32 word"
  | SubmitTask uv_env Op addr "task \<Rightarrow> task"
  | SubmitPinned uv_env Op addr addr "32 word" "32 word" "task \<Rightarrow> task"
  | FreeTask addr
  | CqCreate uv_env
  | CqFree addr
  | CqWait addr
  | CqTryPop addr

fun exec :: "action \<Rightarrow> runtime \<Rightarrow> fault + runtime" where
  "exec (Event ev) s = fire ev s"
| "exec (Async envs) s = OnAsync envs s"
| "exec (Signal env n) s = OnSignal env n s"
| "exec Deadline s = Inr (OnShutdownTimer s)"
| "exec StartRt s = Inr (rt_runtime_start s)"
| "exec StopRt s = rt_runtime_stop s"
| "exec (SetExitOnSignal on) s = Inr (rt_runtime_exit_on_signal on s)"
| "exec (SetTimeout ms) s = Inr (rt_shutdown_timeout ms s)"
| "exec (SubmitTask env op cq f) s =
     sbind (fill_submit env f (new_task env op cq s)) (\<lambda>(t, s'). Inr s')"
| "exec (SubmitPinned env op cq bv start n f) s =
     sbind (fill_submit env f (new_pinned_task env op cq bv start n s)) (\<lambda>(t, s'). Inr s')"
| "exec (FreeTask t) s = rt_task_free t s"
| "exec (CqCreate env) s = Inr (snd (rt_cq_create env s))"
| "exec (CqFree q) s = rt_cq_free q s"
| "exec (CqWait q) s = sbind (rt_cq_wait q s) (\<lambda>(r, s'). Inr s')"
| "exec (CqTryPop q) s = sbind (rt_cq_try_pop q s) (\<lambda>(r, s'). Inr s')"

text \<open>The discipline of submission.\<close>

definition can_submit :: "uv_env \<Rightarrow> task \<Rightarrow> runtime \<Rightarrow> bool" where
  "can_submit env tk s \<longleftrightarrow> running s \<and> h_tasks s (new_addr env 0) = None \<and> new_addr env 0 \<noteq> nullptr
     \<and> cq_alive (t_cq tk) s \<and> ready s tk \<and> (\<forall>t \<in> set (queue s). \<not> conflict (task_of s t) tk)
     \<and> (t_ext_data tk = nullptr \<longrightarrow> unat (t_nbytes tk) \<le> length (t_buffer tk))"

fun allowed :: "action \<Rightarrow> runtime \<Rightarrow> bool" where
  "allowed (Event ev) s = enabled ev s"
| "allowed (Async envs) s = (async s = Active \<and> async_sent s \<and> fresh_envs envs (length (queue s)) s)"
| "allowed (Signal env n) s = ((sig_int s = Active \<or> sig_term s = Active) \<and> env_ok env
     \<and> (shutdown_signaled s \<or> (\<forall>t \<in> set (queue s). t_op (task_of s t) \<noteq> TcpAccept)))"
| "allowed Deadline s = (shutdown_timer s = Active \<and> shutdown_timer_started s)"
| "allowed StartRt s = (running s \<or> \<not> uv_loop_alive s)"
| "allowed StopRt s = True"
| "allowed (SetExitOnSignal on) s = (async s \<noteq> Active)"
| "allowed (SetTimeout ms) s = True"
| "allowed (SubmitTask env op cq f) s = (fills f \<and> can_submit env (f (fresh_task op cq)) s)"
| "allowed (SubmitPinned env op cq bv start n f) s =
     (fills f \<and> bv \<noteq> nullptr \<and> can_submit env (f (pinned_task env op cq bv start n)) s)"
| "allowed (FreeTask t) s = (case h_tasks s t of None \<Rightarrow> False | Some tk \<Rightarrow> t_done tk)"
| "allowed (CqCreate env) s = (h_cqs s (new_addr env 0) = None \<and> new_addr env 0 \<noteq> nullptr)"
| "allowed (CqFree q) s = (q \<noteq> nullptr \<and> (case h_cqs s q of None \<Rightarrow> False
     | Some d \<Rightarrow> cq_refs d = int (card (cq_users (h_tasks s) q)) + 1))"
| "allowed (CqWait q) s = (h_cqs s q \<noteq> None)"
| "allowed (CqTryPop q) s = (h_cqs s q \<noteq> None)"

text \<open>A process that has called \<open>_Exit\<close> does nothing any more.\<close>

inductive reachable :: "runtime \<Rightarrow> bool" where
  reach_init: "reachable runtime_init"
| reach_step: "reachable s \<Longrightarrow> exit_code s = None \<Longrightarrow> allowed a s \<Longrightarrow> exec a s = Inr s' \<Longrightarrow> reachable s'"

definition inv :: "runtime \<Rightarrow> bool" where
  "inv s \<longleftrightarrow> core {#} s \<and> struct_inv s \<and> bufs_ok (h_tasks s) \<and> batch_ok (queue s) s \<and> life_ok s"

definition goes_on :: "fault + runtime \<Rightarrow> bool" where
  "goes_on m \<longleftrightarrow> (\<exists>s'. m = Inr s' \<and> inv s')"

section \<open>Preservation\<close>

lemma invD:
  assumes "inv s"
  shows "core {#} s" "struct_inv s" "bufs_ok (h_tasks s)" "batch_ok (queue s) s" "life_ok s"
  using assms by (simp_all add: inv_def)

lemma goes_onI: "m = Inr s' \<Longrightarrow> core {#} s' \<Longrightarrow> struct_inv s' \<Longrightarrow> bufs_ok (h_tasks s') \<Longrightarrow>
  batch_ok (queue s') s' \<Longrightarrow> life_ok s' \<Longrightarrow> goes_on m"
  by (simp add: goes_on_def inv_def)

lemma batch_ok_same:
  assumes "\<And>t. t \<in> set ts \<Longrightarrow> h_tasks s' t = h_tasks s t"
    and "\<And>t. t \<in> set ts \<Longrightarrow> ready s (task_of s t) \<Longrightarrow> ready s' (task_of s t)"
    and "batch_ok ts s"
  shows "batch_ok ts s'"
proof -
  have same: "task_of s' t = task_of s t" if "t \<in> set ts" for t using assms(1) [OF that] by (simp add: task_of_def)
  have "sorted_wrt (\<lambda>a b. \<not> conflict (task_of s' a) (task_of s' b)) ts"
    by (rule sorted_wrt_mono_rel [of ts "\<lambda>a b. \<not> conflict (task_of s a) (task_of s b)"])
      (use assms(3) same in \<open>auto simp: batch_ok_def\<close>)
  then show ?thesis using assms same by (simp add: batch_ok_def)
qed

lemma queue_undone: "core L s \<Longrightarrow> t \<in> set (queue s) \<Longrightarrow> t \<in> undone (h_tasks s)"
  using core_member_undone [of L s t] by (simp add: held_def)

lemma pending_undone: "core L s \<Longrightarrow> q \<in> set (uv_pending s) \<Longrightarrow> req_task q \<in> undone (h_tasks s)"
  using core_member_undone [of L s "req_task q"] held_pending by fastforce

text \<open>The queued tasks stay as they are when callbacks run.\<close>

lemma batch_kept:
  assumes c: "core {#} s" "core {#} s'" and q: "queue s' = queue s" and fr: "tasks_frame t s s'"
    and t: "t = nullptr \<or> t \<notin> set (queue s)"
    and r: "\<And>tk. tk \<in> task_of s ` set (queue s) \<Longrightarrow> ready s tk \<Longrightarrow> ready s' tk" and b: "batch_ok (queue s) s"
  shows "batch_ok (queue s') s'"
proof -
  have "h_tasks s' t' = h_tasks s t'" if "t' \<in> set (queue s)" for t'
  proof -
    have "t' \<noteq> nullptr" using core_nonnull [OF c(1), of t'] that by (auto simp: held_def)
    then have "t' \<noteq> t" using t that by auto
    then show ?thesis using undone_unchanged [OF fr] queue_undone [OF c(2)] that q by simp
  qed
  then show ?thesis unfolding q by (rule batch_ok_same) (use r b in auto)
qed

lemma life_ok_control: "same_control s s' \<Longrightarrow> life_ok s \<Longrightarrow> life_ok s'"
  by (simp add: same_control_def life_ok_def)

lemma quiet_no_conflict: "\<not> conflict quiet tk"
  by (simp add: conflict_def Task_ctor_def)

lemma Event_goes_on:
  assumes i: "inv s" and e: "enabled ev s"
  shows "goes_on (fire ev s)"
proof -
  note d = invD [OF i]
  obtain s' t where s': "fire ev s = Inr s'" "core {#} s'" "struct_inv s'" "tasks_frame t s s'"
    "t = nullptr \<or> t \<notin> set (queue s)" "keeps_handles quiet s s'" "same_control s s'"
    using fire_ok [OF d(1-3) e] by (auto simp: event_ok_def)
  have q: "queue s' = queue s" using s'(7) by (simp add: same_control_def)
  have "batch_ok (queue s') s'"
    by (rule batch_kept [OF d(1) s'(2) q s'(4,5) _ d(4)]) (use ready_kept [OF _ s'(6) quiet_no_conflict] in blast)
  then show ?thesis
    using goes_onI [OF s'(1-3) bufs_ok_frame [OF d(3) s'(4)]] life_ok_control [OF s'(7) d(5)] by blast
qed

lemma Async_goes_on:
  assumes i: "inv s" and a: "allowed (Async envs) s"
  shows "goes_on (OnAsync envs s)"
proof -
  note d = invD [OF i]
  let ?s = "s\<lparr>async_sent := False\<rparr>"
  have c: "core {#} ?s" "struct_inv ?s" using d by (simp_all add: core_control struct_control)
  have b: "batch_ok (queue ?s) ?s" using d(4) batch_ok_cong [of ?s s] by simp
  have e: "fresh_envs envs (length (queue ?s)) ?s" using a by (simp add: fresh_envs_def fresh_def addr_used_def)
  have l: "async ?s = Active" "exit_on_signal ?s \<longrightarrow> sig_int ?s = Active \<and> sig_term ?s = Active"
    "shutdown_timer_started ?s \<longrightarrow> shutdown_timer ?s = Active"
    using a d(5) by (simp_all add: life_ok_def)
  obtain s' where s': "Drain envs ?s = Inr s'" "core {#} s'" "struct_inv s'" "queue s' = []"
    "if stopping ?s then async s' = Closed \<and> \<not> shutdown_timer_started s'
         \<and> (exit_on_signal s' \<longrightarrow> sig_int s' = Closed \<and> sig_term s' = Closed)
       else same_control (?s\<lparr>queue := []\<rparr>) s'"
    "running s' = running ?s" "stopping s' = stopping ?s" "bufs_ok (h_tasks ?s) \<longrightarrow> bufs_ok (h_tasks s')"
    using Drain_ok [OF c b e l] by blast
  have "life_ok s'"
  proof (cases "stopping s")
    case True
    then show ?thesis using s'(4-7) d(5) by (simp add: life_ok_def)
  next
    case False
    then have "same_control (?s\<lparr>queue := []\<rparr>) s'" using s'(5) by simp
    then show ?thesis by (rule life_ok_control) (use d(5) False in \<open>simp add: life_ok_def\<close>)
  qed
  then show ?thesis using goes_onI [OF _ s'(2,3)] s'(1,4,8) d(3)
    by (simp add: OnAsync_def batch_ok_def)
qed

lemma ready_clients:
  assumes "ready s tk" and "t_op tk \<noteq> TcpAccept" and "keeps_clients s s'"
  shows "ready s' tk"
  using assms by (cases "t_op tk") (auto simp: ready_def keeps_clients_def unwaited_def)

lemma core_exit:
  "core L (s\<lparr>shutdown_signaled := b\<rparr>) \<longleftrightarrow> core L s" "core L (s\<lparr>exit_code := e\<rparr>) \<longleftrightarrow> core L s"
  "core L (s\<lparr>exit_on_signal := b\<rparr>) \<longleftrightarrow> core L s" "core L (s\<lparr>shutdown_timeout_ms := w\<rparr>) \<longleftrightarrow> core L s"
  by (auto intro: core_cong)

lemma Signal_goes_on:
  assumes i: "inv s" and a: "allowed (Signal env n) s"
  shows "goes_on (OnSignal env n s)"
proof (cases "shutdown_signaled s \<or> listeners s = []")
  case True
  let ?s' = "s\<lparr>shutdown_signaled := True, exit_code := Some (128 + n)\<rparr>"
  note d = invD [OF i]
  have "batch_ok (queue ?s') ?s'" using d(4) batch_ok_cong [of ?s' s] by simp
  then show ?thesis using d OnSignal_exit [OF True, of env n]
    by (simp add: goes_on_def inv_def core_exit struct_inv_def life_ok_def)
next
  case False
  note d = invD [OF i]
  have e: "env_ok env" using a by simp
  obtain s' where s': "OnSignal env n s = Inr s'" "core {#} s'" "struct_inv s'" "cancelled s s'"
    "keeps_clients s s'"
    "same_control (s\<lparr>shutdown_signaled := True, shutdown_signum := n, shutdown_timer := Active,
        shutdown_timer_started := True, shutdown_timer_due := shutdown_timeout_ms s\<rparr>) s'"
    using OnSignal_graceful [OF d(1,2) e, of n] False by auto
  have q: "queue s' = queue s" using s'(6) by (simp add: same_control_def)
  have "batch_ok (queue s') s'"
    by (rule batch_kept [OF d(1) s'(2) q cancelled_frame [OF s'(4)] _ _ d(4), of nullptr])
      (use a False ready_clients [OF _ _ s'(5)] in auto)
  moreover have "life_ok s'" by (rule life_ok_control [OF s'(6)]) (use d(5) in \<open>simp add: life_ok_def\<close>)
  ultimately show ?thesis
    using goes_onI [OF s'(1-3) bufs_ok_frame [OF d(3) cancelled_frame [OF s'(4)]]] by blast
qed

text \<open>Actions that leave the tasks, the handles and the queue alone.\<close>

lemma same_loop_inv:
  assumes i: "inv s" and c: "core {#} s'" and sl: "same_loop s s'" and bf: "bufs_ok (h_tasks s')"
    and t: "\<And>t. t \<in> undone (h_tasks s) \<Longrightarrow> h_tasks s' t = h_tasks s t"
  shows "inv s'"
proof -
  note d = invD [OF i]
  have f: "h_streams s' = h_streams s" "h_listeners s' = h_listeners s" "h_processes s' = h_processes s"
    "h_watchers s' = h_watchers s" "uv_pending s' = uv_pending s" "queue s' = queue s"
    "listeners s' = listeners s" "reading_streams s' = reading_streams s"
    using sl by (simp_all add: same_loop_def)
  have "reqs_ok (h_tasks s') (uv_pending s)"
    using struct_invD(7) [OF d(2)] t pending_undone [OF d(1)] req_good_cong [of "h_tasks s'" _ "h_tasks s"]
    by (auto simp: reqs_ok_def)
  then have "struct_inv s'" using struct_invD [OF d(2)] by (simp add: struct_inv_def f)
  moreover have "batch_ok (queue s') s'" unfolding f(6)
    by (rule batch_ok_same [OF _ _ d(4)]) (use t queue_undone [OF d(1)] ready_cong [OF f(1-5)] in auto)
  moreover have "life_ok s'" using d(5) sl by (simp add: life_ok_def same_loop_def)
  ultimately show ?thesis using c bf by (simp add: inv_def)
qed

lemma FreeTask_goes_on:
  assumes i: "inv s" and a: "allowed (FreeTask t) s"
  shows "goes_on (rt_task_free t s)"
proof -
  note d = invD [OF i]
  obtain tk where tk: "h_tasks s t = Some tk" "t_done tk" using a by (auto split: option.splits)
  obtain s' where s': "rt_task_free t s = Inr s'" "core {#} s'" "same_loop s s'"
    "h_tasks s' = (h_tasks s)(t := None)" using rt_task_free_ok [OF d(1) tk] by blast
  have "t \<notin> undone (h_tasks s)" using tk by (simp add: undone_def)
  then have "\<And>t'. t' \<in> undone (h_tasks s) \<Longrightarrow> h_tasks s' t' = h_tasks s t'" using s'(4) by auto
  moreover have "bufs_ok (h_tasks s')" using d(3) s'(4) by (auto simp: bufs_ok_def)
  ultimately show ?thesis using same_loop_inv [OF i s'(2,3)] s'(1) by (auto simp: goes_on_def)
qed

lemma cq_goes_on:
  assumes i: "inv s" and s': "core {#} s'" "same_loop s s'" "h_tasks s' = h_tasks s"
  shows "goes_on (Inr s')"
  using same_loop_inv [OF i s'(1,2)] invD(3) [OF i] s'(3) by (simp add: goes_on_def)

lemma CqCreate_goes_on:
  assumes i: "inv s" and a: "allowed (CqCreate env) s"
  shows "goes_on (exec (CqCreate env) s)"
proof -
  have q: "h_cqs s (new_addr env 0) = None" "new_addr env 0 \<noteq> nullptr" using a by simp_all
  from rt_cq_create_ok [OF invD(1) [OF i] refl q] show ?thesis using cq_goes_on [OF i] by auto
qed

lemma CqFree_goes_on:
  assumes i: "inv s" and a: "allowed (CqFree q) s"
  shows "goes_on (exec (CqFree q) s)"
proof -
  obtain c where c: "h_cqs s q = Some c" "q \<noteq> nullptr" "cq_refs c = int (card (cq_users (h_tasks s) q)) + 1"
    using a by (auto split: option.splits)
  from rt_cq_free_ok [OF invD(1) [OF i] c] show ?thesis using cq_goes_on [OF i] by auto
qed

lemma CqPop_goes_on:
  assumes i: "inv s" and a: "h_cqs s q \<noteq> None"
  shows "goes_on (exec (CqWait q) s)" and "goes_on (exec (CqTryPop q) s)"
proof -
  obtain c where c: "h_cqs s q = Some c" using a by blast
  from rt_cq_wait_ok [OF invD(1) [OF i] c] show "goes_on (exec (CqWait q) s)"
    using cq_goes_on [OF i] by auto
  from rt_cq_try_pop_ok [OF invD(1) [OF i] c] show "goes_on (exec (CqTryPop q) s)"
    using cq_goes_on [OF i] by auto
qed

section \<open>Submission\<close>

lemma submit_goes_on:
  assumes i: "inv s" and f: "fills f" and cs: "can_submit env (f tk0) s" and t: "new_addr env 0 = t"
    and tk0: "\<not> t_done tk0"
    and s1: "m = Inr s1" "h_tasks s1 = (h_tasks s)(t \<mapsto> tk0)" "h_cqs s1 = retained (t_cq tk0) (h_cqs s)"
      "live s1 = (live s)(CTask := live s CTask + 1)"
      "locked s1 = opt_task (t_pinned_obj tk0) + locked s" "same_loop s s1"
  shows "\<exists>s'. fill_submit env f m = Inr (t, s') \<and> inv s' \<and> queue s' = queue s @ [t]
    \<and> h_tasks s' = (h_tasks s)(t \<mapsto> f tk0)"
proof -
  note d = invD [OF i]
  have k: "running s" "h_tasks s t = None" "t \<noteq> nullptr" "cq_alive (t_cq tk0) s" "ready s (f tk0)"
    "\<forall>t' \<in> set (queue s). \<not> conflict (task_of s t') (f tk0)"
    "t_ext_data (f tk0) = nullptr \<longrightarrow> unat (t_nbytes (f tk0)) \<le> length (t_buffer (f tk0))"
    using cs f t by (simp_all add: can_submit_def fills_def)
  have c1: "core (add_mset t {#}) s1" by (rule core_new_task [OF d(1) k(2,3) tk0 k(4) s1(2-6)])
  have g: "running s1" "async s1 = Active" "h_tasks s1 t = Some tk0"
    using s1(2,6) k(1) d(5) by (simp_all add: same_loop_def life_ok_def)
  define s' where "s' = s1\<lparr>h_tasks := (h_tasks s1)(t \<mapsto> f tk0), queue := queue s1 @ [t], async_sent := True\<rparr>"
  have r: "fill_submit env f m = Inr (t, s')"
    using fill_submit_ok [OF t g(3,1,2), of f] s1(1) by (simp add: s'_def)
  have c': "core {#} s'" unfolding s'_def by (rule submit_core [OF c1 g(3) f])
  have ht: "h_tasks s' = (h_tasks s)(t \<mapsto> f tk0)" by (simp add: s'_def s1(2))
  have fl: "h_streams s' = h_streams s" "h_listeners s' = h_listeners s" "h_processes s' = h_processes s"
    "h_watchers s' = h_watchers s" "uv_pending s' = uv_pending s" "queue s' = queue s @ [t]"
    "listeners s' = listeners s" "reading_streams s' = reading_streams s"
    using s1(6) by (simp_all add: same_loop_def s'_def)
  have tu: "t' \<noteq> t" if "t' \<in> undone (h_tasks s)" for t' using that k(2) by (auto simp: undone_def)
  have "reqs_ok (h_tasks s') (uv_pending s)"
    using struct_invD(7) [OF d(2)] tu pending_undone [OF d(1)] req_good_cong [of "h_tasks s'" _ "h_tasks s"] ht
    by (auto simp: reqs_ok_def)
  then have st: "struct_inv s'" using struct_invD [OF d(2)] by (simp add: struct_inv_def fl)
  have bf: "bufs_ok (h_tasks s')" using d(3) k(7) by (auto simp: bufs_ok_def ht)
  have qs: "h_tasks s' t' = h_tasks s t'" if "t' \<in> set (queue s)" for t'
    using tu queue_undone [OF d(1) that] ht by auto
  have "batch_ok (queue s) s'"
    by (rule batch_ok_same [OF qs _ d(4)]) (use ready_cong [OF fl(1-5)] in auto)
  moreover have "task_of s' t = f tk0" by (simp add: task_of_def ht)
  moreover have "\<forall>t' \<in> set (queue s). task_of s' t' = task_of s t'" using qs by (simp add: task_of_def)
  ultimately have "batch_ok (queue s') s'"
    using k(5,6) ready_cong [OF fl(1-5)] by (simp add: batch_ok_def fl(6) sorted_wrt_append)
  moreover have "life_ok s'" using d(5) s1(6) g by (simp add: life_ok_def same_loop_def s'_def)
  ultimately show ?thesis using r c' st bf ht fl(6) by (auto simp: inv_def)
qed

lemma fresh_task_simps [simp]:
  "\<not> t_done (fresh_task op cq)" "t_cq (fresh_task op cq) = cq" "t_pinned_obj (fresh_task op cq) = nullptr"
  by (simp_all add: fresh_task_def Task_ctor_def)

lemma pinned_task_simps [simp]:
  "\<not> t_done (pinned_task env op cq bv start n)" "t_cq (pinned_task env op cq bv start n) = cq"
  "t_pinned_obj (pinned_task env op cq bv start n) = bv"
  by (simp_all add: pinned_task_def)

lemma SubmitTask_ok:
  assumes i: "inv s" and a: "fills f" "can_submit env (f (fresh_task op cq)) s"
  shows "\<exists>s'. fill_submit env f (new_task env op cq s) = Inr (new_addr env 0, s') \<and> inv s'
    \<and> queue s' = queue s @ [new_addr env 0] \<and> h_tasks s' = (h_tasks s)(new_addr env 0 \<mapsto> f (fresh_task op cq))"
proof -
  have "cq_alive cq s" using a by (simp add: can_submit_def fills_def)
  from new_task_ok [OF refl this, of env op] obtain s1 where s1: "new_task env op cq s = Inr s1"
    "h_tasks s1 = (h_tasks s)(new_addr env 0 \<mapsto> fresh_task op cq)" "h_cqs s1 = retained cq (h_cqs s)"
    "live s1 = (live s)(CTask := live s CTask + 1)" "locked s1 = locked s" "same_loop s s1" by blast
  show ?thesis by (rule submit_goes_on [OF i a refl _ s1(1,2)]) (use s1 in simp_all)
qed

lemma SubmitPinned_ok:
  assumes i: "inv s" and a: "fills f" "bv \<noteq> nullptr" "can_submit env (f (pinned_task env op cq bv start n)) s"
  shows "\<exists>s'. fill_submit env f (new_pinned_task env op cq bv start n s) = Inr (new_addr env 0, s') \<and> inv s'
    \<and> queue s' = queue s @ [new_addr env 0]
    \<and> h_tasks s' = (h_tasks s)(new_addr env 0 \<mapsto> f (pinned_task env op cq bv start n))"
proof -
  have "cq_alive cq s" using a by (simp add: can_submit_def fills_def)
  from new_pinned_task_ok [OF refl this, of env op bv start n] obtain s1 where s1:
    "new_pinned_task env op cq bv start n s = Inr s1"
    "h_tasks s1 = (h_tasks s)(new_addr env 0 \<mapsto> pinned_task env op cq bv start n)"
    "h_cqs s1 = retained cq (h_cqs s)" "live s1 = (live s)(CTask := live s CTask + 1)"
    "locked s1 = add_mset bv (locked s)" "same_loop s s1" by blast
  show ?thesis by (rule submit_goes_on [OF i a(1,3) refl _ s1(1,2)]) (use s1 a(2) in simp_all)
qed

section \<open>Lifecycle\<close>

lemma control_inv:
  assumes i: "inv s" and c: "core {#} s' = core {#} s" and h: "h_tasks s' = h_tasks s"
    "h_streams s' = h_streams s" "h_listeners s' = h_listeners s" "h_processes s' = h_processes s"
    "h_watchers s' = h_watchers s" "uv_pending s' = uv_pending s" "queue s' = queue s"
    "listeners s' = listeners s" "reading_streams s' = reading_streams s" and l: "life_ok s'"
  shows "inv s'"
  using invD [OF i] c l batch_ok_cong [OF h(2-6,1)] by (simp add: inv_def struct_inv_def h)

lemma core_life:
  "core L (s\<lparr>running := a, stopping := b, shutdown_signaled := c, shutdown_timer_started := d,
     reading_streams := e, async := f, async_sent := g\<rparr>) = core L s"
  "core L (s\<lparr>running := a, stopping := b, async_sent := g\<rparr>) = core L s"
  "core L (s\<lparr>sig_int := i\<rparr>) = core L s" "core L (s\<lparr>sig_term := j\<rparr>) = core L s"
  by (auto intro: core_cong)

lemma quiescent:
  assumes i: "inv s" and a: "\<not> uv_loop_alive s"
  shows "queue s = []" "reading_streams s = []" "async s \<noteq> Active"
proof -
  note d = invD [OF i]
  show "async s \<noteq> Active" using a by (simp add: uv_loop_alive_def)
  then show "queue s = []" using d(5) by (auto simp: life_ok_def)
  have "x \<notin> set (reading_streams s)" for x
  proof
    assume x: "x \<in> set (reading_streams s)"
    then obtain st where "h_streams s x = Some st" using struct_invD(1) [OF d(2)] by (auto simp: reads_ok_def)
    then show False using a x reads_okD(2,3) [OF struct_invD(1) [OF d(2)]] by (auto simp: uv_loop_alive_def)
  qed
  then show "reading_streams s = []" by (cases "reading_streams s") auto
qed

lemma StartRt_goes_on:
  assumes i: "inv s" and a: "allowed StartRt s"
  shows "inv (Start s)"
proof (cases "running s")
  case True
  then show ?thesis using i by (simp add: Start_def)
next
  case False
  then have q: "queue s = []" "reading_streams s = []" using quiescent [OF i] a by auto
  show ?thesis
    by (rule control_inv [OF i])
      (use False q in \<open>simp_all add: Start_def Let_def core_life life_ok_def\<close>)
qed

lemma StopRt_goes_on:
  assumes i: "inv s"
  shows "goes_on (Stop s)"
proof (cases "running s")
  case False
  then show ?thesis using i by (simp add: Stop_def goes_on_def)
next
  case True
  let ?s' = "s\<lparr>running := False, stopping := True, async_sent := True\<rparr>"
  have r: "Stop s = Inr ?s'" using True invD(5) [OF i] by (simp add: Stop_def uv_async_send_def life_ok_def)
  have "inv ?s'" by (rule control_inv [OF i]) (use invD(5) [OF i] True in \<open>simp_all add: core_life life_ok_def\<close>)
  then show ?thesis using r by (simp add: goes_on_def)
qed

lemma setting_goes_on:
  assumes i: "inv s"
  shows "goes_on (exec Deadline s)" and "goes_on (exec (SetTimeout ms) s)"
    and "async s \<noteq> Active \<Longrightarrow> goes_on (exec (SetExitOnSignal on) s)"
proof -
  have "inv (s\<lparr>exit_code := e\<rparr>)" for e
    by (rule control_inv [OF i]) (use invD(5) [OF i] in \<open>simp_all add: core_exit life_ok_def\<close>)
  then show "goes_on (exec Deadline s)" by (simp add: OnShutdownTimer_def goes_on_def)
  have "inv (s\<lparr>shutdown_timeout_ms := ms\<rparr>)"
    by (rule control_inv [OF i]) (use invD(5) [OF i] in \<open>simp_all add: core_exit life_ok_def\<close>)
  then show "goes_on (exec (SetTimeout ms) s)"
    by (simp add: rt_shutdown_timeout_def SetShutdownTimeout_def goes_on_def)
  assume a: "async s \<noteq> Active"
  have "inv (s\<lparr>exit_on_signal := b\<rparr>)" for b
    by (rule control_inv [OF i]) (use invD(5) [OF i] a in \<open>simp_all add: core_exit life_ok_def\<close>)
  then show "goes_on (exec (SetExitOnSignal on) s)"
    by (simp add: rt_runtime_exit_on_signal_def ExitOnSignal_def goes_on_def)
qed

section \<open>Reachable states\<close>

lemma submit_exec:
  assumes i: "inv s"
  shows "allowed (SubmitTask env op cq f) s \<Longrightarrow> goes_on (exec (SubmitTask env op cq f) s)"
    and "allowed (SubmitPinned env op cq bv start n f) s \<Longrightarrow>
      goes_on (exec (SubmitPinned env op cq bv start n f) s)"
  using SubmitTask_ok [OF i, of f env op cq] SubmitPinned_ok [OF i, of f bv env op cq start n]
  by (auto simp: goes_on_def)

lemma exec_goes_on:
  assumes i: "inv s" and a: "allowed act s"
  shows "goes_on (exec act s)"
proof (cases act)
  case (Event ev)
  then show ?thesis using Event_goes_on [OF i] a by simp
next
  case (Async envs)
  then show ?thesis using Async_goes_on [OF i] a by simp
next
  case (Signal env n)
  then show ?thesis using Signal_goes_on [OF i] a by simp
next
  case StartRt
  then show ?thesis using StartRt_goes_on [OF i] a by (simp add: rt_runtime_start_def goes_on_def)
next
  case StopRt
  then show ?thesis using StopRt_goes_on [OF i] by (simp add: rt_runtime_stop_def)
next
  case (FreeTask t)
  then show ?thesis using FreeTask_goes_on [OF i] a by simp
qed (use a submit_exec [OF i] setting_goes_on [OF i] CqCreate_goes_on [OF i] CqFree_goes_on [OF i]
    CqPop_goes_on [OF i] in \<open>simp_all del: exec.simps\<close>)

lemma inv_init: "inv runtime_init"
  by (simp add: inv_def runtime_init_def core_def heaps_ok_def heap_ok_def refs_ok_def locks_of_def held_def refused_def
      cq_users_def undone_def struct_inv_def reads_ok_def close_slots_ok_def listeners_ok_def open_in_def
      processes_ok_def watchers_ok_def internal_ok_def internal_of_def reqs_ok_def bufs_ok_def batch_ok_def
      life_ok_def)

lemma reachable_inv: "reachable s \<Longrightarrow> inv s"
proof (induction rule: reachable.induct)
  case reach_init
  show ?case by (rule inv_init)
next
  case (reach_step s a s')
  then show ?case using exec_goes_on [of s a] by (auto simp: goes_on_def)
qed

end
