(* ===== verification/Refinement.thy ===== *)
theory Refinement
  imports System
begin

text \<open>
  What the runtime promises a client, as an abstract machine, and the proof that the
  runtime implements it. The abstract state (\<open>board\<close>) says of every task handle whether it
  is still running or which result it has; a step of the loop thread may settle running
  tasks and does nothing else, and only the client creates and frees handles. The
  simulation covers every action of the transition system; its consequence over whole runs
  is that a result, once there, stays until the handle is freed.
\<close>

section \<open>The abstract machine\<close>

definition board :: "runtime \<Rightarrow> addr \<rightharpoonup> int option" where
  "board s = (\<lambda>t. map_option (\<lambda>tk. if t_done tk then Some (t_result tk) else None) (h_tasks s t))"

definition settles :: "(addr \<rightharpoonup> int option) \<Rightarrow> (addr \<rightharpoonup> int option) \<Rightarrow> bool" where
  "settles b b' \<longleftrightarrow> dom b' = dom b \<and> (\<forall>t r. b t = Some (Some r) \<longrightarrow> b' t = Some (Some r))"

fun spec_step :: "action \<Rightarrow> (addr \<rightharpoonup> int option) \<Rightarrow> (addr \<rightharpoonup> int option) \<Rightarrow> bool" where
  "spec_step (Event ev) b b' = settles b b'"
| "spec_step (Async envs) b b' = settles b b'"
| "spec_step (Signal env n) b b' = settles b b'"
| "spec_step (SubmitTask env op cq f) b b' =
     (b (new_addr env 0) = None \<and> b' = b(new_addr env 0 \<mapsto> None))"
| "spec_step (SubmitPinned env op cq bv start n f) b b' =
     (b (new_addr env 0) = None \<and> b' = b(new_addr env 0 \<mapsto> None))"
| "spec_step (FreeTask t) b b' = ((\<exists>r. b t = Some (Some r)) \<and> b' = b(t := None))"
| "spec_step _ b b' = (b' = b)"

text \<open>A run: the actions, each allowed where it happens.\<close>

inductive run :: "runtime \<Rightarrow> action list \<Rightarrow> runtime \<Rightarrow> bool" where
  run_Nil: "run s [] s"
| run_Cons: "exit_code s = None \<Longrightarrow> allowed a s \<Longrightarrow> exec a s = Inr s1 \<Longrightarrow> run s1 as s2 \<Longrightarrow> run s (a # as) s2"

inductive_cases run_ConsE: "run s (a # as) s2"
inductive_cases run_NilE: "run s [] s2"

section \<open>The simulation\<close>

lemma board_eq: "h_tasks s' = h_tasks s \<Longrightarrow> board s' = board s"
  by (simp add: board_def)

lemma dom_board: "dom (board s) = dom (h_tasks s)"
  by (auto simp: board_def)

lemma kept_settles:
  assumes "dom (h_tasks s') = dom (h_tasks s)" and "done_kept (h_tasks s) (h_tasks s')"
  shows "settles (board s) (board s')"
  using assms by (auto simp: settles_def dom_board) (auto simp: board_def done_kept_def split: if_splits)

lemma frame_settles: "tasks_frame t s s' \<Longrightarrow> settles (board s) (board s')"
  using kept_settles tasks_frame_dom by (auto simp: tasks_frame_def)

lemma Event_sim:
  assumes "inv s" and "allowed (Event ev) s" and "exec (Event ev) s = Inr s'"
  shows "settles (board s) (board s')"
  using fire_ok [OF invD(1-3) [OF assms(1)], of ev] assms(2,3) frame_settles by (auto simp: event_ok_def)

lemma Async_sim:
  assumes i: "inv s" and a: "allowed (Async envs) s" and e: "exec (Async envs) s = Inr s'"
  shows "settles (board s) (board s')" and "queue s' = []"
    and "\<And>a. addr_used s' a \<Longrightarrow> addr_used s a \<or> a \<in> batch_addrs envs (length (queue s))"
    and "exit_code s' = exit_code s" and "\<forall>i call. 0 \<le> uv_fs (envs i) call \<Longrightarrow> uv_refused s' = uv_refused s"
proof -
  note d = invD [OF i]
  let ?s = "s\<lparr>async_sent := False\<rparr>"
  have c: "core {#} ?s" "struct_inv ?s" using d by (simp_all add: core_control struct_control)
  have b: "batch_ok (queue ?s) ?s" using d(4) batch_ok_cong [of ?s s] by simp
  have f: "fresh_envs envs (length (queue ?s)) ?s" using a by (simp add: fresh_envs_def fresh_def addr_used_def)
  have l: "async ?s = Active" "exit_on_signal ?s \<longrightarrow> sig_int ?s = Active \<and> sig_term ?s = Active"
    "shutdown_timer_started ?s \<longrightarrow> shutdown_timer ?s = Active"
    using a d(5) by (simp_all add: life_ok_def)
  have "queue s' = []" "dom (h_tasks s') = dom (h_tasks ?s)" "done_kept (h_tasks ?s) (h_tasks s')"
    "exit_code s' = exit_code ?s"
    "\<forall>a. addr_used s' a \<longrightarrow> addr_used ?s a \<or> a \<in> batch_addrs envs (length (queue ?s))"
    "(\<forall>i call. 0 \<le> uv_fs (envs i) call) \<longrightarrow> uv_refused s' = uv_refused ?s"
    using Drain_ok [OF c b f l] e by (auto simp: OnAsync_def)
  then show "queue s' = []" and "settles (board s) (board s')" and "exit_code s' = exit_code s"
    and "\<And>a. addr_used s' a \<Longrightarrow> addr_used s a \<or> a \<in> batch_addrs envs (length (queue s))"
    and "\<forall>i call. 0 \<le> uv_fs (envs i) call \<Longrightarrow> uv_refused s' = uv_refused s"
    using kept_settles [of s' s] by (auto simp: addr_used_def)
qed

lemma Signal_sim:
  assumes i: "inv s" and a: "allowed (Signal env n) s" and e: "exec (Signal env n) s = Inr s'"
  shows "settles (board s) (board s')"
proof (cases "shutdown_signaled s \<or> listeners s = []")
  case True
  then show ?thesis using e OnSignal_exit [OF True, of env n] by (auto intro: kept_settles)
next
  case False
  then show ?thesis using OnSignal_graceful [OF invD(1,2) [OF i], of env n] a e
    by (auto intro: frame_settles cancelled_frame)
qed

lemma board_new: "h_tasks s' = (h_tasks s)(t \<mapsto> tk) \<Longrightarrow> \<not> t_done tk \<Longrightarrow> board s' = (board s)(t \<mapsto> None)"
  by (rule ext) (simp add: board_def)

lemma board_None: "board s t = None \<longleftrightarrow> h_tasks s t = None"
  by (simp add: board_def)

lemma Submit_sim:
  assumes i: "inv s"
  shows "allowed (SubmitTask env op cq f) s \<Longrightarrow> exec (SubmitTask env op cq f) s = Inr s' \<Longrightarrow>
      spec_step (SubmitTask env op cq f) (board s) (board s')"
    and "allowed (SubmitPinned env op cq bv start n f) s \<Longrightarrow> exec (SubmitPinned env op cq bv start n f) s = Inr s' \<Longrightarrow>
      spec_step (SubmitPinned env op cq bv start n f) (board s) (board s')"
proof -
  assume a: "allowed (SubmitTask env op cq f) s" and e: "exec (SubmitTask env op cq f) s = Inr s'"
  then have "h_tasks s' = (h_tasks s)(new_addr env 0 \<mapsto> f (fresh_task op cq))" "\<not> t_done (f (fresh_task op cq))"
    "h_tasks s (new_addr env 0) = None"
    using SubmitTask_ok [OF i, of f env op cq] by (auto simp: can_submit_def fills_def)
  then show "spec_step (SubmitTask env op cq f) (board s) (board s')" using board_new by (simp add: board_None)
next
  assume a: "allowed (SubmitPinned env op cq bv start n f) s"
    and e: "exec (SubmitPinned env op cq bv start n f) s = Inr s'"
  let ?tk = "f (pinned_task env op cq bv start n)"
  have "h_tasks s' = (h_tasks s)(new_addr env 0 \<mapsto> ?tk)" "\<not> t_done ?tk" "h_tasks s (new_addr env 0) = None"
    using SubmitPinned_ok [OF i, of f bv env op cq start n] a e by (auto simp: can_submit_def fills_def)
  then show "spec_step (SubmitPinned env op cq bv start n f) (board s) (board s')"
    using board_new by (simp add: board_None)
qed

lemma FreeTask_sim:
  assumes i: "inv s" and a: "allowed (FreeTask t) s" and e: "exec (FreeTask t) s = Inr s'"
  shows "spec_step (FreeTask t) (board s) (board s')"
proof -
  obtain tk where tk: "h_tasks s t = Some tk" "t_done tk" using a by (auto split: option.splits)
  then have "h_tasks s' = (h_tasks s)(t := None)" using rt_task_free_ok [OF invD(1) [OF i] tk] e by auto
  then show ?thesis using tk by (auto simp: board_def)
qed

lemma quiet_sim:
  assumes i: "inv s"
  shows "exec Deadline s = Inr s' \<Longrightarrow> board s' = board s"
    and "exec StartRt s = Inr s' \<Longrightarrow> board s' = board s"
    and "exec StopRt s = Inr s' \<Longrightarrow> board s' = board s"
    and "exec (SetExitOnSignal on) s = Inr s' \<Longrightarrow> board s' = board s"
    and "exec (SetTimeout ms) s = Inr s' \<Longrightarrow> board s' = board s"
    and "allowed (CqCreate env) s \<Longrightarrow> exec (CqCreate env) s = Inr s' \<Longrightarrow> board s' = board s"
    and "allowed (CqFree q) s \<Longrightarrow> exec (CqFree q) s = Inr s' \<Longrightarrow> board s' = board s"
    and "allowed (CqWait q) s \<Longrightarrow> exec (CqWait q) s = Inr s' \<Longrightarrow> board s' = board s"
    and "allowed (CqTryPop q) s \<Longrightarrow> exec (CqTryPop q) s = Inr s' \<Longrightarrow> board s' = board s"
proof -
  note c = invD(1) [OF i]
  show "exec Deadline s = Inr s' \<Longrightarrow> board s' = board s" by (auto simp: OnShutdownTimer_def board_def)
  show "exec StartRt s = Inr s' \<Longrightarrow> board s' = board s"
    by (auto simp: rt_runtime_start_def Start_def Let_def board_def)
  show "exec StopRt s = Inr s' \<Longrightarrow> board s' = board s"
    by (auto simp: rt_runtime_stop_def Stop_def uv_async_send_def board_def split: if_splits)
  show "exec (SetExitOnSignal on) s = Inr s' \<Longrightarrow> board s' = board s"
    by (auto simp: rt_runtime_exit_on_signal_def ExitOnSignal_def board_def)
  show "exec (SetTimeout ms) s = Inr s' \<Longrightarrow> board s' = board s"
    by (auto simp: rt_shutdown_timeout_def SetShutdownTimeout_def board_def)
  show "allowed (CqCreate env) s \<Longrightarrow> exec (CqCreate env) s = Inr s' \<Longrightarrow> board s' = board s"
    by (auto simp: rt_cq_create_def Counted_ctor_def board_def)
  show "allowed (CqFree q) s \<Longrightarrow> exec (CqFree q) s = Inr s' \<Longrightarrow> board s' = board s"
    using rt_cq_free_ok [OF c, of q] by (fastforce split: option.splits simp: board_def)
  show "allowed (CqWait q) s \<Longrightarrow> exec (CqWait q) s = Inr s' \<Longrightarrow> board s' = board s"
    using rt_cq_wait_ok [OF c, of q] by (auto simp: board_def)
  show "allowed (CqTryPop q) s \<Longrightarrow> exec (CqTryPop q) s = Inr s' \<Longrightarrow> board s' = board s"
    using rt_cq_try_pop_ok [OF c, of q] by (auto simp: board_def)
qed

lemma exec_sim:
  assumes "inv s" and "allowed a s" and "exec a s = Inr s'"
  shows "spec_step a (board s) (board s')"
proof (cases a)
  case (Event ev)
  then show ?thesis using Event_sim [of s ev s'] assms by simp
next
  case (Async envs)
  then show ?thesis using Async_sim(1) [of s envs s'] assms by simp
next
  case (Signal env n)
  then show ?thesis using Signal_sim [of s env n s'] assms by simp
qed (use assms Submit_sim [OF assms(1)] FreeTask_sim [OF assms(1)] quiet_sim [OF assms(1)] in
    \<open>simp_all del: exec.simps allowed.simps\<close>)

section \<open>Runs\<close>

lemma run_reachable: "run s as s' \<Longrightarrow> reachable s \<Longrightarrow> reachable s'"
  by (induction rule: run.induct) (auto intro: reach_step)

lemma run_append: "run s as s1 \<Longrightarrow> run s1 bs s2 \<Longrightarrow> run s (as @ bs) s2"
  by (induction rule: run.induct) (auto intro: run_Cons)

lemma run_single: "exit_code s = None \<Longrightarrow> allowed a s \<Longrightarrow> exec a s = Inr s' \<Longrightarrow> run s [a] s'"
  by (auto intro: run_Cons run_Nil)

lemma spec_step_result:
  "spec_step a b b' \<Longrightarrow> b t = Some (Some r) \<Longrightarrow> a \<noteq> FreeTask t \<Longrightarrow> b' t = Some (Some r)"
  by (cases a) (auto simp: settles_def)

lemma run_result:
  "run s as s' \<Longrightarrow> reachable s \<Longrightarrow> board s t = Some (Some r) \<Longrightarrow> FreeTask t \<notin> set as \<Longrightarrow> board s' t = Some (Some r)"
proof (induction rule: run.induct)
  case (run_Nil s)
  then show ?case by simp
next
  case (run_Cons s a s1 as s2)
  have "spec_step a (board s) (board s1)"
    by (rule exec_sim [OF reachable_inv]) (use run_Cons in auto)
  then have "board s1 t = Some (Some r)" by (rule spec_step_result) (use run_Cons.prems in auto)
  moreover have "reachable s1" by (rule reach_step) (use run_Cons in auto)
  ultimately show ?case using run_Cons by simp
qed

end
