(* ===== verification/Scenario.thy ===== *)
theory Scenario
  imports Refinement
begin

text \<open>
  Concrete runs of the model, evaluated by the definitions: the states at which the
  theorems of the development are instantiated. A client with a completion queue connects
  and reads from a stream; a server listens, accepts and is shut down by a signal.
\<close>

section \<open>A concrete environment\<close>

text \<open>Every libuv call succeeds; \<open>new\<close> returns consecutive addresses from \<open>b\<close>.\<close>

definition wenv :: "addr \<Rightarrow> uv_env" where
  "wenv b = \<lparr>uv_ip4_addr = (\<lambda>h p. (0, [])), uv_ip6_addr = (\<lambda>h p. (0, [])), uv_tcp_connect = (\<lambda>a. 0),
     uv_tcp_bind = (\<lambda>a. 0), uv_listen = (\<lambda>n. 0), uv_accept = 0, uv_read_start = (\<lambda>x. 0),
     uv_write = (\<lambda>x b n. 0), uv_fs = (\<lambda>c. 0), uv_ip4_name = (\<lambda>a. ''127.0.0.1''),
     uv_ip6_name = (\<lambda>a. ''::1''), uv_getaddrinfo = (\<lambda>n v f. 0), uv_spawn = (\<lambda>po. 0),
     uv_process_kill = (\<lambda>p n. 0), uv_fs_event_start = (\<lambda>p. 0), uv_guess_handle = (\<lambda>fd. UV_TTY),
     uv_tty_init = (\<lambda>fd. (0, True)), uv_pipe_init = 0, uv_pipe_open = (\<lambda>fd. 0), bytevector_data = (\<lambda>a. a + 9),
     new_addr = (\<lambda>k. b + of_nat k), iter_order = (\<lambda>xs. xs), ndebug = False\<rparr>"

lemma wenv_ok: "env_ok (wenv b)"
  by (simp add: env_ok_def init_ok_def wenv_def new_addrs_def)

lemma wenv_addrs [simp]: "new_addr (wenv b) k = b + of_nat k" "new_addrs (wenv b) = [b, b + 1, b + 2, b + 3]"
  by (simp_all add: wenv_def new_addrs_def)

lemma wenv_fields:
  "uv_ip4_addr (wenv b) h n = (0, [])" "uv_tcp_bind (wenv b) a = 0" "uv_listen (wenv b) i = 0" "uv_accept (wenv b) = 0"
  "iter_order (wenv b) xs = xs" "uv_spawn (wenv b) po = 0" "\<not> ndebug (wenv b)"
  "uv_fs_event_start (wenv b) p = 0"
  by (simp_all add: wenv_def)

lemmas submit_eval = fill_submit_def new_task_def Counted_ctor_def Submit_handle_def Submit_def put_task_def
  uv_async_send_def fresh_task_def Task_ctor_def Retain_def

lemmas drain_eval = OnAsync_def Drain_def Dispatch_def Counted_ctor_def put_task_def fresh_task_def Task_ctor_def
  Let_def parse_ip_addr_def new_Stream_def

section \<open>Connecting and reading\<close>

definition w1 :: runtime where
  "w1 = runtime_init\<lparr>running := True, async := Active\<rparr>"

definition w2 :: runtime where
  "w2 = w1\<lparr>h_cqs := [8 \<mapsto> CompletionQueue_ctor], live := (\<lambda>_. 0)(CCompletionQueue := 1)\<rparr>"

definition connect_task :: task where
  "connect_task = (fresh_task TcpConnect 8)\<lparr>t_path := ''127.0.0.1'', t_port := 80\<rparr>"

definition w3 :: runtime where
  "w3 = w1\<lparr>h_tasks := [16 \<mapsto> connect_task], h_cqs := [8 \<mapsto> CompletionQueue_ctor\<lparr>cq_refs := 2\<rparr>],
     live := (\<lambda>_. 0)(CCompletionQueue := 1, CTask := 1), queue := [16], async_sent := True\<rparr>"

definition w4 :: runtime where
  "w4 = w3\<lparr>h_tasks := [16 \<mapsto> connect_task\<lparr>t_stream := 32\<rparr>], h_streams := [32 \<mapsto> Stream_ctor],
     live := (\<lambda>_. 0)(CCompletionQueue := 1, CTask := 1, CStream := 1), queue := [], async_sent := False,
     uv_pending := [ConnectReq 16 32]\<rparr>"

definition w5 :: runtime where
  "w5 = w4\<lparr>h_tasks := [16 \<mapsto> completed 32 (connect_task\<lparr>t_stream := 32\<rparr>)],
     h_cqs := [8 \<mapsto> \<lparr>cq_q = [16], cq_refs = 1\<rparr>], uv_pending := []\<rparr>"

definition read_task :: task where
  "read_task = (fresh_task StreamRead 8)\<lparr>t_stream := 32, t_nbytes := 4, t_buffer := [0, 0, 0, 0]\<rparr>"

definition w6 :: runtime where
  "w6 = w5\<lparr>h_tasks := [16 \<mapsto> completed 32 (connect_task\<lparr>t_stream := 32\<rparr>), 48 \<mapsto> read_task],
     h_cqs := [8 \<mapsto> \<lparr>cq_q = [16], cq_refs = 2\<rparr>],
     live := (\<lambda>_. 0)(CCompletionQueue := 1, CStream := 1, CTask := 2), queue := [48], async_sent := True\<rparr>"

definition w7 :: runtime where
  "w7 = w6\<lparr>h_streams := [32 \<mapsto> Stream_ctor\<lparr>s_read_queue := [48], s_read_active := True, uv_reading := True\<rparr>],
     reading_streams := [32], queue := [], async_sent := False\<rparr>"

lemma run_start: "exec StartRt runtime_init = Inr w1"
  by (simp add: rt_runtime_start_def Start_def runtime_init_def w1_def)

lemma run_cq: "exec (CqCreate (wenv 8)) w1 = Inr w2"
  by (simp add: rt_cq_create_def Counted_ctor_def w1_def w2_def runtime_init_def)

lemma run_connect:
  "exec (SubmitTask (wenv 16) TcpConnect 8 (\<lambda>tk. tk\<lparr>t_path := ''127.0.0.1'', t_port := 80\<rparr>)) w2 = Inr w3"
  by (simp add: submit_eval w1_def w2_def w3_def runtime_init_def connect_task_def CompletionQueue_ctor_def)

lemma run_dispatch_connect: "exec (Async (\<lambda>i. wenv 32)) w3 = Inr w4"
  by (simp add: drain_eval w1_def w3_def w4_def runtime_init_def connect_task_def Dispatch_TcpConnect_def)
    (simp add: wenv_def)

lemma run_connected: "exec (Event (EvConnect 16 32 0)) w4 = Inr w5"
  by (simp add: w1_def w3_def w4_def w5_def runtime_init_def on_connect_def unpend_def Complete_def Post_def
      Release_def connect_task_def fresh_task_def Task_ctor_def as_result_def CompletionQueue_Post_def
      CompletionQueue_ctor_def completed_def)

lemma run_read:
  "exec (SubmitTask (wenv 48) StreamRead 8
     (\<lambda>tk. tk\<lparr>t_stream := 32, t_nbytes := 4, t_buffer := [0, 0, 0, 0]\<rparr>)) w5 = Inr w6"
  by (simp add: submit_eval w1_def w3_def w4_def w5_def w6_def runtime_init_def read_task_def)

lemma run_dispatch_read: "exec (Async (\<lambda>i. wenv 64)) w6 = Inr w7"
  by (simp add: drain_eval w1_def w3_def w4_def w5_def w6_def w7_def runtime_init_def read_task_def
      Dispatch_StreamRead_def put_stream_def us_insert_def Stream_ctor_def)
    (simp add: wenv_def)


lemmas w_defs = w1_def w2_def w3_def w4_def w5_def w6_def w7_def

lemma reach_1: "reachable w1"
  by (rule reach_step [OF reach_init _ _ run_start]) (simp_all add: runtime_init_def uv_loop_alive_def)

lemma reach_2: "reachable w2"
  by (rule reach_step [OF reach_1 _ _ run_cq]) (simp_all add: w_defs runtime_init_def)

lemma reach_3: "reachable w3"
  by (rule reach_step [OF reach_2 _ _ run_connect])
    (simp_all add: w_defs runtime_init_def fills_def can_submit_def fresh_task_def Task_ctor_def cq_alive_def
      ready_def)

lemma reach_4: "reachable w4"
  by (rule reach_step [OF reach_3 _ _ run_dispatch_connect])
    (simp_all add: w_defs runtime_init_def fresh_envs_def wenv_ok fresh_def addr_used_def)

lemma reach_5: "reachable w5"
  by (rule reach_step [OF reach_4 _ _ run_connected]) (simp_all add: w_defs runtime_init_def)

lemma w5_running: "exit_code w5 = None"
  by (simp add: w_defs runtime_init_def)

lemma w7_running: "exit_code w7 = None"
  by (simp add: w_defs runtime_init_def)

lemma allowed_read:
  "allowed (SubmitTask (wenv 48) StreamRead 8
     (\<lambda>tk. tk\<lparr>t_stream := 32, t_nbytes := 4, t_buffer := [0, 0, 0, 0]\<rparr>)) w5"
  by (simp add: w_defs runtime_init_def fills_def can_submit_def fresh_task_def Task_ctor_def cq_alive_def
      ready_def client_stream_def open_in_def internal_of_def Stream_ctor_def)

lemma reach_6: "reachable w6"
  by (rule reach_step [OF reach_5 w5_running allowed_read run_read])

lemma reach_7: "reachable w7"
  by (rule reach_step [OF reach_6 _ _ run_dispatch_read])
    (simp_all add: w_defs runtime_init_def fresh_envs_def wenv_ok fresh_def addr_used_def)

text \<open>The task at the head of a swapped-out batch meets the precondition of its dispatch.\<close>

lemma head_pre:
  assumes r: "reachable s" and q: "queue s = t # ts" and t: "h_tasks s t = Some tk" and e: "env_ok env" "fresh env s"
  shows "dispatch_pre env t tk (mset ts) (s\<lparr>queue := []\<rparr>)"
proof -
  note d = invD [OF reachable_inv [OF r]]
  have "core (add_mset t (mset ts)) (s\<lparr>queue := []\<rparr>)" by (rule core_queue_upd [OF d(1)]) (simp add: q)
  moreover have "ready s tk" using d(4) q t by (simp add: batch_ok_def task_of_def)
  then have "ready (s\<lparr>queue := []\<rparr>) tk" using ready_cong [of "s\<lparr>queue := []\<rparr>" s] by simp
  ultimately show ?thesis using d(2) t e by (simp add: dispatch_pre_def struct_control fresh_def addr_used_def)
qed

section \<open>Closing a stream with a parked reader\<close>

definition close_task_obj :: task where
  "close_task_obj = (fresh_task StreamClose 0)\<lparr>t_stream := 32\<rparr>"

definition w8 :: runtime where
  "w8 = w7\<lparr>h_tasks := [16 \<mapsto> completed 32 (connect_task\<lparr>t_stream := 32\<rparr>), 48 \<mapsto> read_task, 80 \<mapsto> close_task_obj],
     live := (\<lambda>_. 0)(CCompletionQueue := 1, CStream := 1, CTask := 3), queue := [80], async_sent := True\<rparr>"

lemma run_close: "exec (SubmitTask (wenv 80) StreamClose 0 (\<lambda>tk. tk\<lparr>t_stream := 32\<rparr>)) w7 = Inr w8"
  by (simp add: submit_eval w_defs w8_def runtime_init_def close_task_obj_def)

lemma reach_8: "reachable w8"
  by (rule reach_step [OF reach_7 w7_running _ run_close])
    (simp add: w_defs runtime_init_def fills_def can_submit_def fresh_task_def Task_ctor_def cq_alive_def
      ready_def client_stream_def open_in_def internal_of_def Stream_ctor_def)

section \<open>A pinned read\<close>

text \<open>The bytevector at 1000 keeps its bytes from 1009 on; four bytes from offset 2 are read.\<close>

definition pinned_read :: task where
  "pinned_read = (fresh_task StreamRead 8)\<lparr>t_pinned_obj := 1000, t_ext_data := 1011, t_nbytes := 4, t_stream := 32\<rparr>"

definition p6 :: runtime where
  "p6 = w5\<lparr>h_tasks := [16 \<mapsto> completed 32 (connect_task\<lparr>t_stream := 32\<rparr>), 48 \<mapsto> pinned_read],
     h_cqs := [8 \<mapsto> \<lparr>cq_q = [16], cq_refs = 2\<rparr>], locked := {#1000#},
     live := (\<lambda>_. 0)(CCompletionQueue := 1, CStream := 1, CTask := 2), queue := [48], async_sent := True\<rparr>"

definition p7 :: runtime where
  "p7 = p6\<lparr>h_streams := [32 \<mapsto> Stream_ctor\<lparr>s_read_queue := [48], s_read_active := True, uv_reading := True\<rparr>],
     reading_streams := [32], queue := [], async_sent := False\<rparr>"

lemma run_pinned: "exec (SubmitPinned (wenv 48) StreamRead 8 1000 2 4 (\<lambda>tk. tk\<lparr>t_stream := 32\<rparr>)) w5 = Inr p6"
  by (simp add: submit_eval new_pinned_task_def w_defs p6_def runtime_init_def pinned_read_def wenv_def)

lemma reach_p6: "reachable p6"
  by (rule reach_step [OF reach_5 w5_running _ run_pinned])
    (simp add: w_defs runtime_init_def fills_def can_submit_def pinned_task_def fresh_task_def Task_ctor_def cq_alive_def
      ready_def client_stream_def open_in_def internal_of_def Stream_ctor_def, simp add: wenv_def)

lemma run_pinned_dispatch: "exec (Async (\<lambda>i. wenv 64)) p6 = Inr p7"
  by (simp add: drain_eval w_defs p6_def p7_def runtime_init_def pinned_read_def
      Dispatch_StreamRead_def put_stream_def us_insert_def Stream_ctor_def)
    (simp add: wenv_def)

lemma reach_p7: "reachable p7"
  by (rule reach_step [OF reach_p6 _ _ run_pinned_dispatch])
    (simp_all add: p6_def w_defs runtime_init_def fresh_envs_def wenv_ok fresh_def addr_used_def)

end
