(* ===== verification/Progress.thy ===== *)
theory Progress
  imports Scenario
begin

text \<open>
  No task hangs: from every reachable state, every task that was submitted, unless it is that
  of a file request libuv refused, can be brought to completion by the loop thread alone, that
  is by the pending wake-up and callbacks of libuv, without any help of the client. The witness is built from the place that holds the
  task (\<open>Ownership\<close>): each place has its event, and the event completes the task.

  An accept waits for as many connections as acceptors are parked before it, and a queued
  task for the wake-up; both allocate, so the theorem asks for room in the address space
  (\<open>roomy\<close>): as many free addresses as a small multiple of the number of tasks.
\<close>

section \<open>Definitions\<close>

definition done_in :: "runtime \<Rightarrow> addr \<Rightarrow> bool" where
  "done_in s t \<longleftrightarrow> (\<exists>tk. h_tasks s t = Some tk \<and> t_done tk)"

fun by_loop :: "action \<Rightarrow> bool" where
  "by_loop (Event ev) = True"
| "by_loop (Async envs) = True"
| "by_loop _ = False"

definition used :: "runtime \<Rightarrow> addr set" where
  "used s = {a. addr_used s a}"

definition roomy :: "runtime \<Rightarrow> bool" where
  "roomy s \<longleftrightarrow> card (used s) + 8 * card (dom (h_tasks s)) + 8 \<le> 2 ^ 64"

definition completable :: "runtime \<Rightarrow> addr \<Rightarrow> bool" where
  "completable s t \<longleftrightarrow> (\<exists>as s'. run s as s' \<and> (\<forall>a \<in> set as. by_loop a) \<and> done_in s' t)"

section \<open>Free addresses\<close>

lemma fresh_envs_exist:
  assumes "card (used s) + 4 * n \<le> 2 ^ 64"
  shows "\<exists>envs. fresh_envs envs n s \<and> (\<forall>i. uv_accept (envs i) = 0) \<and> (\<forall>i call. 0 \<le> uv_fs (envs i) call)"
proof -
  have "card (- used s) = 2 ^ 64 - card (used s)"
    by (simp add: Compl_eq_Diff_UNIV card_Diff_subset card_word)
  then have "4 * n \<le> card (- used s)" using assms by simp
  then obtain A where A: "A \<subseteq> - used s" "card A = 4 * n" "finite A" by (rule obtain_subset_with_card_n)
  then obtain xs where xs: "set xs = A" "distinct xs" "length xs = 4 * n"
    using finite_distinct_list [OF A(3)] distinct_card by metis
  define envs where "envs i = (wenv 0)\<lparr>new_addr := (\<lambda>k. xs ! (4 * i + k))\<rparr>" for i
  have na: "new_addrs (envs i) = map (\<lambda>k. xs ! (4 * i + k)) [0..<4]" for i
    by (simp add: envs_def new_addrs_def upt_rec numeral_3_eq_3)
  have mem: "set (new_addrs (envs i)) \<subseteq> - used s" if "i < n" for i
  proof -
    have "4 * i + k < length xs" if "k < 4" for k using that \<open>i < n\<close> xs(3) by simp
    then have "xs ! (4 * i + k) \<in> - used s" if "k < 4" for k using that A(1) xs(1) nth_mem by blast
    then show ?thesis by (auto simp: na)
  qed
  have inj: "xs ! (4 * i + k) = xs ! (4 * j + m) \<longleftrightarrow> i = j \<and> k = m"
    if "i < n" "j < n" "k < 4" "m < 4" for i j k m
  proof -
    have "4 * i + k < length xs" "4 * j + m < length xs" using that xs(3) by simp_all
    then have "xs ! (4 * i + k) = xs ! (4 * j + m) \<longleftrightarrow> 4 * i + k = 4 * j + m"
      using xs(2) by (rule nth_eq_iff_index_eq [rotated])
    then show ?thesis using that by presburger
  qed
  have "env_ok (envs i)" if "i < n" for i
  proof -
    have "distinct (new_addrs (envs i))"
      using inj [OF that that] by (auto simp: na distinct_map inj_on_def)
    then show ?thesis using wenv_ok [of 0] by (simp add: env_ok_def init_ok_def envs_def)
  qed
  moreover have "fresh (envs i) s" if "i < n" for i using mem [OF that] by (auto simp: fresh_def used_def)
  moreover have "set (new_addrs (envs i)) \<inter> set (new_addrs (envs j)) = {}" if "i < n" "j < n" "i \<noteq> j" for i j
    using inj [OF that(1,2)] that(3) by (auto simp: na)
  moreover have "uv_accept (envs i) = 0" "\<forall>call. 0 \<le> uv_fs (envs i) call" for i by (simp_all add: envs_def wenv_def)
  ultimately have "fresh_envs envs n s \<and> (\<forall>i. uv_accept (envs i) = 0) \<and> (\<forall>i call. 0 \<le> uv_fs (envs i) call)"
    by (simp add: fresh_envs_def)
  then show ?thesis by blast
qed

section \<open>One callback\<close>

lemma Complete_done: "Complete t r s = Inr s' \<Longrightarrow> done_in s' t"
  using Complete_effect(1) [of t r s s'] by (auto simp: done_in_def Complete_def sbind_eq_Inr)

text \<open>An enabled callback runs, and where it completes the task, the task is completable.\<close>

lemma completable_event:
  assumes "inv s" and "exit_code s = None" and "enabled ev s"
    and "\<And>s'. fire ev s = Inr s' \<Longrightarrow> done_in s' t"
  shows "completable s t"
proof -
  obtain s' where s': "exec (Event ev) s = Inr s'"
    using exec_goes_on [OF assms(1), of "Event ev"] assms(3) by (auto simp: goes_on_def)
  then have "run s [Event ev] s'" using assms(2,3) by (intro run_single) simp_all
  moreover have "done_in s' t" using assms(4) s' by simp
  ultimately show ?thesis unfolding completable_def by (intro exI [of _ "[Event ev]"] exI [of _ s']) simp
qed

lemma completable_run:
  assumes "run s as s1" and "\<forall>a \<in> set as. by_loop a" and "completable s1 t"
  shows "completable s t"
proof -
  obtain bs s2 where "run s1 bs s2" "\<forall>a \<in> set bs. by_loop a" "done_in s2 t"
    using assms(3) by (auto simp: completable_def)
  then show ?thesis using assms(2) run_append [OF assms(1)] unfolding completable_def
    by (intro exI [of _ "as @ bs"] exI [of _ s2]) auto
qed

lemma event_control:
  assumes "inv s" and "enabled ev s" and "fire ev s = Inr s'"
  shows "exit_code s' = exit_code s" and "inv s'" and "dom (h_tasks s') = dom (h_tasks s)"
proof -
  obtain t where "tasks_frame t s s'" "same_control s s'"
    using fire_ok [OF invD(1-3) [OF assms(1)] assms(2)] assms(3) by (auto simp: event_ok_def)
  then show "exit_code s' = exit_code s" and "dom (h_tasks s') = dom (h_tasks s)"
    using tasks_frame_dom by (simp_all add: same_control_def)
  show "inv s'" using Event_goes_on [OF assms(1,2)] assms(3) by (simp add: goes_on_def)
qed

subsection \<open>Requests\<close>

lemma deliver_fs_done: "deliver_fs t call q s = Inr s' \<Longrightarrow> done_in s' t"
  using Complete_done by (cases call) (auto simp: deliver_fs_def on_fs_done_def sbind_eq_Inr)

lemma on_connect_done: "on_connect t status s = Inr s' \<Longrightarrow> done_in s' t"
  using Complete_done by (auto simp: on_connect_def sbind_eq_Inr Let_def split: if_splits)

lemma on_getaddrinfo_done: "on_getaddrinfo env t status res s = Inr s' \<Longrightarrow> done_in s' t"
  using Complete_done by (auto simp: on_getaddrinfo_def sbind_eq_Inr Let_def split: if_splits)

lemma request_completable:
  assumes i: "inv s" and e: "exit_code s = None" and q: "q \<in> set (uv_pending s)"
  shows "completable s (req_task q)"
proof (cases q)
  case (TimerClosing t)
  then show ?thesis using q
    by (intro completable_event [OF i e, of "EvTimerClosed t"]) (auto simp: on_timer_closed_def intro: Complete_done)
next
  case (TimerReq t ms)
  have en: "enabled (EvTimer t ms) s" using q TimerReq by simp
  then obtain s1 where s1: "fire (EvTimer t ms) s = Inr s1" using Event_goes_on [OF i en] by (auto simp: goes_on_def)
  then have "TimerClosing t \<in> set (uv_pending s1)" by (auto simp: on_timer_def uv_request_def sbind_eq_Inr)
  then have "completable s1 t" using event_control [OF i en s1] e
    by (intro completable_event [of s1 "EvTimerClosed t"]) (auto simp: on_timer_closed_def intro: Complete_done)
  moreover have "run s [Event (EvTimer t ms)] s1" using e en s1 by (intro run_single) simp_all
  ultimately show ?thesis using TimerReq by (auto intro: completable_run)
next
  case (FsReq t call)
  let ?q = "\<lparr>fr_result = 0, fr_statbuf = \<lparr>st_size = 0, st_mtim_sec = 0, st_mode = 0\<rparr>, fr_ptr = [],
    fr_dirents = [], fr_data = []\<rparr>"
  have "enabled (EvFs t call ?q) s" using q FsReq by (cases call) simp_all
  then have "completable s t" by (rule completable_event [OF i e]) (simp add: deliver_fs_done)
  then show ?thesis using FsReq by simp
next
  case (ConnectReq t x)
  then show ?thesis using q
    by (intro completable_event [OF i e, of "EvConnect t x 0"]) (auto intro: on_connect_done)
next
  case (WriteReq t x b n)
  then show ?thesis using q
    by (intro completable_event [OF i e, of "EvWrite t x b n 0"])
      (auto simp: on_write_def sbind_eq_Inr intro: Complete_done)
next
  case (AddrReq t n v f)
  then show ?thesis using q
    by (intro completable_event [OF i e, of "EvAddrInfo (wenv 0) t n v f 0 []"]) (auto intro: on_getaddrinfo_done)
qed

subsection \<open>Handles\<close>

lemma OnClosed_done:
  "LoopHandle_OnClosed get upd k a s = Inr s' \<Longrightarrow> get s a = Some h \<Longrightarrow> close_task h = t \<Longrightarrow> t \<noteq> nullptr \<Longrightarrow> done_in s' t"
  using Complete_done by (auto simp: LoopHandle_OnClosed_def Let_def)

lemma stream_completable:
  assumes i: "inv s" and e: "exit_code s = None" and x: "h_streams s x = Some st" and t: "t \<in># stream_held st"
  shows "completable s t"
proof (cases "t \<in> set (s_read_queue st)")
  case True
  note r = reads_okD [OF struct_invD(1) [OF invD(2) [OF i]] x]
  have a: "reading_in s x" "s_read_queue st \<noteq> []" using True r x by (auto simp: reading_in_def)
  show ?thesis
  proof (rule completable_event [OF i e, of "EvReadEnd x UV_EOF"])
    show "enabled (EvReadEnd x UV_EOF) s" using a by (simp add: less_imp_le)
    fix s' assume "fire (EvReadEnd x UV_EOF) s = Inr s'"
    then have "h_tasks s' = done_with (s_read_queue st) 0 (h_tasks s)"
      using on_read_end [OF invD(1) [OF i] x a(2), of UV_EOF] by auto
    then show "done_in s' t" using True readers_undone [OF invD(1) [OF i] x] by (fastforce simp: done_in_def undone_def)
  qed
next
  case False
  then have c: "close_task st = t" "t \<noteq> nullptr" using t by (auto simp: stream_held_def opt_task_def split: if_splits)
  then have "uv_closing st" using close_slotsD [OF struct_invD(2) [OF invD(2) [OF i]] x] by auto
  then show ?thesis using x OnClosed_done [of h_streams, OF _ x c]
    by (intro completable_event [OF i e, of "EvStreamClosed x"]) (auto simp: closing_in_def Stream_OnClosed_def)
qed

lemma process_completable:
  assumes i: "inv s" and e: "exit_code s = None" and p: "h_processes s p = Some po" and t: "t \<in># process_held po"
  shows "completable s t"
proof -
  note r = processes_okD [OF struct_invD(4) [OF invD(2) [OF i]] p]
  have "p_wait_task po = t \<and> t \<noteq> nullptr \<or> close_task po = t \<and> t \<noteq> nullptr"
    using t by (auto simp: process_held_def opt_task_def split: if_splits)
  then show ?thesis
  proof (elim disjE conjE)
    assume w: "p_wait_task po = t" "t \<noteq> nullptr"
    then show ?thesis using r p
      by (intro completable_event [OF i e, of "EvExit p 0 0"])
        (auto simp: on_process_exit_def Let_def intro: Complete_done)
  next
    assume c: "close_task po = t" "t \<noteq> nullptr"
    then show ?thesis using r p OnClosed_done [of h_processes, OF _ p c]
      by (intro completable_event [OF i e, of "EvProcessClosed p"]) (auto simp: closing_in_def Process_OnClosed_def)
  qed
qed

lemma watcher_completable:
  assumes i: "inv s" and e: "exit_code s = None" and w: "h_watchers s w = Some wo" and t: "t \<in># watcher_held wo"
  shows "completable s t"
proof -
  note r = watchers_okD [OF struct_invD(5) [OF invD(2) [OF i]] w]
  have "w_pending_next wo = t \<and> t \<noteq> nullptr \<or> close_task wo = t \<and> t \<noteq> nullptr"
    using t by (auto simp: watcher_held_def opt_task_def split: if_splits)
  then show ?thesis
  proof (elim disjE conjE)
    assume n: "w_pending_next wo = t" "t \<noteq> nullptr"
    then have "open_in (h_watchers s) w" using r w by (auto simp: open_in_def)
    then show ?thesis using n w
      by (intro completable_event [OF i e, of "EvFsEvent w None 0 0"])
        (auto simp: on_fs_event_def deliver_watch_event_def sbind_eq_Inr intro: Complete_done)
  next
    assume c: "close_task wo = t" "t \<noteq> nullptr"
    then show ?thesis using r w OnClosed_done [of h_watchers, OF _ w c]
      by (intro completable_event [OF i e, of "EvWatcherClosed w"]) (auto simp: closing_in_def Watcher_OnClosed_def)
  qed
qed

subsection \<open>Parked acceptors\<close>

text \<open>One connection serves the first acceptor and lets the others move up.\<close>

lemma connection_step:
  assumes i: "inv s" and e: "exit_code s = None" and l: "h_listeners s l = Some lo" "\<not> uv_closing lo"
    and q: "l_pending_accepts lo = p # ps" and n: "card (used s) + 4 \<le> 2 ^ 64"
  obtains ev s1 lo1 where "enabled ev s" and "fire ev s = Inr s1" and "done_in s1 p"
    and "h_listeners s1 l = Some lo1" and "\<not> uv_closing lo1" and "l_pending_accepts lo1 = ps"
    and "card (used s1) \<le> card (used s) + 1"
proof -
  obtain envs where "fresh_envs envs 1 s" and a: "uv_accept (envs 0) = 0" using fresh_envs_exist [of s 1] n by auto
  then have f: "env_ok (envs 0)" "fresh (envs 0) s" by (simp_all add: fresh_envs_def)
  let ?ev = "EvConnection (envs 0) l 0" let ?x = "new_addr (envs 0) 0"
  have en: "enabled ?ev s" using f l by (auto simp: open_in_def)
  obtain s1 lo1 where s1: "on_connection (envs 0) l 0 s = Inr s1" "h_streams s1 = (h_streams s)(?x \<mapsto> Stream_ctor)"
    "h_listeners s1 = (h_listeners s)(l \<mapsto> lo1)"
    "same_handles (s\<lparr>h_listeners := h_listeners s1, h_streams := h_streams s1\<rparr>) s1"
    "lo1 = lo\<lparr>l_pending_accepts := ps\<rparr>" "h_tasks s1 = done_with [p] (as_result ?x) (h_tasks s)"
    using on_connection_accepts [OF invD(1) [OF i] l(1) _ refl fresh_addr(1,5) [OF f(2)] a, of 0] q by auto
  have "done_in s1 p" using s1(6) acceptors_undone [OF invD(1) [OF i] l(1)] q
    by (auto simp: done_in_def undone_def)
  moreover have "used s1 \<subseteq> insert ?x (used s)"
    using same_handles_fields [OF s1(4)] s1(2,3) l(1) by (auto simp: used_def addr_used_def)
  then have "card (used s1) \<le> card (insert ?x (used s))" by (simp add: card_mono)
  then have "card (used s1) \<le> card (used s) + 1" by (simp add: card_insert_if split: if_splits)
  ultimately show ?thesis using that [OF en] s1 l(2) by simp
qed

lemma acceptor_completable:
  assumes "inv s" and "exit_code s = None" and "h_listeners s l = Some lo" and "\<not> uv_closing lo"
    and "l_pending_accepts lo = us @ t # vs" and "card (used s) + length us + 4 \<le> 2 ^ 64"
  shows "completable s t"
  using assms
proof (induction us arbitrary: s lo)
  case Nil
  have q: "l_pending_accepts lo = t # vs" and n: "card (used s) + 4 \<le> 2 ^ 64" using Nil(5,6) by simp_all
  obtain ev s1 where s1: "enabled ev s" "fire ev s = Inr s1" "done_in s1 t"
    by (rule connection_step [OF Nil(1-4) q n])
  then show ?case by (intro completable_event [OF Nil(1,2) s1(1)]) simp
next
  case (Cons u us)
  have q: "l_pending_accepts lo = u # us @ t # vs" and n: "card (used s) + 4 \<le> 2 ^ 64" using Cons.prems(5,6) by simp_all
  obtain ev s1 lo1 where s1: "enabled ev s" "fire ev s = Inr s1" "h_listeners s1 l = Some lo1" "\<not> uv_closing lo1"
    "l_pending_accepts lo1 = us @ t # vs" "card (used s1) \<le> card (used s) + 1"
    by (rule connection_step [OF Cons.prems(1-4) q n])
  note k = event_control [OF Cons.prems(1) s1(1,2)]
  have "completable s1 t" using Cons.IH [OF k(2) _ s1(3-5)] k(1) Cons.prems(2,6) s1(6) by simp
  moreover have "run s [Event ev] s1" using Cons.prems(2) s1(1,2) by (intro run_single) simp_all
  ultimately show ?case using completable_run by fastforce
qed

lemma listener_completable:
  assumes i: "inv s" and e: "exit_code s = None" and l: "h_listeners s l = Some lo" and t: "t \<in># listener_held lo"
    and n: "card (used s) + card (dom (h_tasks s)) + 4 \<le> 2 ^ 64"
  shows "completable s t"
proof (cases "t \<in> set (l_pending_accepts lo)")
  case True
  note r = listeners_okD [OF struct_invD(3) [OF invD(2) [OF i]] l]
  have o: "\<not> uv_closing lo" using True r(4) by auto
  obtain us vs where q: "l_pending_accepts lo = us @ t # vs" using split_list [OF True] by blast
  have "distinct (l_pending_accepts lo)"
  proof -
    have "mset (l_pending_accepts lo) \<subseteq># held s"
      using listener_heap.share_held [OF core_finite(4) [OF invD(1) [OF i]] l]
      by (simp add: listener_held_def subset_mset.add_increasing2 subset_mset.order_trans)
        (metis mset_subset_eq_add_left subset_mset.order_trans)
    then have "count (mset (l_pending_accepts lo)) x \<le> 1" for x
      using core_once [OF invD(1) [OF i], of x] mset_subset_eq_count [of _ "held s" x] by (metis add.right_neutral le_trans)
    then show ?thesis by (metis distinct_count_atmost_1 count_eq_zero_iff set_mset_mset le_SucE le_zero_eq One_nat_def)
  qed
  then have "length (l_pending_accepts lo) \<le> card (dom (h_tasks s))"
    using acceptors_undone [OF invD(1) [OF i] l] undone_subset core_finite(1) [OF invD(1) [OF i]]
    by (metis card_mono distinct_card subset_trans)
  then show ?thesis using acceptor_completable [OF i e l o q] n q by simp
next
  case False
  then have c: "close_task lo = t" "t \<noteq> nullptr" using t by (auto simp: listener_held_def opt_task_def split: if_splits)
  then have "uv_closing lo" using listeners_okD(5) [OF struct_invD(3) [OF invD(2) [OF i]] l] by auto
  then show ?thesis using l OnClosed_done [of h_listeners, OF _ l c]
    by (intro completable_event [OF i e, of "EvListenerClosed l"]) (auto simp: closing_in_def Listener_OnClosed_def)
qed

section \<open>Every task\<close>

lemma unqueued_completable:
  assumes i: "inv s" and e: "exit_code s = None" and t: "t \<in> undone (h_tasks s)" "t \<notin> set (queue s)"
    and n: "card (used s) + card (dom (h_tasks s)) + 4 \<le> 2 ^ 64" and r: "t \<notin># refused s"
  shows "completable s t"
proof -
  note c = invD(1) [OF i]
  have "t \<in># held s" using core_placed [OF c t(1)] r by simp
  then consider "t \<in># image_mset req_task (mset (uv_pending s))" | "t \<in># msum stream_held (h_streams s)"
    | "t \<in># msum listener_held (h_listeners s)" | "t \<in># msum process_held (h_processes s)"
    | "t \<in># msum watcher_held (h_watchers s)"
    using t(2) by (auto simp: held_def)
  then show ?thesis
  proof cases
    case 1
    then show ?thesis using request_completable [OF i e] by auto
  next
    case 2
    then show ?thesis using stream_completable [OF i e] by (blast elim: msum_member [OF core_finite(3) [OF c]])
  next
    case 3
    then show ?thesis using listener_completable [OF i e _ _ n] by (blast elim: msum_member [OF core_finite(4) [OF c]])
  next
    case 4
    then show ?thesis using process_completable [OF i e] by (blast elim: msum_member [OF core_finite(5) [OF c]])
  next
    case 5
    then show ?thesis using watcher_completable [OF i e] by (blast elim: msum_member [OF core_finite(6) [OF c]])
  qed
qed

lemma done_completable: "done_in s t \<Longrightarrow> completable s t"
  unfolding completable_def by (intro exI [of _ "[]"] exI [of _ s]) (simp add: run_Nil)

lemma queue_length:
  assumes "core {#} s"
  shows "length (queue s) \<le> card (dom (h_tasks s))"
proof -
  have "held s = mset (queue s) + (image_mset req_task (mset (uv_pending s))
     + msum stream_held (h_streams s) + msum listener_held (h_listeners s)
     + msum process_held (h_processes s) + msum watcher_held (h_watchers s))" by (simp add: held_def ac_simps)
  then have "mset (queue s) \<subseteq># held s + refused s" by (simp add: subset_mset.add_increasing2)
  then have "mset (queue s) \<subseteq># mset_set (undone (h_tasks s))" using assms by (simp add: core_def)
  then have "length (queue s) \<le> card (undone (h_tasks s))" using size_mset_mono by fastforce
  then show ?thesis using card_mono [OF core_finite(1) [OF assms] undone_subset] by simp
qed

lemma task_completable:
  assumes i: "inv s" and e: "exit_code s = None" and n: "roomy s" and t: "h_tasks s t = Some tk"
    and r: "t \<notin> fst ` set (uv_refused s)"
  shows "completable s t"
proof (cases "t \<in> set (queue s)")
  case True
  let ?k = "card (dom (h_tasks s))" let ?n = "length (queue s)"
  have k: "?n \<le> ?k" by (rule queue_length [OF invD(1) [OF i]])
  have "card (used s) + 4 * ?n \<le> 2 ^ 64" using n k by (simp add: roomy_def)
  then obtain envs where f: "fresh_envs envs ?n s" and ac: "\<forall>i call. 0 \<le> uv_fs (envs i) call"
    using fresh_envs_exist by blast
  have "queue s \<noteq> []" using True by auto
  then have a: "allowed (Async envs) s" using f invD(5) [OF i] by (simp add: life_ok_def)
  then obtain s1 where s1: "exec (Async envs) s = Inr s1" "inv s1" using exec_goes_on [OF i a] by (auto simp: goes_on_def)
  note m = Async_sim [OF i a s1(1)]
  have "used s1 \<subseteq> used s \<union> batch_addrs envs ?n" using m(3) by (auto simp: used_def)
  moreover have "card (batch_addrs envs ?n) \<le> 4 * ?n"
  proof -
    have "card (set (new_addrs (envs j))) \<le> 4" for j using card_length [of "new_addrs (envs j)"] by (simp add: new_addrs_def)
    then have "card (batch_addrs envs ?n) \<le> (\<Sum>j \<in> {..< ?n}. 4)"
      unfolding batch_addrs_def by (intro order_trans [OF card_UN_le] sum_mono) auto
    then show ?thesis by simp
  qed
  ultimately have "card (used s1) \<le> card (used s) + 4 * ?n"
    by (metis (no_types, lifting) card_Un_le card_mono finite add_left_mono le_trans)
  moreover have d: "dom (h_tasks s1) = dom (h_tasks s)" using m(1) by (simp add: settles_def dom_board)
  ultimately have "card (used s1) + card (dom (h_tasks s1)) + 4 \<le> 2 ^ 64" using n k by (simp add: roomy_def)
  moreover obtain tk1 where "h_tasks s1 t = Some tk1" using d t by blast
  moreover have "t \<notin># refused s1" using r m(5) [OF ac] by (simp add: refused_def)
  ultimately have "completable s1 t"
    using unqueued_completable [OF s1(2), of t] m(2,4) e done_completable [of s1 t]
    by (auto simp: undone_def done_in_def)
  then show ?thesis using completable_run [OF run_single [OF e a s1(1)]] by simp
next
  case False
  moreover have "t \<notin># refused s" using r by (simp add: refused_def)
  ultimately show ?thesis using unqueued_completable [OF i e] n t done_completable
    by (fastforce simp: undone_def done_in_def roomy_def)
qed

end
