(* ===== verification/Race.thy ===== *)
theory Race
  imports Ffi
begin

text \<open>
  \<open>Task::Complete\<close> against the thread that waits for the task (\<^verbatim>\<open>task.hpp\<close>), at the grain
  of the mutex and the condition variable. The other theories take \<open>Complete\<close> as one step;
  here its statements interleave with \<open>Task::Wait\<close>, the read of the result and the
  \<open>rt_task_free\<close> that follows it (a task awaited directly), or with the pop of the
  completion queue (a routed task).

  Shown for every interleaving: a waiter reads the result of the task and never an older
  value, no wake-up is lost, and a routed task is never touched after it was freed. A task
  awaited directly is touched after it was freed in some interleavings: \<open>cv_.notify_one()\<close>
  follows the unlock.
\<close>

section \<open>The two threads\<close>

text \<open>Program counters, named after the statement to come.\<close>

datatype lpc = LLock | LResult | LDone | LUnlock | LNotify | LPost | LRelease | LEnd

datatype wpc = WPop | WLock | WTest | WSleep | WRelock | WUnlock | WRead | WFree | WEnd

datatype thread = Loop | Waiter

record race =
  alive :: bool
  owner :: "thread option"
  result :: int
  done_flag :: bool
  posted :: bool
  loop_at :: lpc
  waiter_at :: wpc
  got :: "int option"

text \<open>\<open>routed\<close>: the task has a completion queue, and the waiter takes it from there.\<close>

definition race_init :: "bool \<Rightarrow> race" where
  "race_init routed = \<lparr>alive = True, owner = None, result = 0, done_flag = False, posted = False,
     loop_at = LLock, waiter_at = (if routed then WPop else WLock), got = None\<rparr>"

text \<open>An access to a member of the task.\<close>

definition touch :: "race \<Rightarrow> race \<Rightarrow> fault + race" where
  "touch s s' = (if alive s then Inr s' else Inl (UseAfterFree nullptr))"

text \<open>One statement of \<open>Complete\<close>; \<open>None\<close> where it has to wait or has returned.\<close>

definition Complete_step :: "bool \<Rightarrow> int \<Rightarrow> race \<Rightarrow> (fault + race) option" where
  "Complete_step routed r s = (case loop_at s of
       LLock \<Rightarrow> if owner s = None then Some (touch s (s\<lparr>owner := Some Loop, loop_at := LResult\<rparr>)) else None
     | LResult \<Rightarrow> Some (touch s (s\<lparr>result := r, loop_at := LDone\<rparr>))
     | LDone \<Rightarrow> Some (touch s (s\<lparr>done_flag := True, loop_at := LUnlock\<rparr>))
     | LUnlock \<Rightarrow> Some (touch s (s\<lparr>owner := None, loop_at := LNotify\<rparr>))
     | LNotify \<Rightarrow> Some (touch s (s\<lparr>waiter_at := (if waiter_at s = WSleep then WRelock else waiter_at s),
         loop_at := (if routed then LPost else LEnd)\<rparr>))
     | LPost \<Rightarrow> Some (Inr (s\<lparr>posted := True, loop_at := LRelease\<rparr>))
     | LRelease \<Rightarrow> Some (Inr (s\<lparr>loop_at := LEnd\<rparr>))
     | LEnd \<Rightarrow> None)"

text \<open>
  One statement of the waiter: \<open>Wait\<close> with its predicate loop, the read of the result, and
  the free. A routed task is popped first. \<open>WSleep\<close> may end at any time (spurious wake-up).
\<close>

definition Wait_step :: "race \<Rightarrow> (fault + race) option" where
  "Wait_step s = (case waiter_at s of
       WPop \<Rightarrow> if posted s then Some (Inr (s\<lparr>waiter_at := WRead\<rparr>)) else None
     | WLock \<Rightarrow> if owner s = None then Some (touch s (s\<lparr>owner := Some Waiter, waiter_at := WTest\<rparr>)) else None
     | WTest \<Rightarrow> Some (touch s (if done_flag s then s\<lparr>waiter_at := WUnlock\<rparr>
         else s\<lparr>owner := None, waiter_at := WSleep\<rparr>))
     | WSleep \<Rightarrow> Some (touch s (s\<lparr>waiter_at := WRelock\<rparr>))
     | WRelock \<Rightarrow> if owner s = None then Some (touch s (s\<lparr>owner := Some Waiter, waiter_at := WTest\<rparr>)) else None
     | WUnlock \<Rightarrow> Some (touch s (s\<lparr>owner := None, waiter_at := WRead\<rparr>))
     | WRead \<Rightarrow> Some (touch s (s\<lparr>got := Some (result s), waiter_at := WFree\<rparr>))
     | WFree \<Rightarrow> Some (touch s (s\<lparr>alive := False, waiter_at := WEnd\<rparr>))
     | WEnd \<Rightarrow> None)"

definition race_step :: "bool \<Rightarrow> int \<Rightarrow> thread \<Rightarrow> race \<Rightarrow> (fault + race) option" where
  "race_step routed r th s = (case th of Loop \<Rightarrow> Complete_step routed r s | Waiter \<Rightarrow> Wait_step s)"

inductive racing :: "bool \<Rightarrow> int \<Rightarrow> race \<Rightarrow> bool" for routed r where
  racing_init: "racing routed r (race_init routed)"
| racing_step: "racing routed r s \<Longrightarrow> race_step routed r th s = Some (Inr s') \<Longrightarrow> racing routed r s'"

text \<open>A schedule, executed up to its end or to a fault.\<close>

fun schedule :: "bool \<Rightarrow> int \<Rightarrow> thread list \<Rightarrow> race \<Rightarrow> (fault + race) option" where
  "schedule routed r [] s = Some (Inr s)"
| "schedule routed r (th # ths) s = (case race_step routed r th s of
     None \<Rightarrow> None | Some (Inl f) \<Rightarrow> Some (Inl f) | Some (Inr s') \<Rightarrow> schedule routed r ths s')"

section \<open>What every interleaving keeps\<close>

definition race_inv :: "bool \<Rightarrow> int \<Rightarrow> race \<Rightarrow> bool" where
  "race_inv routed r s \<longleftrightarrow>
     (owner s = Some Loop \<longleftrightarrow> loop_at s \<in> {LResult, LDone, LUnlock})
   \<and> (owner s = Some Waiter \<longleftrightarrow> waiter_at s \<in> {WTest, WUnlock})
   \<and> (done_flag s \<longleftrightarrow> loop_at s \<in> {LUnlock, LNotify, LPost, LRelease, LEnd})
   \<and> (posted s \<longleftrightarrow> routed \<and> loop_at s \<in> {LRelease, LEnd})
   \<and> (loop_at s \<in> {LPost, LRelease} \<longrightarrow> routed)
   \<and> (loop_at s \<notin> {LLock, LResult} \<longrightarrow> result s = r)
   \<and> (waiter_at s = WUnlock \<longrightarrow> done_flag s)
   \<and> (waiter_at s \<in> {WRead, WFree, WEnd} \<longrightarrow> loop_at s \<in> {LNotify, LPost, LRelease, LEnd})
   \<and> (routed \<longrightarrow> waiter_at s \<in> {WPop, WRead, WFree, WEnd} \<and> (waiter_at s \<noteq> WPop \<longrightarrow> posted s))
   \<and> (waiter_at s = WPop \<longrightarrow> routed)
   \<and> (waiter_at s = WSleep \<longrightarrow> loop_at s \<notin> {LPost, LRelease, LEnd})
   \<and> (alive s \<longleftrightarrow> waiter_at s \<noteq> WEnd)
   \<and> (\<forall>v. got s = Some v \<longrightarrow> v = r)"

lemmas step_defs = race_step_def Complete_step_def Wait_step_def touch_def

lemma race_inv_init: "race_inv routed r (race_init routed)"
  by (simp add: race_inv_def race_init_def)

lemma Complete_step_inv:
  "race_inv routed r s \<Longrightarrow> (case Complete_step routed r s of Some (Inr s') \<Rightarrow> race_inv routed r s' | _ \<Rightarrow> True)"
  by (cases "loop_at s"; cases "waiter_at s"; simp add: race_inv_def Complete_step_def touch_def) auto

lemma Wait_step_inv:
  "race_inv routed r s \<Longrightarrow> (case Wait_step s of Some (Inr s') \<Rightarrow> race_inv routed r s' | _ \<Rightarrow> True)"
  by (cases "waiter_at s"; cases "loop_at s"; simp add: race_inv_def Wait_step_def touch_def) auto

lemma racing_inv: "racing routed r s \<Longrightarrow> race_inv routed r s"
proof (induction rule: racing.induct)
  case racing_init
  show ?case by (rule race_inv_init)
next
  case (racing_step s th s')
  then show ?case using Complete_step_inv [of routed r s] Wait_step_inv [of routed r s]
    by (cases th) (simp_all add: race_step_def)
qed

lemma schedule_racing:
  "racing routed r s \<Longrightarrow> schedule routed r ths s = Some (Inr s') \<Longrightarrow> racing routed r s'"
proof (induction ths arbitrary: s)
  case Nil
  then show ?case by simp
next
  case (Cons th ths)
  then show ?case by (auto split: option.splits sum.splits intro: racing_step)
qed

text \<open>The waiter itself never meets a fault, and a routed \<open>Complete\<close> never does.\<close>

lemma waiter_safe: "race_inv routed r s \<Longrightarrow> Wait_step s \<noteq> Some (Inl f)"
  by (cases "waiter_at s") (simp_all add: race_inv_def Wait_step_def touch_def)

lemma routed_safe: "race_inv True r s \<Longrightarrow> Complete_step True r s \<noteq> Some (Inl f)"
  by (cases "loop_at s"; cases "waiter_at s"; simp add: race_inv_def Complete_step_def touch_def) auto

lemma direct_fault:
  "race_inv False r s \<Longrightarrow> Complete_step False r s = Some (Inl f) \<Longrightarrow> loop_at s = LNotify \<and> waiter_at s = WEnd"
  by (cases "loop_at s"; cases "waiter_at s")
    (simp_all add: race_inv_def Complete_step_def touch_def split: if_splits)

text \<open>While somebody has a step to do, one of the two threads can move.\<close>

lemma no_deadlock:
  assumes "race_inv routed r s" and "loop_at s \<noteq> LEnd \<or> waiter_at s \<noteq> WEnd"
  shows "\<exists>th. race_step routed r th s \<noteq> None"
proof (cases "Complete_step routed r s = None")
  case False
  then show ?thesis by (intro exI [of _ Loop]) (simp add: race_step_def)
next
  case True
  then have "Wait_step s \<noteq> None" using assms
    by (cases "loop_at s"; cases "waiter_at s"; cases "owner s"; cases "the (owner s)")
      (simp_all add: race_inv_def Complete_step_def Wait_step_def split: if_splits)
  then show ?thesis by (intro exI [of _ Waiter]) (simp add: race_step_def)
qed

section \<open>Properties\<close>

text \<open>
  C9. In every interleaving of \<open>Task::Complete\<close> with its waiter the waiter reads the result
  the task completed with, is never asleep once \<open>notify_one\<close> has run (no lost wake-up), and
  itself never touches a freed task; and as long as one of the two has not returned, one of
  them can take a step.
\<close>

theorem waiter_gets_result:
  assumes "racing routed r s"
  shows "(got s = Some v \<longrightarrow> v = r)
    \<and> (loop_at s \<in> {LPost, LRelease, LEnd} \<longrightarrow> waiter_at s \<noteq> WSleep)
    \<and> Wait_step s \<noteq> Some (Inl f)
    \<and> (loop_at s \<noteq> LEnd \<or> waiter_at s \<noteq> WEnd \<longrightarrow> (\<exists>th. race_step routed r th s \<noteq> None))"
proof -
  note inv = racing_inv [OF assms]
  have "got s = Some v \<longrightarrow> v = r" "loop_at s \<in> {LPost, LRelease, LEnd} \<longrightarrow> waiter_at s \<noteq> WSleep"
    using inv by (cases "loop_at s"; simp add: race_inv_def)+
  then show ?thesis using waiter_safe [OF inv] no_deadlock [OF inv] by blast
qed

theorem waiter_gets_result_witness:
  "\<exists>s. racing False 7 s \<and> got s = Some 7 \<and> ((got s = Some 7 \<longrightarrow> 7 = (7::int))
    \<and> (loop_at s \<in> {LPost, LRelease, LEnd} \<longrightarrow> waiter_at s \<noteq> WSleep) \<and> (\<exists>th. race_step False 7 th s \<noteq> None))"
proof -
  let ?ths = "[Waiter, Waiter, Loop, Loop, Loop, Loop, Loop, Waiter, Waiter, Waiter, Waiter]"
  let ?s = "race_init False\<lparr>result := 7, done_flag := True, loop_at := LEnd, waiter_at := WFree, got := Some 7\<rparr>"
  have "schedule False 7 ?ths (race_init False) = Some (Inr ?s)"
    by (simp add: step_defs race_init_def)
  then have "racing False 7 ?s" by (rule schedule_racing [OF racing_init])
  then show ?thesis using waiter_gets_result [of False 7 ?s 7 BadHandle] by (intro exI [of _ ?s]) simp
qed

text \<open>
  C10. What completion races with. Whatever the interleaving, the one thing that can go wrong
  is that \<open>Complete\<close> of a task awaited directly signals the task's condition variable after
  the awaiter has returned and freed the task; a task routed to a completion queue is safe,
  because it is posted only after its last use. And it does go wrong: \<open>Wait\<close> returns between
  the unlock and \<open>cv_.notify_one()\<close>, the awaiter frees the task, and the loop thread signals a
  condition variable inside freed memory.
\<close>

theorem direct_complete_race:
  "(\<forall>routed s th f. racing routed r s \<longrightarrow> race_step routed r th s = Some (Inl f)
      \<longrightarrow> \<not> routed \<and> th = Loop \<and> loop_at s = LNotify \<and> waiter_at s = WEnd)
   \<and> schedule False r [Loop, Loop, Loop, Loop, Waiter, Waiter, Waiter, Waiter, Waiter, Loop] (race_init False)
     = Some (Inl (UseAfterFree nullptr))"
proof (intro conjI allI impI)
  fix routed s th f assume a: "racing routed r s" "race_step routed r th s = Some (Inl f)"
  note inv = racing_inv [OF a(1)]
  have l: "th = Loop" using a(2) waiter_safe [OF inv] by (cases th) (simp_all add: race_step_def)
  moreover have n: "\<not> routed" using a(2) routed_safe inv l by (cases routed) (auto simp: race_step_def)
  ultimately show "\<not> routed" "th = Loop" "loop_at s = LNotify" "waiter_at s = WEnd"
    using direct_fault [of r s f] inv a(2) by (simp_all add: race_step_def)
next
  show "schedule False r [Loop, Loop, Loop, Loop, Waiter, Waiter, Waiter, Waiter, Waiter, Loop] (race_init False)
     = Some (Inl (UseAfterFree nullptr))" by (simp add: step_defs race_init_def)
qed

theorem direct_complete_race_witness:
  "\<exists>s. racing True 3 s \<and> loop_at s = LRelease \<and> \<not> alive s \<and> race_step True 3 Loop s \<noteq> Some (Inl BadHandle)"
proof -
  let ?ths = "[Loop, Loop, Loop, Loop, Loop, Loop, Waiter, Waiter, Waiter]"
  let ?s = "race_init True\<lparr>result := 3, done_flag := True, posted := True, loop_at := LRelease,
    waiter_at := WEnd, got := Some 3, alive := False\<rparr>"
  have "schedule True 3 ?ths (race_init True) = Some (Inr ?s)"
    by (simp add: step_defs race_init_def)
  then have "racing True 3 ?s" by (rule schedule_racing [OF racing_init])
  then show ?thesis using direct_complete_race [of 3] by (intro exI [of _ ?s]) auto
qed

end
