(* ===== verification/Queue_Race.thy ===== *)
theory Queue_Race
  imports Runtime_State "HOL-Library.Multiset"
begin

text \<open>
  The life of a completion queue (\<^verbatim>\<open>task.hpp\<close> \<open>CompletionQueue\<close>), statement by statement: a
  client submits tasks routed to the queue (each takes a reference), waits for completions,
  polls, and at last drops the creator's reference, perhaps with tasks still in flight; the
  loop thread posts the tasks, in whatever order their completions come (a 20 ms timer
  submitted before an 8 ms one is posted after it), and drops their references. Whoever drops
  the last one deletes the queue.

  Shown for every interleaving, spurious wake-ups of the condition variable included: the queue
  is never touched after it was deleted, although \<open>Post\<close> signals it after the unlock; it is
  deleted exactly when both sides are done; tasks come out in the order they were posted,
  whatever that order is, each at most as often as it was submitted; and a client that waits no more often than it submits never sleeps for ever.
\<close>

section \<open>The threads\<close>

text \<open>What the client does with the queue.\<close>

datatype call = Call_Submit addr | Call_WaitOne | Call_TryPop | Call_Free

text \<open>Program counters, named after the statement to come, in program order.\<close>

datatype post_pc = PIdle | PLock | PPush | PUnlock | PNotify | PRelease

datatype wait_pc = KNext | KTest | KSleep | KRelock | KPop | KUnlock

datatype side = Poster | Reaper

text \<open>
  Whose statement comes next. The loop thread's turn says which task in flight completes, if
  it is between two completions; libuv's callbacks choose it, not the order of submission.
\<close>

datatype turn = Post_turn addr | Reap_turn

primrec post_rank :: "post_pc \<Rightarrow> nat" where
  "post_rank PIdle = 0" | "post_rank PLock = 1" | "post_rank PPush = 2" | "post_rank PUnlock = 3"
| "post_rank PNotify = 4" | "post_rank PRelease = 5"

instantiation post_pc :: linorder
begin

definition less_eq_post_pc :: "post_pc \<Rightarrow> post_pc \<Rightarrow> bool" where
  "less_eq_post_pc a b \<longleftrightarrow> post_rank a \<le> post_rank b"

definition less_post_pc :: "post_pc \<Rightarrow> post_pc \<Rightarrow> bool" where
  "less_post_pc a b \<longleftrightarrow> post_rank a < post_rank b"

instance
proof
  fix a b :: post_pc
  assume "a \<le> b" and "b \<le> a"
  then show "a = b" by (cases a; cases b) (simp_all add: less_eq_post_pc_def)
qed (auto simp: less_eq_post_pc_def less_post_pc_def)

end

text \<open>
  The queue object (does it exist, its references, mutex and deque), the tasks submitted and
  not yet completed, the task being posted, and the two positions; \<open>popped\<close> is what the client
  got, in order. \<open>posted\<close> is a history variable: the tasks pushed so far, in order.
\<close>

record queue_race =
  c_alive :: bool
  c_refs :: int
  c_owner :: "side option"
  c_items :: "addr list"
  inflight :: "addr list"
  post_at :: post_pc
  posting :: addr
  posted :: "addr list"
  calls :: "call list"
  wait_at :: wait_pc
  popped :: "addr list"

definition queue_race_init :: "call list \<Rightarrow> queue_race" where
  "queue_race_init cs = \<lparr>c_alive = True, c_refs = 1, c_owner = None, c_items = [], inflight = [],
     post_at = PIdle, posting = nullptr, posted = [], calls = cs, wait_at = KNext, popped = []\<rparr>"

definition touch_queue :: "queue_race \<Rightarrow> queue_race \<Rightarrow> fault + queue_race" where
  "touch_queue s s' = (if c_alive s then Inr s' else Inl (UseAfterFree nullptr))"

text \<open>\<open>Release\<close>: drop one reference; who drops the last one deletes the queue.\<close>

definition Release_step :: "queue_race \<Rightarrow> queue_race" where
  "Release_step s = s\<lparr>c_refs := c_refs s - 1, c_alive := (c_refs s \<noteq> 1)\<rparr>"

text \<open>
  One statement of the loop thread: any task in flight completes (\<open>Complete\<close>), then \<open>Post\<close>
  and \<open>Release\<close> for it.
\<close>

definition Post_step :: "addr \<Rightarrow> queue_race \<Rightarrow> (fault + queue_race) option" where
  "Post_step t s = (case post_at s of
       PIdle \<Rightarrow> if t \<in> set (inflight s)
         then Some (Inr (s\<lparr>inflight := remove1 t (inflight s), posting := t, post_at := PLock\<rparr>)) else None
     | PLock \<Rightarrow> if c_owner s = None then Some (touch_queue s (s\<lparr>c_owner := Some Poster, post_at := PPush\<rparr>)) else None
     | PPush \<Rightarrow> Some (touch_queue s (s\<lparr>c_items := c_items s @ [posting s], posted := posted s @ [posting s], post_at := PUnlock\<rparr>))
     | PUnlock \<Rightarrow> Some (touch_queue s (s\<lparr>c_owner := None, post_at := PNotify\<rparr>))
     | PNotify \<Rightarrow> Some (touch_queue s (s\<lparr>wait_at := (if wait_at s = KSleep then KRelock else wait_at s),
         post_at := PRelease\<rparr>))
     | PRelease \<Rightarrow> Some (touch_queue s ((Release_step s)\<lparr>post_at := PIdle\<rparr>)))"

text \<open>
  One statement of the client. \<open>WaitOne\<close> and \<open>TryPop\<close> differ when the deque is empty. A sleep
  ends by a notification or, if \<open>spurious\<close>, at any time.
\<close>

definition Reap_step :: "bool \<Rightarrow> queue_race \<Rightarrow> (fault + queue_race) option" where
  "Reap_step spurious s = (case calls s of [] \<Rightarrow> None | c # cs \<Rightarrow> (case wait_at s of
       KNext \<Rightarrow> (case c of
           Call_Submit t \<Rightarrow> Some (touch_queue s (s\<lparr>c_refs := c_refs s + 1, inflight := inflight s @ [t], calls := cs\<rparr>))
         | Call_Free \<Rightarrow> Some (touch_queue s ((Release_step s)\<lparr>calls := cs\<rparr>))
         | _ \<Rightarrow> if c_owner s = None then Some (touch_queue s (s\<lparr>c_owner := Some Reaper, wait_at := KTest\<rparr>)) else None)
     | KTest \<Rightarrow> Some (touch_queue s (if c_items s \<noteq> [] then s\<lparr>wait_at := KPop\<rparr>
         else if c = Call_WaitOne then s\<lparr>c_owner := None, wait_at := KSleep\<rparr> else s\<lparr>wait_at := KUnlock\<rparr>))
     | KSleep \<Rightarrow> if spurious then Some (touch_queue s (s\<lparr>wait_at := KRelock\<rparr>)) else None
     | KRelock \<Rightarrow> if c_owner s = None then Some (touch_queue s (s\<lparr>c_owner := Some Reaper, wait_at := KTest\<rparr>)) else None
     | KPop \<Rightarrow> Some (touch_queue s (s\<lparr>popped := popped s @ [hd (c_items s)], c_items := tl (c_items s), wait_at := KUnlock\<rparr>))
     | KUnlock \<Rightarrow> Some (touch_queue s (s\<lparr>c_owner := None, calls := cs, wait_at := KNext\<rparr>))))"

definition queue_step :: "bool \<Rightarrow> turn \<Rightarrow> queue_race \<Rightarrow> (fault + queue_race) option" where
  "queue_step spurious a s = (case a of Post_turn t \<Rightarrow> Post_step t s | Reap_turn \<Rightarrow> Reap_step spurious s)"

inductive queueing :: "bool \<Rightarrow> call list \<Rightarrow> queue_race \<Rightarrow> bool" for spurious cs where
  queueing_init: "queueing spurious cs (queue_race_init cs)"
| queueing_step: "queueing spurious cs s \<Longrightarrow> queue_step spurious a s = Some (Inr s') \<Longrightarrow> queueing spurious cs s'"

fun queue_schedule :: "bool \<Rightarrow> turn list \<Rightarrow> queue_race \<Rightarrow> (fault + queue_race) option" where
  "queue_schedule spurious [] s = Some (Inr s)"
| "queue_schedule spurious (a # as) s = (case queue_step spurious a s of
     None \<Rightarrow> None | Some (Inl f) \<Rightarrow> Some (Inl f) | Some (Inr s') \<Rightarrow> queue_schedule spurious as s')"

section \<open>The client's part\<close>

text \<open>The queue is freed once, by the last call.\<close>

definition frees_last :: "call list \<Rightarrow> bool" where
  "frees_last cs \<longleftrightarrow> (\<exists>b. cs = b @ [Call_Free] \<and> Call_Free \<notin> set b)"

text \<open>With \<open>n\<close> tasks outstanding, every wait finds one that was submitted before it.\<close>

fun enough :: "nat \<Rightarrow> call list \<Rightarrow> bool" where
  "enough n [] = True"
| "enough n (Call_Submit t # cs) = enough (Suc n) cs"
| "enough n (Call_WaitOne # cs) = (0 < n \<and> enough (n - 1) cs)"
| "enough n (Call_TryPop # cs) = enough (n - 1) cs"
| "enough n (Call_Free # cs) = enough n cs"

fun submits :: "call list \<Rightarrow> addr list" where
  "submits [] = []"
| "submits (c # cs) = (case c of Call_Submit t \<Rightarrow> t # submits cs | _ \<Rightarrow> submits cs)"

lemma enough_mono: "enough n cs \<Longrightarrow> n \<le> m \<Longrightarrow> enough m cs"
proof (induction n cs arbitrary: m rule: enough.induct)
  case (3 n cs)
  then show ?case by (auto intro: diff_le_mono)
next
  case (4 n cs)
  then show ?case by (auto intro: diff_le_mono)
qed auto

section \<open>What every interleaving keeps\<close>

definition incoming :: "queue_race \<Rightarrow> addr list" where
  "incoming s = (if post_at s \<in> {PLock, PPush} then [posting s] else [])"

definition queue_ok :: "queue_race \<Rightarrow> bool" where
  "queue_ok s \<longleftrightarrow>
     c_refs s = (if calls s = [] then 0 else 1) + int (length (inflight s)) + (if post_at s = PIdle then 0 else 1)
   \<and> (c_alive s \<longleftrightarrow> 0 < c_refs s)
   \<and> (c_owner s = Some Poster \<longleftrightarrow> post_at s \<in> {PPush, PUnlock})
   \<and> (c_owner s = Some Reaper \<longleftrightarrow> wait_at s \<in> {KTest, KPop, KUnlock})
   \<and> (calls s \<noteq> [] \<longrightarrow> frees_last (calls s))
   \<and> (wait_at s \<noteq> KNext \<longrightarrow> calls s \<noteq> [] \<and> hd (calls s) \<in> {Call_WaitOne, Call_TryPop})
   \<and> (wait_at s \<in> {KSleep, KRelock} \<longrightarrow> hd (calls s) = Call_WaitOne)
   \<and> (wait_at s = KPop \<longrightarrow> c_items s \<noteq> [])
   \<and> (wait_at s = KSleep \<longrightarrow> c_items s = [] \<or> PUnlock \<le> post_at s \<and> post_at s \<le> PNotify)"

text \<open>The calls that have not had their effect yet.\<close>

definition calls_left :: "queue_race \<Rightarrow> call list" where
  "calls_left s = (if wait_at s = KUnlock then tl (calls s) else calls s)"

definition order_ok :: "call list \<Rightarrow> queue_race \<Rightarrow> bool" where
  "order_ok cs s \<longleftrightarrow> popped s @ c_items s = posted s
   \<and> mset (posted s @ incoming s @ inflight s @ submits (calls_left s)) = mset (submits cs)"

definition enough_ok :: "queue_race \<Rightarrow> bool" where
  "enough_ok s \<longleftrightarrow> enough (length (c_items s @ incoming s @ inflight s)) (calls_left s)"

lemma frees_last_Cons:
  assumes "frees_last (c # cs)"
  shows "c = Call_Free \<and> cs = [] \<or> c \<noteq> Call_Free \<and> cs \<noteq> [] \<and> frees_last cs"
proof -
  obtain b where b: "c # cs = b @ [Call_Free]" "Call_Free \<notin> set b" using assms by (auto simp: frees_last_def)
  then show ?thesis by (cases b) (auto simp: frees_last_def)
qed

lemmas pc_order = less_eq_post_pc_def

lemma post_cases:
  assumes "Post_step t s = Some (Inr s')"
  obtains (take) "post_at s = PIdle" "t \<in> set (inflight s)"
      "s' = s\<lparr>inflight := remove1 t (inflight s), posting := t, post_at := PLock\<rparr>"
  | (lock) "post_at s = PLock" "c_owner s = None" "c_alive s" "s' = s\<lparr>c_owner := Some Poster, post_at := PPush\<rparr>"
  | (push) "post_at s = PPush" "c_alive s" "s' = s\<lparr>c_items := c_items s @ [posting s], posted := posted s @ [posting s], post_at := PUnlock\<rparr>"
  | (unlock) "post_at s = PUnlock" "c_alive s" "s' = s\<lparr>c_owner := None, post_at := PNotify\<rparr>"
  | (notify) "post_at s = PNotify" "c_alive s"
      "s' = s\<lparr>wait_at := (if wait_at s = KSleep then KRelock else wait_at s), post_at := PRelease\<rparr>"
  | (release) "post_at s = PRelease" "c_alive s" "s' = (Release_step s)\<lparr>post_at := PIdle\<rparr>"
proof (cases "post_at s")
  case PIdle
  show ?thesis by (rule take) (use assms PIdle in \<open>simp_all add: Post_step_def split: if_splits\<close>)
next
  case PLock
  show ?thesis by (rule lock) (use assms PLock in \<open>simp_all add: Post_step_def touch_queue_def split: if_splits\<close>)
next
  case PPush
  show ?thesis by (rule push) (use assms PPush in \<open>simp_all add: Post_step_def touch_queue_def split: if_splits\<close>)
next
  case PUnlock
  show ?thesis by (rule unlock) (use assms PUnlock in \<open>simp_all add: Post_step_def touch_queue_def split: if_splits\<close>)
next
  case PNotify
  show ?thesis by (rule notify) (use assms PNotify in \<open>simp_all add: Post_step_def touch_queue_def split: if_splits\<close>)
next
  case PRelease
  show ?thesis by (rule release) (use assms PRelease in \<open>simp_all add: Post_step_def touch_queue_def split: if_splits\<close>)
qed

lemma in_flight_count: "t \<in> set xs \<Longrightarrow> Suc (length (remove1 t xs)) = length xs"
  by (induction xs) auto

lemma reap_cases:
  assumes "Reap_step spurious s = Some (Inr s')"
  obtains (submit) t cs where "calls s = Call_Submit t # cs" "wait_at s = KNext" "c_alive s"
      "s' = s\<lparr>c_refs := c_refs s + 1, inflight := inflight s @ [t], calls := cs\<rparr>"
  | (free) cs where "calls s = Call_Free # cs" "wait_at s = KNext" "c_alive s" "s' = (Release_step s)\<lparr>calls := cs\<rparr>"
  | (lock) c cs where "calls s = c # cs" "c \<in> {Call_WaitOne, Call_TryPop}" "wait_at s = KNext" "c_owner s = None"
      "c_alive s" "s' = s\<lparr>c_owner := Some Reaper, wait_at := KTest\<rparr>"
  | (found) c cs where "calls s = c # cs" "wait_at s = KTest" "c_items s \<noteq> []" "c_alive s" "s' = s\<lparr>wait_at := KPop\<rparr>"
  | (sleep) cs where "calls s = Call_WaitOne # cs" "wait_at s = KTest" "c_items s = []" "c_alive s"
      "s' = s\<lparr>c_owner := None, wait_at := KSleep\<rparr>"
  | (none_yet) c cs where "calls s = c # cs" "c \<noteq> Call_WaitOne" "wait_at s = KTest" "c_items s = []" "c_alive s"
      "s' = s\<lparr>wait_at := KUnlock\<rparr>"
  | (wake) c cs where "calls s = c # cs" "spurious" "wait_at s = KSleep" "c_alive s" "s' = s\<lparr>wait_at := KRelock\<rparr>"
  | (relock) c cs where "calls s = c # cs" "wait_at s = KRelock" "c_owner s = None" "c_alive s"
      "s' = s\<lparr>c_owner := Some Reaper, wait_at := KTest\<rparr>"
  | (pop) c cs where "calls s = c # cs" "wait_at s = KPop" "c_alive s"
      "s' = s\<lparr>popped := popped s @ [hd (c_items s)], c_items := tl (c_items s), wait_at := KUnlock\<rparr>"
  | (unlock) c cs where "calls s = c # cs" "wait_at s = KUnlock" "c_alive s" "s' = s\<lparr>c_owner := None, calls := cs, wait_at := KNext\<rparr>"
proof -
  obtain c cs where c: "calls s = c # cs" using assms by (cases "calls s") (simp_all add: Reap_step_def)
  note u = assms[unfolded Reap_step_def c touch_queue_def, simplified]
  show ?thesis
  proof (cases "wait_at s")
    case KNext
    show ?thesis
    proof (cases c)
      case (Call_Submit t)
      show ?thesis by (rule submit[of t cs]) (use u KNext Call_Submit c in \<open>simp_all split: if_splits\<close>)
    next
      case Call_WaitOne
      show ?thesis by (rule lock[of c cs]) (use u KNext Call_WaitOne c in \<open>simp_all split: if_splits\<close>)
    next
      case Call_TryPop
      show ?thesis by (rule lock[of c cs]) (use u KNext Call_TryPop c in \<open>simp_all split: if_splits\<close>)
    next
      case Call_Free
      show ?thesis by (rule free[of cs]) (use u KNext Call_Free c in \<open>simp_all split: if_splits\<close>)
    qed
  next
    case KTest
    show ?thesis
    proof (cases "c_items s = []")
      case False
      show ?thesis by (rule found[of c cs]) (use u KTest False c in \<open>simp_all split: if_splits\<close>)
    next
      case True
      show ?thesis
      proof (cases "c = Call_WaitOne")
        case True
        show ?thesis by (rule sleep[of cs]) (use u KTest True \<open>c_items s = []\<close> c in \<open>simp_all split: if_splits\<close>)
      next
        case False
        show ?thesis by (rule none_yet[of c cs]) (use u KTest False True c in \<open>simp_all split: if_splits\<close>)
      qed
    qed
  next
    case KSleep
    show ?thesis by (rule wake[of c cs]) (use u KSleep c in \<open>simp_all split: if_splits\<close>)
  next
    case KRelock
    show ?thesis by (rule relock[of c cs]) (use u KRelock c in \<open>simp_all split: if_splits\<close>)
  next
    case KPop
    show ?thesis by (rule pop[of c cs]) (use u KPop c in \<open>simp_all split: if_splits\<close>)
  next
    case KUnlock
    show ?thesis by (rule unlock[of c cs]) (use u KUnlock c in \<open>simp_all split: if_splits\<close>)
  qed
qed

lemma queue_ok_init: "frees_last cs \<Longrightarrow> queue_ok (queue_race_init cs)"
  by (auto simp: queue_ok_def queue_race_init_def frees_last_def)

lemma post_queue_ok:
  assumes "Post_step t s = Some (Inr s')" and "queue_ok s"
  shows "queue_ok s'"
  using assms(1)
proof (cases rule: post_cases)
  case take
  show ?thesis using assms(2) in_flight_count[OF take(2)] take(1,3) by (simp add: queue_ok_def pc_order)
next
  case push
  have "c_owner s = Some Poster" using assms(2) push(1) by (simp add: queue_ok_def)
  then show ?thesis using assms(2) push by (simp add: queue_ok_def pc_order)
next
  case unlock
  have "c_owner s = Some Poster" using assms(2) unlock(1) by (simp add: queue_ok_def)
  then show ?thesis using assms(2) unlock by (simp add: queue_ok_def pc_order)
qed (use assms(2) in \<open>simp_all add: queue_ok_def pc_order Release_step_def split: if_splits\<close>)

lemma mutual:
  assumes "queue_ok s" and "wait_at s \<in> {KTest, KPop, KUnlock}"
  shows "post_at s \<noteq> PPush \<and> post_at s \<noteq> PUnlock"
proof -
  have "c_owner s = Some Reaper \<longleftrightarrow> wait_at s \<in> {KTest, KPop, KUnlock}"
    and poster: "c_owner s = Some Poster \<longleftrightarrow> post_at s \<in> {PPush, PUnlock}"
    using assms(1) unfolding queue_ok_def by blast+
  then have "c_owner s = Some Reaper" using assms(2) by blast
  then show ?thesis using poster by simp
qed

lemma reap_queue_ok:
  assumes "Reap_step spurious s = Some (Inr s')" and "queue_ok s"
  shows "queue_ok s'"
  using assms(1)
proof (cases rule: reap_cases)
  case (submit t cs)
  have "cs \<noteq> [] \<and> frees_last cs" using assms(2) submit(1) by (auto simp: queue_ok_def dest: frees_last_Cons)
  then show ?thesis using assms(2) submit by (simp add: queue_ok_def)
next
  case (free cs)
  have "cs = []" using assms(2) free(1) by (auto simp: queue_ok_def dest: frees_last_Cons)
  then show ?thesis using assms(2) free by (simp add: queue_ok_def Release_step_def split: if_splits)
next
  case (unlock c cs)
  have "cs \<noteq> [] \<and> frees_last cs" using assms(2) unlock(1,2) frees_last_Cons[of c cs] by (auto simp: queue_ok_def)
  then show ?thesis using assms(2) mutual[OF assms(2)] unlock by (simp add: queue_ok_def)
qed (use assms(2) mutual[OF assms(2)] in \<open>simp_all add: queue_ok_def split: if_splits\<close>)

lemma post_order_ok:
  assumes "Post_step t s = Some (Inr s')" and "order_ok cs s"
  shows "order_ok cs s'"
  using assms(1)
  by (cases rule: post_cases)
    (use assms(2) in \<open>simp_all add: order_ok_def incoming_def calls_left_def Release_step_def split: if_splits\<close>)

lemma reap_order_ok:
  assumes "Reap_step spurious s = Some (Inr s')" and "queue_ok s" and "order_ok cs s"
  shows "order_ok cs s'"
  using assms(1)
proof (cases rule: reap_cases)
  case (pop c ds)
  have "c_items s \<noteq> []" "c \<in> {Call_WaitOne, Call_TryPop}" using assms(2) pop by (auto simp: queue_ok_def)
  then show ?thesis using assms(3) pop by (cases "c_items s") (auto simp: order_ok_def incoming_def calls_left_def)
next
  case (none_yet c ds)
  have "c = Call_TryPop" using assms(2) none_yet by (simp add: queue_ok_def)
  then show ?thesis using assms(3) none_yet by (auto simp: order_ok_def incoming_def calls_left_def)
qed (use assms(3) in \<open>auto simp: order_ok_def incoming_def calls_left_def Release_step_def\<close>)

lemma post_enough_ok:
  assumes "Post_step t s = Some (Inr s')" and "enough_ok s"
  shows "enough_ok s'"
  using assms(1)
proof (cases rule: post_cases)
  case take
  show ?thesis using assms(2) in_flight_count[OF take(2)] take(1,3)
    by (simp add: enough_ok_def incoming_def calls_left_def split: if_splits)
qed (use assms(2) in \<open>simp_all add: enough_ok_def incoming_def calls_left_def Release_step_def split: if_splits\<close>)

lemma reap_enough_ok:
  assumes "Reap_step spurious s = Some (Inr s')" and "queue_ok s" and "enough_ok s"
  shows "enough_ok s'"
  using assms(1)
proof (cases rule: reap_cases)
  case (pop c ds)
  have "c_items s \<noteq> []" "c \<in> {Call_WaitOne, Call_TryPop}" using assms(2) pop by (auto simp: queue_ok_def)
  then show ?thesis using assms(3) pop by (cases "c_items s") (auto simp: enough_ok_def incoming_def calls_left_def)
next
  case (none_yet c ds)
  have "c = Call_TryPop" using assms(2) none_yet by (simp add: queue_ok_def)
  then have "enough (length (c_items s @ incoming s @ inflight s) - 1) ds"
    using assms(3) none_yet by (simp add: enough_ok_def calls_left_def)
  then have "enough (length (c_items s @ incoming s @ inflight s)) ds" by (rule enough_mono) simp
  then show ?thesis using none_yet
    by (cases "post_at s") (simp_all add: enough_ok_def incoming_def calls_left_def)
qed (use assms(3) in \<open>auto simp: enough_ok_def incoming_def calls_left_def Release_step_def\<close>)

lemma queueing_ok:
  assumes "queueing spurious cs s" and "frees_last cs"
  shows "queue_ok s \<and> order_ok cs s \<and> (enough 0 cs \<longrightarrow> enough_ok s)"
  using assms(1)
proof induction
  case queueing_init
  show ?case using queue_ok_init[OF assms(2)]
    by (simp add: order_ok_def enough_ok_def queue_race_init_def incoming_def calls_left_def)
next
  case (queueing_step s a s')
  then show ?case
    by (cases a) (auto simp: queue_step_def intro: post_queue_ok reap_queue_ok post_order_ok reap_order_ok
        post_enough_ok reap_enough_ok)
qed

lemma queue_schedule_queueing:
  "queue_schedule spurious as s = Some (Inr s') \<Longrightarrow> queueing spurious cs s \<Longrightarrow> queueing spurious cs s'"
  by (induction as arbitrary: s) (auto split: option.splits sum.splits intro: queueing.queueing_step)

section \<open>What the queue promises\<close>

lemma posted_submitted:
  assumes "order_ok cs s"
  shows "popped s @ c_items s = posted s \<and> mset (posted s) \<subseteq># mset (submits cs)"
proof -
  have "mset (posted s) + mset (incoming s @ inflight s @ submits (calls_left s)) = mset (submits cs)"
    using assms by (simp add: order_ok_def)
  then show ?thesis using assms mset_subset_eq_add_left[of "mset (posted s)"] unfolding order_ok_def by metis
qed

lemma all_posted:
  assumes "order_ok cs s" and "calls s = [] \<and> inflight s = [] \<and> post_at s = PIdle"
  shows "mset (posted s) = mset (submits cs)"
  using assms by (simp add: order_ok_def incoming_def calls_left_def split: if_splits)

text \<open>A thread that still has to touch the queue holds a reference to it.\<close>

lemma queue_no_fault:
  assumes "queue_ok s"
  shows "queue_step spurious a s \<noteq> Some (Inl f)"
proof (cases a)
  case (Post_turn t)
  have "post_at s \<noteq> PIdle \<Longrightarrow> c_alive s" using assms by (simp add: queue_ok_def)
  then show ?thesis unfolding Post_turn
    by (cases "post_at s") (simp_all add: queue_step_def Post_step_def touch_queue_def)
next
  case Reap_turn
  have "calls s \<noteq> [] \<Longrightarrow> c_alive s" using assms by (simp add: queue_ok_def)
  then show ?thesis unfolding Reap_turn
    by (simp add: queue_step_def Reap_step_def touch_queue_def split: list.split wait_pc.split call.split)
qed

lemma nobody: "c_owner s \<noteq> Some Poster \<Longrightarrow> c_owner s \<noteq> Some Reaper \<Longrightarrow> c_owner s = None"
  by (metis option.exhaust side.exhaust)

text \<open>When neither side can move, no notification was lost: everything is done.\<close>

lemma queue_quiet:
  assumes "queue_ok s" and "enough_ok s" and stuck: "\<And>a. queue_step spurious a s = None"
  shows "calls s = [] \<and> inflight s = [] \<and> post_at s = PIdle"
proof -
  have post: "Post_step t s = None" and reap: "Reap_step spurious s = None" for t
    using stuck[of "Post_turn t"] stuck[of Reap_turn] by (simp_all add: queue_step_def)
  have at: "post_at s = PIdle \<and> inflight s = [] \<or> post_at s = PLock \<and> c_owner s \<noteq> None"
    using post[of "hd (inflight s)"]
    by (cases "post_at s"; cases "inflight s") (simp_all add: Post_step_def split: if_splits)
  have "post_at s \<notin> {PPush, PUnlock}" using at by (elim disjE) simp_all
  then have own: "c_owner s \<noteq> Some Poster" using assms(1) by (simp add: queue_ok_def)
  have calls: "calls s = []"
  proof (rule ccontr)
    assume "calls s \<noteq> []"
    then obtain c cs where c: "calls s = c # cs" by (cases "calls s") auto
    have w: "wait_at s \<notin> {KTest, KPop, KUnlock}" using reap c by (auto simp: Reap_step_def)
    then have "c_owner s \<noteq> Some Reaper" using assms(1) by (simp add: queue_ok_def)
    then have free: "c_owner s = None" using own by (rule nobody[rotated])
    have sl: "wait_at s = KSleep" using reap c w free
      by (cases "wait_at s"; cases c) (simp_all add: Reap_step_def split: if_splits)
    have idle: "post_at s = PIdle" "inflight s = []" using at free by auto
    have "c_items s = []" using assms(1) sl idle by (simp add: queue_ok_def pc_order)
    moreover have "c = Call_WaitOne" using assms(1) sl c by (simp add: queue_ok_def)
    ultimately show False using assms(2) sl idle c by (simp add: enough_ok_def incoming_def calls_left_def)
  qed
  have "c_owner s \<noteq> Some Reaper" using assms(1) calls by (auto simp: queue_ok_def)
  then have "c_owner s = None" using own by (rule nobody[rotated])
  then show ?thesis using calls at by auto
qed

text \<open>
  Without spurious wake-ups the statements still to come are bounded: a notification may send
  the waiter round its loop once more, which the statements of the \<open>Post\<close> pay for.
\<close>

primrec call_cost :: "call \<Rightarrow> nat" where
  "call_cost (Call_Submit t) = 9" | "call_cost Call_WaitOne = 5" | "call_cost Call_TryPop = 5" | "call_cost Call_Free = 1"

primrec wait_cost :: "wait_pc \<Rightarrow> nat" where
  "wait_cost KNext = 5" | "wait_cost KRelock = 5" | "wait_cost KTest = 4" | "wait_cost KSleep = 3" | "wait_cost KPop = 2"
| "wait_cost KUnlock = 1"

primrec post_cost :: "post_pc \<Rightarrow> nat" where
  "post_cost PIdle = 0" | "post_cost PLock = 7" | "post_cost PPush = 6" | "post_cost PUnlock = 5" | "post_cost PNotify = 4"
| "post_cost PRelease = 1"

definition to_do :: "queue_race \<Rightarrow> nat" where
  "to_do s = (if wait_at s = KNext then sum_list (List.map call_cost (calls s))
      else wait_cost (wait_at s) + sum_list (List.map call_cost (tl (calls s))))
    + 8 * length (inflight s) + post_cost (post_at s)"

lemma to_do_decreases:
  assumes "queue_step False a s = Some (Inr s')"
  shows "to_do s' < to_do s"
proof (cases a)
  case (Post_turn t)
  then have "Post_step t s = Some (Inr s')" using assms by (simp add: queue_step_def)
  then show ?thesis
  proof (cases rule: post_cases)
    case take
    then show ?thesis using in_flight_count[OF take(2)] by (simp add: to_do_def)
  qed (simp_all add: to_do_def Release_step_def)
next
  case Reap_turn
  then have "Reap_step False s = Some (Inr s')" using assms by (simp add: queue_step_def)
  then show ?thesis
  proof (cases rule: reap_cases)
    case (lock c cs)
    then have "call_cost c = 5" by auto
    then show ?thesis using lock by (simp add: to_do_def)
  qed (simp_all add: to_do_def Release_step_def)
qed

lemma schedule_to_do:
  "queue_schedule False as s = Some (Inr s') \<Longrightarrow> length as + to_do s' \<le> to_do s"
proof (induction as arbitrary: s)
  case (Cons a as)
  then obtain u where u: "queue_step False a s = Some (Inr u)" "queue_schedule False as u = Some (Inr s')"
    by (auto split: option.splits sum.splits)
  show ?case using Cons.IH[OF u(2)] to_do_decreases[OF u(1)] by simp
qed simp

lemma to_do_init: "to_do (queue_race_init cs) \<le> 9 * length cs"
proof -
  have "call_cost c \<le> 9" for c by (cases c) simp_all
  then have "sum_list (List.map call_cost cs) \<le> 9 * length cs" by (induction cs) (simp_all add: add_mono)
  then show ?thesis by (simp add: to_do_def queue_race_init_def)
qed

lemma schedule_no_fault:
  assumes "frees_last cs"
  shows "queueing spurious cs s \<Longrightarrow> queue_schedule spurious as s \<noteq> Some (Inl f)"
proof (induction as arbitrary: s)
  case (Cons a as)
  have "queue_step spurious a s \<noteq> Some (Inl f)" using queueing_ok[OF Cons.prems assms] by (auto dest: queue_no_fault)
  then show ?case using Cons by (auto split: option.split sum.split intro: queueing.queueing_step)
qed simp

text \<open>
  C11. A completion queue lives exactly as long as it is needed and serves its tasks in the
  order they completed. For a client that drops the creator's reference last, whatever task in
  flight libuv completes next, and in every interleaving of the client's calls with the loop
  thread's \<open>Post\<close> and \<open>Release\<close>: no statement touches the queue after it was deleted; the
  queue exists exactly while the client has calls to make or a task routed to it has not been
  posted and released (so it is deleted once, whoever comes last); what the client got and
  what is still queued are, in order, what was posted, and nothing is posted more often than
  it was submitted; and if no call waits for more tasks than were submitted before it, the two
  threads only ever stop with every submitted task posted, every call made and the queue
  deleted, after at most nine statements a call when the condition variable does not wake up
  spuriously.
\<close>

theorem queue_lifetime:
  assumes "frees_last cs"
    and "queue_schedule spurious as (queue_race_init cs) = Some r"
  shows "\<exists>s. r = Inr s
    \<and> (c_alive s \<longleftrightarrow> calls s \<noteq> [] \<or> inflight s \<noteq> [] \<or> post_at s \<noteq> PIdle)
    \<and> popped s @ c_items s = posted s \<and> mset (posted s) \<subseteq># mset (submits cs)
    \<and> (enough 0 cs \<and> (\<forall>a. queue_step spurious a s = None)
        \<longrightarrow> calls s = [] \<and> \<not> c_alive s \<and> mset (posted s) = mset (submits cs))
    \<and> (\<not> spurious \<longrightarrow> length as \<le> 9 * length cs)"
proof -
  obtain s where r: "r = Inr s" using assms(2) schedule_no_fault[OF assms(1) queueing_init] by (cases r) auto
  have q: "queueing spurious cs s" using assms(2) r by (auto intro: queue_schedule_queueing queueing_init)
  have ok: "queue_ok s" "order_ok cs s" "enough 0 cs \<longrightarrow> enough_ok s" using queueing_ok[OF q assms(1)] by auto
  have alive: "c_alive s \<longleftrightarrow> calls s \<noteq> [] \<or> inflight s \<noteq> [] \<or> post_at s \<noteq> PIdle"
    using ok(1) by (simp add: queue_ok_def)
  moreover have "popped s @ c_items s = posted s \<and> mset (posted s) \<subseteq># mset (submits cs)"
    using ok(2) by (rule posted_submitted)
  moreover have "calls s = [] \<and> \<not> c_alive s \<and> mset (posted s) = mset (submits cs)"
    if "enough 0 cs" "\<forall>a. queue_step spurious a s = None"
    using queue_quiet[OF ok(1)] ok(3) that alive all_posted[OF ok(2)] by blast
  moreover have "length as \<le> 9 * length cs" if "\<not> spurious"
    using schedule_to_do[of as "queue_race_init cs" s] to_do_init[of cs] assms(2) r that by simp
  ultimately show ?thesis using r by blast
qed

text \<open>
  The client submits two timers, the second of which fires first, waits for both and frees its
  queue while the loop thread is between \<open>Post\<close>'s unlock and its \<open>Release\<close> for the second
  time: the loop thread deletes the queue. It got the tasks in the order of their completion.
\<close>

theorem queue_lifetime_witness:
  "\<exists>s. queue_schedule False
       (replicate 2 Reap_turn @ replicate 6 (Post_turn 8) @ replicate 6 Reap_turn @ replicate 5 (Post_turn 7)
          @ replicate 5 Reap_turn @ [Post_turn 7])
       (queue_race_init [Call_Submit 7, Call_Submit 8, Call_WaitOne, Call_WaitOne, Call_Free]) = Some (Inr s)
    \<and> \<not> c_alive s \<and> popped s = [8, 7]"
proof -
  let ?cs = "[Call_Submit 7, Call_Submit 8, Call_WaitOne, Call_WaitOne, Call_Free]"
  let ?as = "replicate 2 Reap_turn @ replicate 6 (Post_turn 8) @ replicate 6 Reap_turn @ replicate 5 (Post_turn 7)
          @ replicate 5 Reap_turn @ [Post_turn 7]"
  have free: "frees_last ?cs" unfolding frees_last_def
    by (rule exI[of _ "[Call_Submit 7, Call_Submit 8, Call_WaitOne, Call_WaitOne]"]) simp
  obtain s where run: "queue_schedule False ?as (queue_race_init ?cs) = Some (Inr s)"
    and fin: "calls s = []" "inflight s = []" "post_at s = PIdle" "popped s = [8, 7]"
    by (simp add: numeral_eq_Suc queue_race_init_def queue_step_def Post_step_def Reap_step_def touch_queue_def
        Release_step_def)
  from queue_lifetime[OF free run] have "\<not> c_alive s" using fin by auto
  then show ?thesis using run fin by blast
qed

end
