(* ===== verification/Submission.thy ===== *)
theory Submission
  imports Runtime_State "HOL-Library.Sublist"
begin

text \<open>
  Submitting, draining and stopping, statement by statement (\<^verbatim>\<open>runtime.cpp\<close> \<open>Submit\<close>, \<open>Drain\<close>,
  \<open>Stop\<close>): any number of client threads submit tasks through the mutex-protected vector and
  the coalescing async handle, the loop thread swaps the vector out and dispatches the batch,
  and one thread may stop the runtime. The other theories take each of the three as one step;
  here their statements interleave.

  Without a stop nothing is lost, nothing faults, every thread's tasks are dispatched once and
  in the order of its submissions, and every schedule ends. \<open>Stop\<close> is not that safe: the last
  section has the interleavings in which it strands a task or uses the closed async handle.
\<close>

section \<open>The threads\<close>

text \<open>Program counters, named after the statement to come.\<close>

datatype submit_pc = SAssert | SLock | SPush | SUnlock | SSend

datatype drain_pc = DWait | DLock | DSwap | DUnlock | DDispatch | DStopTest | DClose | DEnd

datatype stop_pc = TSwap | TFlag | TSend | TJoin | TEnd

datatype agent = Client nat | Loop_Thread | Stopper

text \<open>
  The queue, its mutex, the async handle (open, pending), the two flags, and the position of
  every thread; \<open>todo\<close> are the tasks a client still has to submit, the head being the one it
  is at; \<open>dispatched\<close> is the history of \<open>Dispatch\<close>; \<open>m_ndebug\<close>, which never changes, says
  whether the program was built with \<open>NDEBUG\<close>, that is without its assertions.
\<close>

record submission =
  m_queue :: "addr list"
  m_owner :: "agent option"
  m_open :: bool
  m_sent :: bool
  m_running :: bool
  m_stopping :: bool
  todo :: "nat \<Rightarrow> addr list"
  client_at :: "nat \<Rightarrow> submit_pc"
  drain_at :: drain_pc
  batch :: "addr list"
  dispatched :: "addr list"
  stop_at :: stop_pc
  m_ndebug :: bool

definition submission_init :: "bool \<Rightarrow> (nat \<Rightarrow> addr list) \<Rightarrow> submission" where
  "submission_init nd w = \<lparr>m_queue = [], m_owner = None, m_open = True, m_sent = False, m_running = True,
     m_stopping = False, todo = w, client_at = (\<lambda>p. SAssert), drain_at = DWait, batch = [], dispatched = [],
     stop_at = TSwap, m_ndebug = nd\<rparr>"

definition send_async :: "submission \<Rightarrow> fault + submission" where
  "send_async s = (if m_open s then Inr (s\<lparr>m_sent := True\<rparr>) else Inl BadHandle)"

definition client_goto :: "nat \<Rightarrow> submit_pc \<Rightarrow> submission \<Rightarrow> submission" where
  "client_goto p pc s = s\<lparr>client_at := (client_at s)(p := pc)\<rparr>"

text \<open>One statement of \<open>Submit\<close>; \<open>None\<close> where the thread has to wait or has submitted everything.\<close>

definition Submit_step :: "nat \<Rightarrow> submission \<Rightarrow> (fault + submission) option" where
  "Submit_step p s = (case todo s p of [] \<Rightarrow> None | t # ts \<Rightarrow> (case client_at s p of
       SAssert \<Rightarrow> Some (if m_running s \<or> m_ndebug s then Inr (client_goto p SLock s) else Inl AssertionFailed)
     | SLock \<Rightarrow> if m_owner s = None then Some (Inr (client_goto p SPush (s\<lparr>m_owner := Some (Client p)\<rparr>))) else None
     | SPush \<Rightarrow> Some (Inr (client_goto p SUnlock (s\<lparr>m_queue := m_queue s @ [t]\<rparr>)))
     | SUnlock \<Rightarrow> Some (Inr (client_goto p SSend (s\<lparr>m_owner := None\<rparr>)))
     | SSend \<Rightarrow> Some (sbind (send_async s) (\<lambda>s1. Inr (client_goto p SAssert (s1\<lparr>todo := (todo s)(p := ts)\<rparr>))))))"

text \<open>
  One statement of the loop thread: libuv's wake-up, which clears the pending flag, and
  \<open>Drain\<close>. \<open>DClose\<close> is the \<open>uv_close\<close> of the async handle, after which libuv calls \<open>Drain\<close>
  no more.
\<close>

definition Drain_step :: "submission \<Rightarrow> (fault + submission) option" where
  "Drain_step s = (case drain_at s of
       DWait \<Rightarrow> if m_sent s then Some (Inr (s\<lparr>m_sent := False, drain_at := DLock\<rparr>)) else None
     | DLock \<Rightarrow> if m_owner s = None then Some (Inr (s\<lparr>m_owner := Some Loop_Thread, drain_at := DSwap\<rparr>)) else None
     | DSwap \<Rightarrow> Some (Inr (s\<lparr>batch := m_queue s, m_queue := [], drain_at := DUnlock\<rparr>))
     | DUnlock \<Rightarrow> Some (Inr (s\<lparr>m_owner := None, drain_at := DDispatch\<rparr>))
     | DDispatch \<Rightarrow> Some (Inr (case batch s of
           [] \<Rightarrow> s\<lparr>drain_at := DStopTest\<rparr>
         | t # ts \<Rightarrow> s\<lparr>batch := ts, dispatched := dispatched s @ [t]\<rparr>))
     | DStopTest \<Rightarrow> Some (Inr (s\<lparr>drain_at := (if m_stopping s then DClose else DWait)\<rparr>))
     | DClose \<Rightarrow> Some (Inr (s\<lparr>m_open := False, drain_at := DEnd\<rparr>))
     | DEnd \<Rightarrow> None)"

text \<open>One statement of \<open>Stop\<close>, which is called when \<open>may\<close> allows; the join waits for the loop's end.\<close>

definition Stop_step :: "(submission \<Rightarrow> bool) \<Rightarrow> submission \<Rightarrow> (fault + submission) option" where
  "Stop_step may s = (case stop_at s of
       TSwap \<Rightarrow> if may s then Some (Inr (if m_running s then s\<lparr>m_running := False, stop_at := TFlag\<rparr>
           else s\<lparr>stop_at := TEnd\<rparr>)) else None
     | TFlag \<Rightarrow> Some (Inr (s\<lparr>m_stopping := True, stop_at := TSend\<rparr>))
     | TSend \<Rightarrow> Some (sbind (send_async s) (\<lambda>s1. Inr (s1\<lparr>stop_at := TJoin\<rparr>)))
     | TJoin \<Rightarrow> if drain_at s = DEnd then Some (Inr (s\<lparr>stop_at := TEnd\<rparr>)) else None
     | TEnd \<Rightarrow> None)"

definition submission_step :: "(submission \<Rightarrow> bool) \<Rightarrow> agent \<Rightarrow> submission \<Rightarrow> (fault + submission) option" where
  "submission_step may a s = (case a of
     Client p \<Rightarrow> Submit_step p s | Loop_Thread \<Rightarrow> Drain_step s | Stopper \<Rightarrow> Stop_step may s)"

inductive submitting :: "(submission \<Rightarrow> bool) \<Rightarrow> (nat \<Rightarrow> addr list) \<Rightarrow> submission \<Rightarrow> bool" for may w where
  submitting_init: "submitting may w (submission_init nd w)"
| submitting_step: "submitting may w s \<Longrightarrow> submission_step may a s = Some (Inr s') \<Longrightarrow> submitting may w s'"

text \<open>A schedule, executed up to its end or to a fault.\<close>

fun interleave :: "(submission \<Rightarrow> bool) \<Rightarrow> agent list \<Rightarrow> submission \<Rightarrow> (fault + submission) option" where
  "interleave may [] s = Some (Inr s)"
| "interleave may (a # as) s = (case submission_step may a s of
     None \<Rightarrow> None | Some (Inl f) \<Rightarrow> Some (Inl f) | Some (Inr s') \<Rightarrow> interleave may as s')"

text \<open>A runtime that is not stopped.\<close>

abbreviation never :: "submission \<Rightarrow> bool" where
  "never \<equiv> \<lambda>s. False"

section \<open>What every interleaving keeps\<close>

text \<open>The mutex, the wake-up, the batch, and the stop.\<close>

definition locking_ok :: "submission \<Rightarrow> bool" where
  "locking_ok s \<longleftrightarrow>
     (\<forall>p. m_owner s = Some (Client p) \<longleftrightarrow> client_at s p \<in> {SPush, SUnlock})
   \<and> (m_owner s = Some Loop_Thread \<longleftrightarrow> drain_at s \<in> {DSwap, DUnlock})
   \<and> m_owner s \<noteq> Some Stopper
   \<and> (\<forall>p. todo s p = [] \<longrightarrow> client_at s p = SAssert)"

definition pushing :: "submission \<Rightarrow> nat set" where
  "pushing s = {p. client_at s p \<in> {SUnlock, SSend}}"

definition waking_ok :: "submission \<Rightarrow> bool" where
  "waking_ok s \<longleftrightarrow>
     (m_open s \<and> m_queue s \<noteq> [] \<longrightarrow> m_sent s \<or> drain_at s \<in> {DLock, DSwap} \<or> pushing s \<noteq> {})
   \<and> (batch s \<noteq> [] \<longrightarrow> drain_at s \<in> {DUnlock, DDispatch})"

definition stopping_ok :: "submission \<Rightarrow> bool" where
  "stopping_ok s \<longleftrightarrow>
     (m_open s \<longleftrightarrow> drain_at s \<noteq> DEnd)
   \<and> (m_running s \<longleftrightarrow> stop_at s = TSwap)
   \<and> (m_stopping s \<longleftrightarrow> stop_at s \<in> {TSend, TJoin, TEnd})
   \<and> (drain_at s \<in> {DClose, DEnd} \<longrightarrow> m_stopping s)
   \<and> (stop_at s = TJoin \<longrightarrow> m_sent s \<or> drain_at s \<noteq> DWait)
   \<and> (stop_at s = TEnd \<longrightarrow> drain_at s = DEnd)"

text \<open>The tasks a client has not yet put into the queue, and everything that was ever in it.\<close>

definition unpushed :: "submission \<Rightarrow> nat \<Rightarrow> addr list" where
  "unpushed s p = (if client_at s p \<in> {SUnlock, SSend} then tl (todo s p) else todo s p)"

definition flow :: "submission \<Rightarrow> addr list" where
  "flow s = dispatched s @ batch s @ m_queue s"

text \<open>The share of one client.\<close>

definition own :: "(nat \<Rightarrow> addr list) \<Rightarrow> nat \<Rightarrow> addr list \<Rightarrow> addr list" where
  "own w p ts = filter (\<lambda>t. t \<in> set (w p)) ts"

definition flow_ok :: "(nat \<Rightarrow> addr list) \<Rightarrow> submission \<Rightarrow> bool" where
  "flow_ok w s \<longleftrightarrow> (\<forall>p. own w p (flow s) @ unpushed s p = w p) \<and> set (flow s) \<subseteq> (\<Union>p. set (w p))"

lemmas submission_steps = Submit_step_def Drain_step_def Stop_step_def send_async_def client_goto_def

lemma submission_init_ok: "locking_ok (submission_init nd w)" "waking_ok (submission_init nd w)"
  "stopping_ok (submission_init nd w)" "flow_ok w (submission_init nd w)"
  by (simp_all add: submission_init_def locking_ok_def waking_ok_def stopping_ok_def flow_ok_def flow_def
      unpushed_def own_def)

lemma pushing_goto:
  "pushing (client_goto p pc s) = (if pc \<in> {SUnlock, SSend} then insert p (pushing s) else pushing s - {p})"
  by (auto simp: pushing_def client_goto_def)

lemma pushing_simps [simp]:
  "pushing (s\<lparr>m_owner := o'\<rparr>) = pushing s" "pushing (s\<lparr>m_queue := q\<rparr>) = pushing s" "pushing (s\<lparr>m_sent := b\<rparr>) = pushing s"
  "pushing (s\<lparr>m_open := b\<rparr>) = pushing s" "pushing (s\<lparr>todo := w\<rparr>) = pushing s" "pushing (s\<lparr>batch := q\<rparr>) = pushing s"
  "pushing (s\<lparr>drain_at := d\<rparr>) = pushing s" "pushing (s\<lparr>dispatched := q\<rparr>) = pushing s" "pushing (s\<lparr>stop_at := t\<rparr>) = pushing s"
  "pushing (s\<lparr>m_running := b\<rparr>) = pushing s" "pushing (s\<lparr>m_stopping := b\<rparr>) = pushing s"
  by (simp_all add: pushing_def)

lemma goto_simps [simp]:
  "m_queue (client_goto p pc s) = m_queue s" "m_sent (client_goto p pc s) = m_sent s" "m_open (client_goto p pc s) = m_open s"
  "batch (client_goto p pc s) = batch s" "drain_at (client_goto p pc s) = drain_at s" "m_owner (client_goto p pc s) = m_owner s"
  "dispatched (client_goto p pc s) = dispatched s" "todo (client_goto p pc s) = todo s" "stop_at (client_goto p pc s) = stop_at s"
  "m_running (client_goto p pc s) = m_running s" "m_stopping (client_goto p pc s) = m_stopping s"
  "m_ndebug (client_goto p pc s) = m_ndebug s"
  "client_at (client_goto p pc s) = (client_at s)(p := pc)"
  by (simp_all add: client_goto_def)

lemma client_cases:
  assumes "Submit_step p s = Some (Inr s')"
  obtains (assert) t ts where "todo s p = t # ts" "client_at s p = SAssert" "m_running s \<or> m_ndebug s"
      "s' = client_goto p SLock s"
  | (lock) t ts where "todo s p = t # ts" "client_at s p = SLock" "m_owner s = None"
      "s' = client_goto p SPush (s\<lparr>m_owner := Some (Client p)\<rparr>)"
  | (push) t ts where "todo s p = t # ts" "client_at s p = SPush"
      "s' = client_goto p SUnlock (s\<lparr>m_queue := m_queue s @ [t]\<rparr>)"
  | (unlock) t ts where "todo s p = t # ts" "client_at s p = SUnlock" "s' = client_goto p SSend (s\<lparr>m_owner := None\<rparr>)"
  | (send) t ts where "todo s p = t # ts" "client_at s p = SSend" "m_open s"
      "s' = client_goto p SAssert (s\<lparr>m_sent := True, todo := (todo s)(p := ts)\<rparr>)"
  using assms
  by (cases "todo s p"; cases "client_at s p")
    (auto simp: Submit_step_def send_async_def client_goto_def split: if_splits)

lemma drain_cases:
  assumes "Drain_step s = Some (Inr s')"
  obtains (wake) "drain_at s = DWait" "m_sent s" "s' = s\<lparr>m_sent := False, drain_at := DLock\<rparr>"
  | (lock) "drain_at s = DLock" "m_owner s = None" "s' = s\<lparr>m_owner := Some Loop_Thread, drain_at := DSwap\<rparr>"
  | (swap) "drain_at s = DSwap" "s' = s\<lparr>batch := m_queue s, m_queue := [], drain_at := DUnlock\<rparr>"
  | (unlock) "drain_at s = DUnlock" "s' = s\<lparr>m_owner := None, drain_at := DDispatch\<rparr>"
  | (dispatch) t ts where "drain_at s = DDispatch" "batch s = t # ts" "s' = s\<lparr>batch := ts, dispatched := dispatched s @ [t]\<rparr>"
  | (finish) "drain_at s = DDispatch" "batch s = []" "s' = s\<lparr>drain_at := DStopTest\<rparr>"
  | (stop_test) "drain_at s = DStopTest" "s' = s\<lparr>drain_at := (if m_stopping s then DClose else DWait)\<rparr>"
  | (close) "drain_at s = DClose" "s' = s\<lparr>m_open := False, drain_at := DEnd\<rparr>"
  using assms by (cases "drain_at s") (auto simp: Drain_step_def split: if_splits list.splits)

lemma stop_cases:
  assumes "Stop_step may s = Some (Inr s')"
  obtains (swap) "stop_at s = TSwap" "may s" "m_running s" "s' = s\<lparr>m_running := False, stop_at := TFlag\<rparr>"
  | (stopped) "stop_at s = TSwap" "may s" "\<not> m_running s" "s' = s\<lparr>stop_at := TEnd\<rparr>"
  | (flag) "stop_at s = TFlag" "s' = s\<lparr>m_stopping := True, stop_at := TSend\<rparr>"
  | (send) "stop_at s = TSend" "m_open s" "s' = s\<lparr>m_sent := True, stop_at := TJoin\<rparr>"
  | (join) "stop_at s = TJoin" "drain_at s = DEnd" "s' = s\<lparr>stop_at := TEnd\<rparr>"
  using assms by (cases "stop_at s") (auto simp: Stop_step_def send_async_def split: if_splits)

lemma locking_step:
  assumes "locking_ok s" and "submission_step may a s = Some (Inr s')"
  shows "locking_ok s'"
proof (cases a)
  case (Client p)
  then have "Submit_step p s = Some (Inr s')" using assms(2) by (simp add: submission_step_def)
  then show ?thesis
  proof (cases rule: client_cases)
    case unlock
    then have "m_owner s = Some (Client p)" using assms(1) by (simp add: locking_ok_def)
    moreover have "client_at s q \<in> {SPush, SUnlock} \<longleftrightarrow> m_owner s = Some (Client q)" for q
      using assms(1) unfolding locking_ok_def by blast
    ultimately have "client_at s q \<notin> {SPush, SUnlock}" if "q \<noteq> p" for q using that by simp
    then show ?thesis using assms(1) unlock by (auto simp: locking_ok_def)
  qed (use assms(1) in \<open>auto simp: locking_ok_def\<close>)
next
  case Loop_Thread
  then have "Drain_step s = Some (Inr s')" using assms(2) by (simp add: submission_step_def)
  then show ?thesis by (cases rule: drain_cases) (use assms(1) in \<open>auto simp: locking_ok_def\<close>)
next
  case Stopper
  then have "Stop_step may s = Some (Inr s')" using assms(2) by (simp add: submission_step_def)
  then show ?thesis by (cases rule: stop_cases) (use assms(1) in \<open>auto simp: locking_ok_def\<close>)
qed

lemma waking_step:
  assumes "waking_ok s" and "submission_step may a s = Some (Inr s')"
  shows "waking_ok s'"
proof (cases a)
  case (Client p)
  then have "Submit_step p s = Some (Inr s')" using assms(2) by (simp add: submission_step_def)
  then show ?thesis
  proof (cases rule: client_cases)
    case assert
    then have "p \<notin> pushing s" by (simp add: pushing_def)
    then show ?thesis using assms(1) assert(4) by (simp add: waking_ok_def pushing_goto)
  next
    case lock
    then have "p \<notin> pushing s" by (simp add: pushing_def)
    then show ?thesis using assms(1) lock(4) by (simp add: waking_ok_def pushing_goto)
  qed (use assms(1) in \<open>simp_all add: waking_ok_def pushing_goto\<close>)
next
  case Loop_Thread
  then have "Drain_step s = Some (Inr s')" using assms(2) by (simp add: submission_step_def)
  then show ?thesis by (cases rule: drain_cases) (use assms(1) in \<open>auto simp: waking_ok_def\<close>)
next
  case Stopper
  then have "Stop_step may s = Some (Inr s')" using assms(2) by (simp add: submission_step_def)
  then show ?thesis by (cases rule: stop_cases) (use assms(1) in \<open>auto simp: waking_ok_def\<close>)
qed

lemma stopping_step:
  assumes "stopping_ok s" and "submission_step may a s = Some (Inr s')"
  shows "stopping_ok s'"
proof (cases a)
  case (Client p)
  then have "Submit_step p s = Some (Inr s')" using assms(2) by (simp add: submission_step_def)
  then show ?thesis by (cases rule: client_cases) (use assms(1) in \<open>auto simp: stopping_ok_def\<close>)
next
  case Loop_Thread
  then have "Drain_step s = Some (Inr s')" using assms(2) by (simp add: submission_step_def)
  then show ?thesis by (cases rule: drain_cases) (use assms(1) in \<open>auto simp: stopping_ok_def\<close>)
next
  case Stopper
  then have "Stop_step may s = Some (Inr s')" using assms(2) by (simp add: submission_step_def)
  then show ?thesis by (cases rule: stop_cases) (use assms(1) in \<open>auto simp: stopping_ok_def\<close>)
qed

text \<open>Tasks move from \<open>unpushed\<close> to \<open>flow\<close>, at its end, and nowhere else.\<close>

lemma own_append: "own w p (xs @ ys) = own w p xs @ own w p ys"
  by (simp add: own_def)

lemma flow_ok_push:
  assumes f: "flow_ok w s" and d: "\<And>p q. p \<noteq> q \<Longrightarrow> set (w p) \<inter> set (w q) = {}"
    and t: "unpushed s p = t # ts" and s': "flow s' = flow s @ [t]" "unpushed s' = (unpushed s)(p := ts)"
  shows "flow_ok w s'"
proof -
  have w: "own w q (flow s) @ unpushed s q = w q" for q using f by (simp add: flow_ok_def)
  have tp: "t \<in> set (w p)" using w [of p] t by (metis in_set_conv_decomp)
  have "t \<notin> set (w q)" if "q \<noteq> p" for q using d [OF that] tp by blast
  then have "own w q (flow s') @ unpushed s' q = w q" for q
    using w [of q] tp t by (cases "q = p") (simp_all add: s' own_append own_def)
  moreover have "set (flow s') \<subseteq> (\<Union>p. set (w p))" using f tp s'(1) by (auto simp: flow_ok_def)
  ultimately show ?thesis by (simp add: flow_ok_def)
qed

lemma flow_ok_same: "flow_ok w s \<Longrightarrow> flow s' = flow s \<Longrightarrow> unpushed s' = unpushed s \<Longrightarrow> flow_ok w s'"
  by (simp add: flow_ok_def)

lemma flow_step:
  assumes f: "flow_ok w s" and d: "\<And>p q. p \<noteq> q \<Longrightarrow> set (w p) \<inter> set (w q) = {}"
    and k: "waking_ok s" and "submission_step may a s = Some (Inr s')"
  shows "flow_ok w s'"
proof (cases a)
  case (Client p)
  then have "Submit_step p s = Some (Inr s')" using assms(4) by (simp add: submission_step_def)
  then show ?thesis
  proof (cases rule: client_cases)
    case (push t ts)
    have u: "unpushed s p = t # ts" using push by (simp add: unpushed_def)
    have f': "flow s' = flow s @ [t]" "unpushed s' = (unpushed s)(p := ts)"
      using push by (auto simp: flow_def unpushed_def fun_eq_iff)
    show ?thesis using flow_ok_push [OF f d u f'] .
  next
    case assert
    then show ?thesis by (intro flow_ok_same [OF f]) (auto simp: flow_def unpushed_def fun_eq_iff)
  next
    case lock
    then show ?thesis by (intro flow_ok_same [OF f]) (auto simp: flow_def unpushed_def fun_eq_iff)
  next
    case unlock
    then show ?thesis by (intro flow_ok_same [OF f]) (auto simp: flow_def unpushed_def fun_eq_iff)
  next
    case send
    then show ?thesis by (intro flow_ok_same [OF f]) (auto simp: flow_def unpushed_def fun_eq_iff)
  qed
next
  case Loop_Thread
  then have "Drain_step s = Some (Inr s')" using assms(4) by (simp add: submission_step_def)
  then show ?thesis
    by (cases rule: drain_cases) (use k in \<open>auto intro!: flow_ok_same [OF f] simp: flow_def unpushed_def waking_ok_def fun_eq_iff\<close>)
next
  case Stopper
  then have "Stop_step may s = Some (Inr s')" using assms(4) by (simp add: submission_step_def)
  then show ?thesis
    by (cases rule: stop_cases) (auto intro!: flow_ok_same [OF f] simp: flow_def unpushed_def fun_eq_iff)
qed

text \<open>Every client submits tasks of its own.\<close>

definition separate :: "(nat \<Rightarrow> addr list) \<Rightarrow> bool" where
  "separate w \<longleftrightarrow> (\<forall>p q. p \<noteq> q \<longrightarrow> set (w p) \<inter> set (w q) = {})"

lemma submitting_ok:
  assumes "submitting may w s"
  shows "locking_ok s" "waking_ok s" "stopping_ok s" "separate w \<Longrightarrow> flow_ok w s"
  using assms
proof (induction rule: submitting.induct)
  case submitting_init
  case 1 show ?case by (rule submission_init_ok)
  case 2 show ?case by (rule submission_init_ok)
  case 3 show ?case by (rule submission_init_ok)
  case 4 show ?case by (rule submission_init_ok)
next
  case (submitting_step s a s')
  case 1 show ?case by (rule locking_step [OF submitting_step.IH(1) submitting_step.hyps(2)])
  case 2 show ?case by (rule waking_step [OF submitting_step.IH(2) submitting_step.hyps(2)])
  case 3 show ?case by (rule stopping_step [OF submitting_step.IH(3) submitting_step.hyps(2)])
  case 4
  show ?case by (rule flow_step [OF submitting_step.IH(4) [OF 4] _ submitting_step.IH(2) submitting_step.hyps(2)])
    (use 4 in \<open>simp add: separate_def\<close>)
qed

lemma interleave_submitting:
  "submitting may w s \<Longrightarrow> interleave may as s = Some (Inr s') \<Longrightarrow> submitting may w s'"
proof (induction as arbitrary: s)
  case Nil
  then show ?case by simp
next
  case (Cons a as)
  then show ?case by (auto split: option.splits sum.splits intro: submitting_step)
qed

section \<open>Nobody blocks for ever\<close>

text \<open>Whoever holds the mutex can go on; so with nobody able to move, it is free.\<close>

lemma owner_moves:
  assumes "locking_ok s" and "m_owner s = Some b"
  shows "submission_step may b s \<noteq> None"
proof (cases b)
  case (Client p)
  then have c: "client_at s p \<in> {SPush, SUnlock}" using assms unfolding locking_ok_def by blast
  moreover have "todo s p = [] \<longrightarrow> client_at s p = SAssert" using assms(1) by (simp add: locking_ok_def)
  ultimately have "client_at s p \<in> {SPush, SUnlock}" "todo s p \<noteq> []" by auto
  then show ?thesis using Client by (auto simp: submission_step_def Submit_step_def split: list.splits)
next
  case Loop_Thread
  then have "drain_at s \<in> {DSwap, DUnlock}" using assms by (auto simp: locking_ok_def)
  then show ?thesis using Loop_Thread by (auto simp: submission_step_def Drain_step_def)
next
  case Stopper
  then show ?thesis using assms by (simp add: locking_ok_def)
qed

lemma stuck:
  assumes l: "locking_ok s" and n: "\<And>a. submission_step may a s = None"
  shows "todo s p = []" and "drain_at s = DEnd \<or> drain_at s = DWait \<and> \<not> m_sent s"
    and "stop_at s = TSwap \<and> \<not> may s \<or> stop_at s = TJoin \<and> drain_at s \<noteq> DEnd \<or> stop_at s = TEnd"
proof -
  have o: "m_owner s = None" using owner_moves [OF l, of _ may] n by (cases "m_owner s") auto
  show "todo s p = []" using n [of "Client p"] o
    by (cases "todo s p"; cases "client_at s p") (auto simp: submission_step_def Submit_step_def)
  show "drain_at s = DEnd \<or> drain_at s = DWait \<and> \<not> m_sent s" using n [of Loop_Thread] o
    by (cases "drain_at s") (auto simp: submission_step_def Drain_step_def split: if_splits)
  show "stop_at s = TSwap \<and> \<not> may s \<or> stop_at s = TJoin \<and> drain_at s \<noteq> DEnd \<or> stop_at s = TEnd"
    using n [of Stopper] by (cases "stop_at s") (auto simp: submission_step_def Stop_step_def split: if_splits)
qed

section \<open>Every schedule ends\<close>

text \<open>The statements a client has left, and the position of the other threads as numbers.\<close>

definition submits_left :: "submission \<Rightarrow> nat \<Rightarrow> nat" where
  "submits_left s p = 5 * length (todo s p)
     - (case client_at s p of SAssert \<Rightarrow> 0 | SLock \<Rightarrow> 1 | SPush \<Rightarrow> 2 | SUnlock \<Rightarrow> 3 | SSend \<Rightarrow> 4)"

primrec drain_rank :: "drain_pc \<Rightarrow> nat" where
  "drain_rank DWait = 0" | "drain_rank DLock = 6" | "drain_rank DSwap = 5" | "drain_rank DUnlock = 4"
| "drain_rank DDispatch = 3" | "drain_rank DStopTest = 2" | "drain_rank DClose = 1" | "drain_rank DEnd = 0"

primrec stop_rank :: "stop_pc \<Rightarrow> nat" where
  "stop_rank TSwap = 4" | "stop_rank TFlag = 3" | "stop_rank TSend = 2" | "stop_rank TJoin = 1" | "stop_rank TEnd = 0"

definition work_left :: "nat \<Rightarrow> submission \<Rightarrow> nat" where
  "work_left n s = 10 * (\<Sum>p<n. submits_left s p) + (if m_sent s then 7 else 0) + drain_rank (drain_at s)
     + length (batch s) + length (m_queue s) + 10 * stop_rank (stop_at s)"

lemma client_progress:
  assumes "Submit_step p s = Some (Inr s')"
  shows "Suc (submits_left s' p) = submits_left s p \<and> (\<forall>q. q \<noteq> p \<longrightarrow> submits_left s' q = submits_left s q)
    \<and> todo s p \<noteq> []"
  using assms by (cases rule: client_cases) (simp_all add: submits_left_def)

lemma sum_progress:
  fixes f g :: "nat \<Rightarrow> nat"
  assumes "Suc (g p) = f p" and "\<forall>q. q \<noteq> p \<longrightarrow> g q = f q" and "p < n"
  shows "Suc (\<Sum>q<n. g q) = (\<Sum>q<n. f q)"
proof -
  have "(\<Sum>q<n. f q) = f p + (\<Sum>q \<in> {..<n} - {p}. f q)" "(\<Sum>q<n. g q) = g p + (\<Sum>q \<in> {..<n} - {p}. g q)"
    using assms(3) by (simp_all add: sum.remove)
  moreover have "(\<Sum>q \<in> {..<n} - {p}. g q) = (\<Sum>q \<in> {..<n} - {p}. f q)" using assms(2) by (intro sum.cong) auto
  ultimately show ?thesis using assms(1) by simp
qed

lemma work_decreases:
  assumes k: "waking_ok s" and n: "\<And>p. n \<le> p \<Longrightarrow> todo s p = []" and "submission_step may a s = Some (Inr s')"
  shows "work_left n s' < work_left n s"
proof (cases a)
  case (Client p)
  then have c: "Submit_step p s = Some (Inr s')" using assms(3) by (simp add: submission_step_def)
  have "p < n" using client_progress [OF c] n [of p] by (cases "p < n") auto
  then have u: "Suc (\<Sum>q<n. submits_left s' q) = (\<Sum>q<n. submits_left s q)"
    using client_progress [OF c] by (intro sum_progress) auto
  show ?thesis using c by (cases rule: client_cases) (use u in \<open>simp_all add: work_left_def\<close>)
next
  case Loop_Thread
  then have d: "Drain_step s = Some (Inr s')" using assms(3) by (simp add: submission_step_def)
  have "submits_left s' = submits_left s" using d by (cases rule: drain_cases) (auto simp: submits_left_def fun_eq_iff)
  note u = this
  show ?thesis using d by (cases rule: drain_cases) (use k u in \<open>auto simp: work_left_def waking_ok_def\<close>)
next
  case Stopper
  then have d: "Stop_step may s = Some (Inr s')" using assms(3) by (simp add: submission_step_def)
  have "submits_left s' = submits_left s" using d by (cases rule: stop_cases) (auto simp: submits_left_def fun_eq_iff)
  note u = this
  show ?thesis using d by (cases rule: stop_cases) (use u in \<open>auto simp: work_left_def\<close>)
qed

lemma todo_idle: "submitting may w s \<Longrightarrow> w p = [] \<Longrightarrow> todo s p = []"
proof (induction rule: submitting.induct)
  case submitting_init
  then show ?case by (simp add: submission_init_def)
next
  case (submitting_step s a s')
  then have t: "todo s p = []" by simp
  show ?case
  proof (cases a)
    case (Client q)
    then have "Submit_step q s = Some (Inr s')" using submitting_step.hyps(2) by (simp add: submission_step_def)
    then show ?thesis by (cases rule: client_cases) (use t in auto)
  next
    case Loop_Thread
    then have "Drain_step s = Some (Inr s')" using submitting_step.hyps(2) by (simp add: submission_step_def)
    then show ?thesis by (cases rule: drain_cases) (use t in auto)
  next
    case Stopper
    then have "Stop_step may s = Some (Inr s')" using submitting_step.hyps(2) by (simp add: submission_step_def)
    then show ?thesis by (cases rule: stop_cases) (use t in auto)
  qed
qed

lemma schedule_bound:
  assumes "submitting may w s" and "\<And>p. n \<le> p \<Longrightarrow> w p = []" and "interleave may as s = Some (Inr s')"
  shows "length as + work_left n s' \<le> work_left n s"
  using assms
proof (induction as arbitrary: s)
  case Nil
  then show ?case by simp
next
  case (Cons a as)
  obtain s1 where s1: "submission_step may a s = Some (Inr s1)" "interleave may as s1 = Some (Inr s')"
    using Cons.prems(3) by (auto split: option.splits sum.splits)
  have "work_left n s1 < work_left n s"
    using work_decreases [OF submitting_ok(2) [OF Cons.prems(1)] _ s1(1)] todo_idle [OF Cons.prems(1) Cons.prems(2)] by blast
  moreover have "length as + work_left n s' \<le> work_left n s1"
    using Cons.IH [OF submitting_step [OF Cons.prems(1) s1(1)] Cons.prems(2) s1(2)] .
  ultimately show ?case by simp
qed

section \<open>Without a stop\<close>

lemma never_stopped: "submitting never w s \<Longrightarrow> stop_at s = TSwap"
proof (induction rule: submitting.induct)
  case submitting_init
  show ?case by (simp add: submission_init_def)
next
  case (submitting_step s a s')
  show ?case
  proof (cases a)
    case (Client q)
    then have "Submit_step q s = Some (Inr s')" using submitting_step.hyps(2) by (simp add: submission_step_def)
    then show ?thesis by (cases rule: client_cases) (use submitting_step.IH in auto)
  next
    case Loop_Thread
    then have "Drain_step s = Some (Inr s')" using submitting_step.hyps(2) by (simp add: submission_step_def)
    then show ?thesis by (cases rule: drain_cases) (use submitting_step.IH in auto)
  next
    case Stopper
    then show ?thesis using submitting_step.hyps(2) submitting_step.IH by (simp add: submission_step_def Stop_step_def)
  qed
qed

text \<open>A fault needs a stop that has begun; the async handle is closed by nothing else.\<close>

lemma fault_after_stop:
  assumes "stopping_ok s" and "submission_step may a s = Some (Inl f)"
  shows "stop_at s \<noteq> TSwap"
proof
  assume t: "stop_at s = TSwap"
  then have "m_open s" "m_running s" using assms(1) by (auto simp: stopping_ok_def)
  then have "Submit_step p s \<noteq> Some (Inl f)" for p
    by (cases "todo s p"; cases "client_at s p") (simp_all add: Submit_step_def send_async_def)
  moreover have "Drain_step s \<noteq> Some (Inl f)" by (cases "drain_at s") (simp_all add: Drain_step_def)
  moreover have "Stop_step may s \<noteq> Some (Inl f)" using t by (simp add: Stop_step_def)
  ultimately show False using assms(2) by (cases a) (simp_all add: submission_step_def)
qed

lemma flow_done:
  assumes "flow_ok w s" and "m_queue s = []" and "batch s = []" and "todo s p = []" and "client_at s p = SAssert"
  shows "own w p (dispatched s) = w p"
proof -
  have "flow s = dispatched s" "unpushed s p = []" using assms(2-5) by (simp_all add: flow_def unpushed_def)
  moreover have "own w p (flow s) @ unpushed s p = w p" using assms(1) by (simp add: flow_ok_def)
  ultimately show ?thesis by simp
qed

text \<open>
  C18. Nothing is lost between the threads. Whatever the interleaving of the clients with the
  loop thread, as long as the runtime is not stopped: what has been dispatched of a client's
  tasks is a prefix of its submissions, in their order and without repetition; nothing else
  is dispatched; no statement faults; and when no thread can move any more, every task that
  was submitted has been dispatched (the coalescing of wake-ups loses none).
\<close>

theorem submissions_dispatched:
  assumes "submitting never w s" and "separate w"
  shows "prefix (own w p (dispatched s)) (w p) \<and> set (dispatched s) \<subseteq> (\<Union>q. set (w q))
    \<and> submission_step never a s \<noteq> Some (Inl f)
    \<and> ((\<forall>b. submission_step never b s = None) \<longrightarrow> own w p (dispatched s) = w p)"
proof -
  note k = submitting_ok [OF assms(1)]
  have f: "flow_ok w s" by (rule k(4) [OF assms(2)])
  have "own w p (dispatched s) @ own w p (batch s @ m_queue s) @ unpushed s p = w p"
    using f by (simp add: flow_ok_def flow_def own_append)
  then have "prefix (own w p (dispatched s)) (w p)" by (metis prefixI)
  moreover have "set (dispatched s) \<subseteq> (\<Union>q. set (w q))" using f by (auto simp: flow_ok_def flow_def)
  moreover have "submission_step never a s \<noteq> Some (Inl f)"
    using fault_after_stop [OF k(3)] never_stopped [OF assms(1)] by blast
  moreover have "own w p (dispatched s) = w p" if n: "\<forall>b. submission_step never b s = None"
  proof -
    have t: "todo s q = []" for q using stuck(1) [OF k(1), of never] n by blast
    then have c: "client_at s q = SAssert" for q using k(1) by (simp add: locking_ok_def)
    have d: "drain_at s = DWait \<and> \<not> m_sent s"
      using stuck(2) [OF k(1), of never] n k(3) never_stopped [OF assms(1)] by (auto simp: stopping_ok_def)
    then have "m_open s" using k(3) by (simp add: stopping_ok_def)
    moreover have "pushing s = {}" using c by (simp add: pushing_def)
    ultimately have "m_queue s = []" "batch s = []" using k(2) d by (auto simp: waking_ok_def)
    then show ?thesis by (rule flow_done [OF f _ _ t c])
  qed
  ultimately show ?thesis by blast
qed

text \<open>Two clients, whose submissions are coalesced into one wake-up.\<close>

definition two_clients :: "nat \<Rightarrow> addr list" where
  "two_clients = (\<lambda>p. [])(0 := [16, 32], 1 := [48])"

lemma separate_two: "separate two_clients"
  by (auto simp: separate_def two_clients_def)

definition coalesced :: "agent list" where
  "coalesced = replicate 5 (Client 0) @ replicate 3 (Client 1) @ [Loop_Thread] @ replicate 2 (Client 1)
     @ replicate 5 Loop_Thread"

lemmas run_defs = submission_step_def submission_steps submission_init_def two_clients_def

theorem submissions_dispatched_witness:
  "\<exists>s. interleave never coalesced (submission_init False two_clients) = Some (Inr s) \<and> dispatched s = [16, 48]
    \<and> prefix (own two_clients 0 (dispatched s)) [16, 32]"
proof -
  have e: "\<exists>s. interleave never coalesced (submission_init False two_clients) = Some (Inr s) \<and> dispatched s = [16, 48]"
    by (simp add: coalesced_def numeral_eq_Suc run_defs)
  then obtain s where s: "interleave never coalesced (submission_init False two_clients) = Some (Inr s)" "dispatched s = [16, 48]"
    by blast
  have "two_clients 0 = [16, 32]" by (simp add: two_clients_def)
  then show ?thesis using submissions_dispatched [OF interleave_submitting [OF submitting_init s(1)] separate_two, of 0] s
    by auto
qed

text \<open>
  C26. Every schedule ends. With \<open>n\<close> clients, whoever is scheduled and whether or not the
  runtime is stopped on the way, the threads together execute at most 50 statements for
  each task, and 40 more: no livelock between the wake-ups, the batches and the submissions.
\<close>

theorem submission_terminates:
  assumes "\<forall>p. n \<le> p \<longrightarrow> w p = []" and "interleave may as (submission_init nd w) = Some (Inr s)"
  shows "length as \<le> 50 * (\<Sum>p<n. length (w p)) + 40"
proof -
  have "work_left n (submission_init nd w) = 50 * (\<Sum>p<n. length (w p)) + 40"
    by (simp add: work_left_def submission_init_def submits_left_def flip: sum_distrib_left)
  then show ?thesis using schedule_bound [OF submitting_init _ assms(2), of n] assms(1) by simp
qed

theorem submission_terminates_witness:
  "interleave never coalesced (submission_init False two_clients) \<noteq> None \<and> length coalesced \<le> 190"
proof -
  have e: "\<exists>s. interleave never coalesced (submission_init False two_clients) = Some (Inr s)"
    by (simp add: coalesced_def numeral_eq_Suc run_defs)
  then obtain s where s: "interleave never coalesced (submission_init False two_clients) = Some (Inr s)" ..
  have "\<forall>p. 2 \<le> p \<longrightarrow> two_clients p = []" by (simp add: two_clients_def)
  from submission_terminates [OF this s] s show ?thesis by (simp add: two_clients_def numeral_2_eq_2)
qed

section \<open>Stopping\<close>

text \<open>
  \<open>returned\<close>: every call of \<open>Submit\<close> has returned. \<open>quiet\<close>: moreover the loop thread waits in
  \<open>uv_run\<close> with no wake-up pending.
\<close>

definition returned :: "submission \<Rightarrow> bool" where
  "returned s \<longleftrightarrow> (\<forall>p. todo s p = [])"

definition quiet :: "submission \<Rightarrow> bool" where
  "quiet s \<longleftrightarrow> returned s \<and> drain_at s = DWait \<and> \<not> m_sent s"

definition quiet_ok :: "submission \<Rightarrow> bool" where
  "quiet_ok s \<longleftrightarrow> (stop_at s \<noteq> TSwap \<longrightarrow> returned s \<and> m_queue s = [] \<and> batch s = []
     \<and> (stop_at s \<in> {TFlag, TSend} \<longrightarrow> drain_at s = DWait \<and> \<not> m_sent s))"

lemma returned_clients: "returned s \<Longrightarrow> Submit_step p s = None"
  by (simp add: returned_def Submit_step_def)

lemma quiet_empty:
  assumes "quiet s" and "locking_ok s" and "waking_ok s" and "stopping_ok s"
  shows "m_queue s = []" and "batch s = []"
proof -
  have "client_at s p = SAssert" for p using assms(1,2) by (simp add: quiet_def returned_def locking_ok_def)
  then have "pushing s = {}" by (simp add: pushing_def)
  then show "m_queue s = []" "batch s = []" using assms(1,3,4) by (auto simp: quiet_def waking_ok_def stopping_ok_def)
qed

lemma quiet_step:
  assumes q: "quiet_ok s" and k: "locking_ok s" "waking_ok s" "stopping_ok s" and m: "\<And>s. may s \<Longrightarrow> quiet s"
    and "submission_step may a s = Some (Inr s')"
  shows "quiet_ok s'"
proof (cases a)
  case (Client p)
  then have c: "Submit_step p s = Some (Inr s')" using assms(6) by (simp add: submission_step_def)
  then have t: "stop_at s = TSwap" using q returned_clients [of s p] by (auto simp: quiet_ok_def)
  show ?thesis using c by (cases rule: client_cases) (use t in \<open>simp_all add: quiet_ok_def\<close>)
next
  case Loop_Thread
  then have "Drain_step s = Some (Inr s')" using assms(6) by (simp add: submission_step_def)
  then show ?thesis by (cases rule: drain_cases) (use q in \<open>auto simp: quiet_ok_def returned_def\<close>)
next
  case Stopper
  then have "Stop_step may s = Some (Inr s')" using assms(6) by (simp add: submission_step_def)
  then show ?thesis
  proof (cases rule: stop_cases)
    case swap
    note qs = m [OF swap(2)]
    then show ?thesis using quiet_empty [OF qs k] swap(4) by (simp add: quiet_ok_def quiet_def returned_def)
  qed (use q k(3) in \<open>auto simp: quiet_ok_def returned_def stopping_ok_def\<close>)
qed

lemma submitting_quiet:
  assumes "submitting may w s" and "\<And>s. may s \<Longrightarrow> quiet s"
  shows "quiet_ok s"
  using assms
proof (induction rule: submitting.induct)
  case submitting_init
  show ?case by (simp add: quiet_ok_def submission_init_def)
next
  case (submitting_step s a s')
  then show ?case using quiet_step [OF submitting_step.IH submitting_ok(1-3) [OF submitting_step.hyps(1)]] by blast
qed

text \<open>
  C20. A quiet stop is a clean one. If \<open>Stop\<close> is called only when every \<open>Submit\<close> has returned and
  the loop thread waits with no wake-up pending, then in every interleaving nothing faults,
  \<open>Stop\<close> cannot block for ever, and when it has returned every task submitted was dispatched.
\<close>

theorem quiet_stop_drains:
  assumes "submitting may w s" and "separate w" and "\<forall>s. may s \<longrightarrow> quiet s"
  shows "submission_step may a s \<noteq> Some (Inl f)
    \<and> ((\<forall>b. submission_step may b s = None) \<longrightarrow> stop_at s = TEnd \<or> stop_at s = TSwap \<and> \<not> may s)
    \<and> (stop_at s = TEnd \<longrightarrow> m_queue s = [] \<and> own w p (dispatched s) = w p)"
proof -
  note k = submitting_ok [OF assms(1)]
  have q: "quiet_ok s" using submitting_quiet [OF assms(1)] assms(3) by blast
  have "submission_step may a s \<noteq> Some (Inl f)"
  proof
    assume e: "submission_step may a s = Some (Inl f)"
    have t: "stop_at s \<noteq> TSwap" by (rule fault_after_stop [OF k(3) e])
    then have r: "returned s" and d: "stop_at s = TSend \<longrightarrow> drain_at s = DWait" using q by (auto simp: quiet_ok_def)
    have "Stop_step may s \<noteq> Some (Inl f)" using t d k(3)
      by (cases "stop_at s") (auto simp: Stop_step_def send_async_def stopping_ok_def)
    moreover have "Drain_step s \<noteq> Some (Inl f)" by (cases "drain_at s") (simp_all add: Drain_step_def)
    ultimately show False using e returned_clients [OF r] by (cases a) (simp_all add: submission_step_def)
  qed
  moreover have "stop_at s = TEnd \<or> stop_at s = TSwap \<and> \<not> may s" if n: "\<forall>b. submission_step may b s = None"
    using stuck(2,3) [OF k(1), of may] n k(3) by (auto simp: stopping_ok_def)
  moreover have "m_queue s = [] \<and> own w p (dispatched s) = w p" if e: "stop_at s = TEnd"
  proof -
    have e': "m_queue s = []" "batch s = []" "todo s p = []" using q e by (auto simp: quiet_ok_def returned_def)
    moreover have "client_at s p = SAssert" using e'(3) k(1) by (simp add: locking_ok_def)
    ultimately show ?thesis using flow_done [OF k(4) [OF assms(2)]] by blast
  qed
  ultimately show ?thesis by blast
qed

definition one_client :: "nat \<Rightarrow> addr list" where
  "one_client = (\<lambda>p. [])(0 := [16, 32])"

lemma separate_one: "separate one_client"
  by (auto simp: separate_def one_client_def)

definition quiet_stop :: "agent list" where
  "quiet_stop = replicate 10 (Client 0) @ replicate 8 Loop_Thread @ replicate 3 Stopper @ replicate 7 Loop_Thread @ [Stopper]"

theorem quiet_stop_drains_witness:
  "\<exists>s. interleave quiet quiet_stop (submission_init False one_client) = Some (Inr s) \<and> stop_at s = TEnd
    \<and> own one_client 0 (dispatched s) = [16, 32]"
proof -
  have e: "\<exists>s. interleave quiet quiet_stop (submission_init False one_client) = Some (Inr s) \<and> stop_at s = TEnd"
    by (simp add: quiet_stop_def numeral_eq_Suc submission_step_def submission_steps submission_init_def one_client_def
        quiet_def returned_def)
  then obtain s where s: "interleave quiet quiet_stop (submission_init False one_client) = Some (Inr s)" "stop_at s = TEnd" by blast
  have "one_client 0 = [16, 32]" by (simp add: one_client_def)
  then show ?thesis using quiet_stop_drains [OF interleave_submitting [OF submitting_init s(1)] separate_one, where p = 0] s by auto
qed

text \<open>
  C34. Any other stop is not. Even if every \<open>Submit\<close> has returned before \<open>Stop\<close> is called, (1) a
  task can be stranded: it is submitted while the loop thread is about to test the stop flag
  after an earlier batch, the loop thread sees the flag and closes the async handle, and
  \<open>Stop\<close> returns with the task in the queue; and (2) \<open>Stop\<close> itself can signal the async handle
  after the loop thread has closed it. If \<open>Stop\<close> overlaps with a \<open>Submit\<close>, (3) the assertion of
  \<open>Submit\<close> does not keep it from signalling the closed handle. Without a stop none of this
  happens.
\<close>

definition strand :: "agent list" where
  "strand = replicate 5 (Client 0) @ replicate 6 Loop_Thread @ replicate 5 (Client 0) @ replicate 3 Stopper
     @ replicate 2 Loop_Thread @ [Stopper]"

definition late_send :: "agent list" where
  "late_send = replicate 10 (Client 0) @ replicate 7 Loop_Thread @ replicate 2 Stopper @ replicate 2 Loop_Thread @ [Stopper]"

definition overlap :: "agent list" where
  "overlap = [Client 0] @ replicate 3 Stopper @ replicate 7 Loop_Thread @ replicate 4 (Client 0)"

definition after_stop :: "agent list" where
  "after_stop = replicate 3 Stopper @ replicate 7 Loop_Thread @ [Stopper] @ replicate 5 (Client 0)"

text \<open>
  C34. Any other stop is not. With or without \<open>NDEBUG\<close>, even if every \<open>Submit\<close> has returned
  before \<open>Stop\<close> is called, (1) a task can be stranded: it is submitted while the loop thread is
  about to test the stop flag after an earlier batch, the loop thread sees the flag and closes
  the async handle, and \<open>Stop\<close> returns with the task in the queue; and (2) \<open>Stop\<close> itself can
  signal the async handle after the loop thread has closed it. If \<open>Stop\<close> overlaps with a
  \<open>Submit\<close>, (3) the assertion of \<open>Submit\<close> does not keep it from signalling the closed handle.
  (4) A \<open>Submit\<close> after \<open>Stop\<close> has returned fails its assertion, and signals the closed handle
  in a build with \<open>NDEBUG\<close>. Without a stop nothing faults.
\<close>

theorem stop_races:
  "(\<forall>nd. \<exists>s. interleave returned strand (submission_init nd one_client) = Some (Inr s)
      \<and> stop_at s = TEnd \<and> m_queue s = [32] \<and> dispatched s = [16])
   \<and> (\<forall>nd. interleave returned late_send (submission_init nd one_client) = Some (Inl BadHandle))
   \<and> (\<forall>nd. interleave (\<lambda>s. True) overlap (submission_init nd one_client) = Some (Inl BadHandle))
   \<and> (\<forall>nd. interleave (\<lambda>s. True) after_stop (submission_init nd one_client)
        = Some (Inl (if nd then BadHandle else AssertionFailed)))
   \<and> (\<forall>may w s a f. submitting may w s \<longrightarrow> submission_step may a s = Some (Inl f) \<longrightarrow> stop_at s \<noteq> TSwap)"
proof (intro conjI allI impI)
  note d = numeral_eq_Suc submission_step_def submission_steps submission_init_def one_client_def returned_def
  show "\<exists>s. interleave returned strand (submission_init nd one_client) = Some (Inr s)
      \<and> stop_at s = TEnd \<and> m_queue s = [32] \<and> dispatched s = [16]" for nd by (simp add: strand_def d)
  show "interleave returned late_send (submission_init nd one_client) = Some (Inl BadHandle)" for nd
    by (simp add: late_send_def d)
  show "interleave (\<lambda>s. True) overlap (submission_init nd one_client) = Some (Inl BadHandle)" for nd
    by (simp add: overlap_def d)
  show "interleave (\<lambda>s. True) after_stop (submission_init nd one_client)
      = Some (Inl (if nd then BadHandle else AssertionFailed))" for nd
    by (cases nd) (simp_all add: after_stop_def d)
  fix may w s a f assume "submitting may w s" "submission_step may a s = Some (Inl f)"
  then show "stop_at s \<noteq> TSwap" using fault_after_stop submitting_ok(3) by blast
qed

theorem stop_races_witness: "interleave returned late_send (submission_init True one_client) = Some (Inl BadHandle)"
  using stop_races by blast

end
