(* ===== verification/Atomicity.thy ===== *)
theory Atomicity
  imports Submission Scenario
begin

text \<open>
  The theories about the whole runtime take \<open>Submit\<close> and \<open>Drain\<close> as single steps; \<open>Submission\<close>
  has them statement by statement. Both are shown here to implement one abstract machine, in
  which a client posts a task and the loop thread empties the box: the interleaved
  statements reach exactly the states of that machine (seen through \<open>view\<close>), and a run of the
  whole runtime is a run of it with one client. So what holds of the atomic steps holds of
  the threads, and every run dispatches tasks in the order of their submission.
\<close>

section \<open>The atomic machine\<close>

text \<open>The tasks posted and not yet taken, those taken, and what each client still has to post.\<close>

record post_box =
  box :: "addr list"
  out :: "addr list"
  left :: "nat \<Rightarrow> addr list"

definition post_box_init :: "(nat \<Rightarrow> addr list) \<Rightarrow> post_box" where
  "post_box_init w = \<lparr>box = [], out = [], left = w\<rparr>"

definition Submit_atomic :: "nat \<Rightarrow> post_box \<Rightarrow> post_box option" where
  "Submit_atomic p b = (case left b p of [] \<Rightarrow> None
     | t # ts \<Rightarrow> Some (b\<lparr>box := box b @ [t], left := (left b)(p := ts)\<rparr>))"

definition Drain_atomic :: "post_box \<Rightarrow> post_box" where
  "Drain_atomic b = b\<lparr>box := [], out := out b @ box b\<rparr>"

inductive atomic :: "(nat \<Rightarrow> addr list) \<Rightarrow> post_box \<Rightarrow> bool" for w where
  atomic_init: "atomic w (post_box_init w)"
| atomic_submit: "atomic w b \<Longrightarrow> Submit_atomic p b = Some b' \<Longrightarrow> atomic w b'"
| atomic_drain: "atomic w b \<Longrightarrow> atomic w (Drain_atomic b)"

text \<open>With one client the box is a queue: what was taken, what is in it and what is left is the work.\<close>

definition alone :: "addr list \<Rightarrow> nat \<Rightarrow> addr list" where
  "alone ts = (\<lambda>p. [])(0 := ts)"

lemma atomic_alone: "atomic (alone ts) b \<Longrightarrow> out b @ box b @ left b 0 = ts \<and> (\<forall>p. p \<noteq> 0 \<longrightarrow> left b p = [])"
proof (induction rule: atomic.induct)
  case atomic_init
  show ?case by (simp add: post_box_init_def alone_def)
next
  case (atomic_submit b p b')
  then show ?case by (cases "p = 0") (auto simp: Submit_atomic_def split: list.splits)
next
  case (atomic_drain b)
  then show ?case by (simp add: Drain_atomic_def)
qed

section \<open>Implementations\<close>

text \<open>An implementation: every step is invisible, or one of the machine's.\<close>

locale implements_box =
  fixes ok :: "'s \<Rightarrow> bool" and step :: "'s \<Rightarrow> 's \<Rightarrow> bool" and abs :: "'s \<Rightarrow> post_box"
  assumes ok_step: "ok s \<Longrightarrow> step s s' \<Longrightarrow> ok s'"
    and sim_step: "ok s \<Longrightarrow> step s s' \<Longrightarrow>
      abs s' = abs s \<or> (\<exists>p. Submit_atomic p (abs s) = Some (abs s')) \<or> abs s' = Drain_atomic (abs s)"
begin

lemma sim_steps: "step\<^sup>*\<^sup>* s s' \<Longrightarrow> ok s \<Longrightarrow> atomic w (abs s) \<Longrightarrow> ok s' \<and> atomic w (abs s')"
proof (induction rule: rtranclp_induct)
  case (step u v)
  then show ?case using ok_step [of u v] sim_step [of u v] by (auto intro: atomic_submit atomic_drain)
qed simp

end

section \<open>The interleaved statements\<close>

definition view :: "submission \<Rightarrow> post_box" where
  "view s = \<lparr>box = m_queue s, out = dispatched s @ batch s, left = unpushed s\<rparr>"

definition some_step :: "submission \<Rightarrow> submission \<Rightarrow> bool" where
  "some_step s s' \<longleftrightarrow> (\<exists>may a. submission_step may a s = Some (Inr s'))"

text \<open>A \<open>Submit\<close> takes effect when it pushes its task, a \<open>Drain\<close> when it swaps the vector.\<close>

lemma view_client:
  assumes "Submit_step p s = Some (Inr s')"
  shows "view s' = view s \<or> Submit_atomic p (view s) = Some (view s')"
  using assms
proof (cases rule: client_cases)
  case (push t ts)
  have "unpushed s' = (unpushed s)(p := ts)" "unpushed s p = t # ts" using push by (auto simp: unpushed_def)
  then show ?thesis using push by (simp add: view_def Submit_atomic_def)
qed (auto simp: view_def unpushed_def)

lemma view_drain:
  assumes "Drain_step s = Some (Inr s')" and "waking_ok s"
  shows "view s' = view s \<or> view s' = Drain_atomic (view s)"
  using assms(1)
proof (cases rule: drain_cases)
  case swap
  then have "batch s = []" using assms(2) by (auto simp: waking_ok_def)
  moreover have "unpushed s' = unpushed s" using swap by (simp add: unpushed_def fun_eq_iff)
  ultimately show ?thesis using swap by (simp add: view_def Drain_atomic_def)
qed (auto simp: view_def unpushed_def)

lemma view_stop: "Stop_step may s = Some (Inr s') \<Longrightarrow> view s' = view s"
  by (erule stop_cases) (auto simp: view_def unpushed_def)

interpretation threads: implements_box waking_ok some_step view
proof
  fix s s' assume ok: "waking_ok s" and "some_step s s'"
  then obtain may a where st: "submission_step may a s = Some (Inr s')" by (auto simp: some_step_def)
  show "waking_ok s'" using waking_step [OF ok st] .
  show "view s' = view s \<or> (\<exists>p. Submit_atomic p (view s) = Some (view s')) \<or> view s' = Drain_atomic (view s)"
    using st view_client view_drain [OF _ ok] view_stop by (cases a) (auto simp: submission_step_def)
qed

lemma submitting_steps: "submitting may w s \<Longrightarrow> \<exists>nd. some_step\<^sup>*\<^sup>* (submission_init nd w) s"
proof (induction rule: submitting.induct)
  case (submitting_step s a s')
  then show ?case unfolding some_step_def by (blast intro: rtranclp.rtrancl_into_rtrancl)
qed blast

lemma view_init: "view (submission_init nd w) = post_box_init w"
  by (auto simp: view_def submission_init_def post_box_init_def unpushed_def)

lemma threads_atomic: "submitting may w s \<Longrightarrow> atomic w (view s)"
  by (drule submitting_steps) (metis threads.sim_steps submission_init_ok(2) view_init atomic_init)

subsection \<open>Every state of the machine is one of the threads\<close>

text \<open>All threads between two calls.\<close>

definition at_rest :: "submission \<Rightarrow> bool" where
  "at_rest s \<longleftrightarrow> m_owner s = None \<and> m_open s \<and> m_running s \<and> \<not> m_stopping s \<and> client_at s = (\<lambda>p. SAssert)
     \<and> drain_at s = DWait \<and> batch s = [] \<and> (m_queue s \<noteq> [] \<longrightarrow> m_sent s)"

lemma interleave_append:
  "interleave may (as @ bs) s = (case interleave may as s of
     None \<Rightarrow> None | Some (Inl f) \<Rightarrow> Some (Inl f) | Some (Inr s') \<Rightarrow> interleave may bs s')"
  by (induction as arbitrary: s) (auto split: option.split sum.split)

lemma run_submit:
  assumes "at_rest s" and "todo s p = t # ts"
  shows "interleave never (replicate 5 (Client p)) s
    = Some (Inr (s\<lparr>m_queue := m_queue s @ [t], m_sent := True, todo := (todo s)(p := ts)\<rparr>))"
  using assms by (simp add: numeral_eq_Suc submission_step_def submission_steps at_rest_def fun_upd_def cong: if_cong)

lemma run_dispatch:
  assumes "drain_at s = DDispatch" and "batch s = ts"
  shows "interleave never (replicate (length ts) Loop_Thread) s = Some (Inr (s\<lparr>batch := [], dispatched := dispatched s @ ts\<rparr>))"
  using assms
proof (induction ts arbitrary: s)
  case (Cons t ts)
  show ?case using Cons.IH [of "s\<lparr>batch := ts, dispatched := dispatched s @ [t]\<rparr>"] Cons.prems
    by (simp add: submission_step_def Drain_step_def)
qed simp

lemma run_drain:
  assumes "at_rest s" and "m_queue s \<noteq> []"
  shows "interleave never (replicate 4 Loop_Thread @ replicate (length (m_queue s)) Loop_Thread @ replicate 2 Loop_Thread) s
    = Some (Inr (s\<lparr>m_queue := [], m_sent := False, dispatched := dispatched s @ m_queue s\<rparr>))"
proof -
  let ?s1 = "s\<lparr>m_sent := False, m_queue := [], batch := m_queue s, drain_at := DDispatch\<rparr>"
  let ?s2 = "?s1\<lparr>batch := [], dispatched := dispatched s @ m_queue s\<rparr>"
  have "interleave never (replicate 4 Loop_Thread) s = Some (Inr ?s1)"
    using assms by (simp add: numeral_eq_Suc submission_step_def submission_steps at_rest_def)
  moreover have "interleave never (replicate (length (m_queue s)) Loop_Thread) ?s1 = Some (Inr ?s2)"
    using run_dispatch [of ?s1 "m_queue s"] by simp
  moreover have "interleave never (replicate 2 Loop_Thread) ?s2
      = Some (Inr (s\<lparr>m_queue := [], m_sent := False, dispatched := dispatched s @ m_queue s\<rparr>))"
    using assms by (simp add: numeral_eq_Suc submission_step_def submission_steps at_rest_def)
  ultimately show ?thesis by (simp add: interleave_append)
qed

lemma view_rest: "at_rest s \<Longrightarrow> view s = \<lparr>box = m_queue s, out = dispatched s, left = todo s\<rparr>"
  by (simp add: view_def at_rest_def unpushed_def fun_eq_iff)

lemma atomic_threads: "atomic w b \<Longrightarrow> \<exists>s. submitting never w s \<and> at_rest s \<and> view s = b"
proof (induction rule: atomic.induct)
  case atomic_init
  have "at_rest (submission_init False w)" by (simp add: at_rest_def submission_init_def)
  then show ?case using submitting_init view_init by blast
next
  case (atomic_submit b p b')
  then obtain s where s: "submitting never w s" "at_rest s" "view s = b" by blast
  obtain t ts where t: "todo s p = t # ts" "b' = b\<lparr>box := box b @ [t], left := (left b)(p := ts)\<rparr>"
    using atomic_submit(2) view_rest [OF s(2)] s(3) by (auto simp: Submit_atomic_def split: list.splits)
  let ?s = "s\<lparr>m_queue := m_queue s @ [t], m_sent := True, todo := (todo s)(p := ts)\<rparr>"
  have r: "at_rest ?s" using s(2) by (simp add: at_rest_def)
  have "view ?s = b'" using view_rest [OF r] view_rest [OF s(2)] s(3) t(2) by auto
  then show ?case using interleave_submitting [OF s(1) run_submit [OF s(2) t(1)]] r by blast
next
  case (atomic_drain b)
  then obtain s where s: "submitting never w s" "at_rest s" "view s = b" by blast
  show ?case
  proof (cases "m_queue s = []")
    case True
    then have "Drain_atomic b = b" using view_rest [OF s(2)] s(3) by (auto simp: Drain_atomic_def)
    then show ?thesis using s by auto
  next
    case False
    let ?s = "s\<lparr>m_queue := [], m_sent := False, dispatched := dispatched s @ m_queue s\<rparr>"
    have r: "at_rest ?s" using s(2) by (simp add: at_rest_def)
    have "view ?s = Drain_atomic b" using view_rest [OF r] view_rest [OF s(2)] s(3) by (auto simp: Drain_atomic_def)
    then show ?thesis using interleave_submitting [OF s(1) run_drain [OF s(2) False]] r by blast
  qed
qed

section \<open>The whole runtime\<close>

text \<open>What an action submits, and what the loop of \<open>Drain\<close> dispatches in a wake-up.\<close>

fun submitted_by :: "action \<Rightarrow> addr list" where
  "submitted_by (SubmitTask env op cq f) = [new_addr env 0]"
| "submitted_by (SubmitPinned env op cq bv start n f) = [new_addr env 0]"
| "submitted_by _ = []"

text \<open>The tasks \<open>dispatch_all\<close> hands to \<open>Dispatch\<close>, in order, up to a fault.\<close>

fun dispatch_trace :: "(nat \<Rightarrow> uv_env) \<Rightarrow> addr list \<Rightarrow> runtime \<Rightarrow> addr list" where
  "dispatch_trace envs [] s = []"
| "dispatch_trace envs (t # ts) s = t # (case Dispatch (envs 0) t s of
     Inl f \<Rightarrow> [] | Inr s' \<Rightarrow> dispatch_trace (\<lambda>i. envs (Suc i)) ts s')"

fun taken_by :: "action \<Rightarrow> runtime \<Rightarrow> addr list" where
  "taken_by (Async envs) s = dispatch_trace envs (queue s) (s\<lparr>async_sent := False, queue := []\<rparr>)"
| "taken_by _ s = []"

definition submitted :: "action list \<Rightarrow> addr list" where
  "submitted as = concat (List.map submitted_by as)"

fun taken :: "action list \<Rightarrow> runtime \<Rightarrow> addr list" where
  "taken [] s = []"
| "taken (a # as) s = taken_by a s @ (case exec a s of Inl f \<Rightarrow> [] | Inr s' \<Rightarrow> taken as s')"

lemma dispatch_trace_all: "dispatch_all envs ts s = Inr s' \<Longrightarrow> dispatch_trace envs ts s = ts"
  by (induction envs ts s rule: dispatch_trace.induct) (auto simp: sbind_eq_Inr)

text \<open>A wake-up that runs without a fault dispatches the whole queue.\<close>

lemma taken_async:
  assumes "exec (Async envs) s = Inr s'"
  shows "taken_by (Async envs) s = queue s"
proof -
  have "\<exists>s1. dispatch_all envs (queue s) (s\<lparr>async_sent := False, queue := []\<rparr>) = Inr s1"
    using assms by (auto simp: OnAsync_def Drain_def sbind_eq_Inr)
  then show ?thesis by (auto dest: dispatch_trace_all)
qed

lemma Async_queue:
  assumes "inv s" and "allowed (Async envs) s" and "exec (Async envs) s = Inr s'"
  shows "queue s' = []"
  by (rule Async_sim(2) [OF assms])

lemma Signal_queue:
  assumes i: "inv s" and a: "allowed (Signal env n) s" and e: "exec (Signal env n) s = Inr s'"
  shows "queue s' = queue s"
proof (cases "shutdown_signaled s \<or> listeners s = []")
  case True
  then show ?thesis using e OnSignal_exit [OF True, of env n] by auto
next
  case False
  then show ?thesis using OnSignal_graceful [OF invD(1,2) [OF i], of env n] a e by (auto simp: same_control_def)
qed

lemma Event_queue:
  assumes "inv s" and "allowed (Event ev) s" and "exec (Event ev) s = Inr s'"
  shows "queue s' = queue s"
  using fire_ok [OF invD(1-3) [OF assms(1)], of ev] assms(2,3) by (auto simp: event_ok_def same_control_def)

lemma Submit_queue: "Submit env t s = Inr s' \<Longrightarrow> queue s' = queue s @ [t]"
  by (auto simp: Submit_def uv_async_send_def split: if_splits)

lemma Retain_queue: "Retain q s = Inr s' \<Longrightarrow> queue s' = queue s"
  by (cases "h_cqs s q") (auto simp: Retain_def)

lemma new_task_queue: "new_task env op cq s = Inr s' \<Longrightarrow> queue s' = queue s"
  by (auto simp: new_task_def Let_def Counted_ctor_def dest!: Retain_queue split: if_splits)

lemma fill_submit_queue:
  "fill_submit env f m = Inr (t, s') \<Longrightarrow> \<exists>s1. m = Inr s1 \<and> queue s' = queue s1 @ [new_addr env 0]"
  by (cases m; cases "h_tasks (projr m) (new_addr env 0)")
    (auto simp: fill_submit_def Submit_handle_def sbind_def put_task_def dest!: Submit_queue split: sum.splits)

lemma new_pinned_task_queue: "new_pinned_task env op cq bv start n s = Inr s' \<Longrightarrow> queue s' = queue s"
  by (cases "new_task env op cq s"; cases "h_tasks (projr (new_task env op cq s)) (new_addr env 0)")
    (auto simp: new_pinned_task_def put_task_def dest!: new_task_queue)

lemma quiet_queue:
  "rt_task_free t s = Inr s' \<Longrightarrow> queue s' = queue s"
  "Release q s = Inr s' \<Longrightarrow> queue s' = queue s"
  "WaitOne q s = Inr (r, s') \<Longrightarrow> queue s' = queue s"
  "TryPop q s = Inr (t, s') \<Longrightarrow> queue s' = queue s"
  "queue (Start s) = queue s"
  "Stop s = Inr s' \<Longrightarrow> queue s' = queue s"
  subgoal by (cases "h_tasks s t") (auto simp: rt_task_free_def Let_def Counted_dtor_def)
  subgoal by (cases "h_cqs s q") (auto simp: Release_def Counted_dtor_def split: if_splits)
  subgoal by (cases "h_cqs s q") (auto simp: WaitOne_def split: option.splits)
  subgoal by (cases "h_cqs s q") (auto simp: TryPop_def split: option.splits)
  subgoal by (simp add: Start_def Let_def)
  subgoal by (auto simp: Stop_def uv_async_send_def split: if_splits)
  done

lemma exec_queue:
  assumes "inv s" and "allowed a s" and "exec a s = Inr s'"
  shows "queue s @ submitted_by a = taken_by a s @ queue s'"
proof (cases a)
  case (Event ev)
  then show ?thesis using Event_queue [of s ev s'] assms by simp
next
  case (Async envs)
  then show ?thesis using Async_queue [of s envs s'] taken_async [of envs s s'] assms
    by (simp del: exec.simps taken_by.simps(1))
next
  case (Signal env n)
  then show ?thesis using Signal_queue [of s env n s'] assms by simp
next
  case (SubmitTask env op cq f)
  then show ?thesis using assms(3) by (auto simp: sbind_eq_Inr dest!: fill_submit_queue new_task_queue)
next
  case (SubmitPinned env op cq bv start n f)
  then show ?thesis using assms(3) by (auto simp: sbind_eq_Inr dest!: fill_submit_queue new_pinned_task_queue)
qed (use assms(3) in \<open>auto simp: sbind_eq_Inr OnShutdownTimer_def rt_runtime_start_def rt_runtime_stop_def rt_cq_create_def
    Counted_ctor_def rt_runtime_exit_on_signal_def ExitOnSignal_def rt_shutdown_timeout_def SetShutdownTimeout_def
    rt_cq_free_def rt_cq_wait_def rt_cq_try_pop_def quiet_queue(5) dest: quiet_queue(1-4,6)\<close>)

text \<open>A state of the runtime, what was taken out of its queue so far, and what will be submitted.\<close>

definition runtime_view :: "runtime \<times> addr list \<times> addr list \<Rightarrow> post_box" where
  "runtime_view x = (case x of (s, os, ls) \<Rightarrow> \<lparr>box = queue s, out = os, left = alone ls\<rparr>)"

definition runtime_step :: "runtime \<times> addr list \<times> addr list \<Rightarrow> runtime \<times> addr list \<times> addr list \<Rightarrow> bool" where
  "runtime_step x x' = (case (x, x') of ((s, os, ls), (s', os', ls')) \<Rightarrow>
     \<exists>a. exit_code s = None \<and> allowed a s \<and> exec a s = Inr s' \<and> os' = os @ taken_by a s \<and> ls = submitted_by a @ ls')"

lemma submitted_or_taken:
  assumes "exec a s = Inr s'"
  shows "submitted_by a = [] \<and> (taken_by a s = [] \<or> taken_by a s = queue s) \<or> (\<exists>t. submitted_by a = [t]) \<and> taken_by a s = []"
  using assms taken_async [of _ s s'] by (cases a) (simp_all del: exec.simps taken_by.simps(1))

interpretation whole: implements_box "\<lambda>x. reachable (fst x)" runtime_step runtime_view
proof
  fix x x' assume ok: "reachable (fst x)" and st: "runtime_step x x'"
  obtain s os ls s' os' ls' where x: "x = (s, os, ls)" "x' = (s', os', ls')" by (cases x; cases x') auto
  obtain a where a: "exit_code s = None" "allowed a s" "exec a s = Inr s'" "os' = os @ taken_by a s" "ls = submitted_by a @ ls'"
    using st by (auto simp: runtime_step_def x)
  have r: "reachable s" using ok by (simp add: x)
  show "reachable (fst x')" using reach_step [OF r a(1-3)] by (simp add: x)
  have q: "queue s @ submitted_by a = taken_by a s @ queue s'" by (rule exec_queue [OF reachable_inv [OF r] a(2,3)])
  have upd: "(alone (t # ls'))(0 := ls') = alone ls'" for t by (simp add: alone_def)
  show "runtime_view x' = runtime_view x \<or> (\<exists>p. Submit_atomic p (runtime_view x) = Some (runtime_view x'))
      \<or> runtime_view x' = Drain_atomic (runtime_view x)"
    using submitted_or_taken [OF a(3)]
  proof (elim disjE conjE exE)
    fix t assume "submitted_by a = [t]" "taken_by a s = []"
    then have "Submit_atomic 0 (runtime_view x) = Some (runtime_view x')"
      using q a(4,5) upd [of t] by (simp add: x runtime_view_def Submit_atomic_def alone_def)
    then show ?thesis by blast
  qed (use q a(4,5) in \<open>simp_all add: x runtime_view_def Drain_atomic_def\<close>)
qed

lemma run_steps: "run s as s' \<Longrightarrow> runtime_step\<^sup>*\<^sup>* (s, os, submitted as @ ls) (s', os @ taken as s, ls)"
proof (induction arbitrary: os rule: run.induct)
  case (run_Nil s)
  then show ?case by (simp add: submitted_def)
next
  case (run_Cons s a s1 as s2)
  have "runtime_step (s, os, submitted (a # as) @ ls) (s1, os @ taken_by a s, submitted as @ ls)"
    using run_Cons.hyps(1-3) by (auto simp: runtime_step_def submitted_def)
  then show ?case using run_Cons.IH [of "os @ taken_by a s"] run_Cons.hyps(3)
    by (auto intro: converse_rtranclp_into_rtranclp)
qed

lemma run_atomic:
  assumes "reachable s" and "queue s = []" and "run s as s'"
  shows "atomic (alone (submitted as)) (runtime_view (s', taken as s, []))"
proof -
  have "atomic (alone (submitted as)) (runtime_view (s, [], submitted as))"
    using atomic_init [of "alone (submitted as)"] assms(2) by (simp add: runtime_view_def post_box_init_def)
  then show ?thesis
    using whole.sim_steps [of "(s, [], submitted as)" "(s', taken as s, [])"] run_steps [OF assms(3), of "[]" "[]"] assms(1)
    by simp
qed

section \<open>The property\<close>

text \<open>
  C25. Submitting and draining are atomic. The interleaved statements of \<open>Submit\<close> and \<open>Drain\<close>
  reach, without a stop, exactly the states of the machine in which a client posts a task in
  one step and the loop thread empties the box in one step; with a stop they still reach no
  other. The whole runtime, where the two are single steps beside all callbacks, signals and
  calls of the client, implements the same machine: after any run, the tasks that the loop of \<open>Drain\<close>
  has dispatched, followed by those still queued, are the tasks submitted, in the order of
  their submission.
\<close>

theorem submissions_atomic:
  "((\<exists>s. submitting never w s \<and> view s = b) \<longleftrightarrow> atomic w b)
   \<and> (\<forall>may s. submitting may w s \<longrightarrow> atomic w (view s))
   \<and> (\<forall>s as s'. reachable s \<longrightarrow> queue s = [] \<longrightarrow> run s as s' \<longrightarrow>
        atomic (alone (submitted as)) (runtime_view (s', taken as s, []))
        \<and> taken as s @ queue s' = submitted as)"
proof (intro conjI allI impI)
  show "(\<exists>s. submitting never w s \<and> view s = b) \<longleftrightarrow> atomic w b" using threads_atomic atomic_threads by blast
  show "atomic w (view s)" if "submitting may w s" for may s by (rule threads_atomic [OF that])
  fix s as s' assume r: "reachable s" "queue s = []" "run s as s'"
  show a: "atomic (alone (submitted as)) (runtime_view (s', taken as s, []))" by (rule run_atomic [OF r])
  show "taken as s @ queue s' = submitted as"
    using atomic_alone [OF a] by (simp add: runtime_view_def alone_def)
qed

text \<open>A read is submitted to a connected stream, and the wake-up takes it.\<close>

theorem submissions_atomic_witness:
  "\<exists>as. run w5 as w7 \<and> taken as w5 = [48] \<and> taken as w5 @ queue w7 = submitted as"
proof -
  let ?a = "SubmitTask (wenv 48) StreamRead 8 (\<lambda>tk. tk\<lparr>t_stream := 32, t_nbytes := 4, t_buffer := [0, 0, 0, 0]\<rparr>)"
  let ?b = "Async (\<lambda>i. wenv 64)"
  have "exit_code w6 = None" "allowed ?b w6"
    by (simp_all add: w_defs runtime_init_def fresh_envs_def wenv_ok fresh_def addr_used_def)
  then have r: "run w5 [?a, ?b] w7"
    using run_Cons [OF w5_running allowed_read run_read] run_single [OF _ _ run_dispatch_read] by blast
  have "queue w5 = []" "queue w6 = [48]" by (simp_all add: w_defs runtime_init_def)
  moreover have "taken [?a, ?b] w5 = queue w6"
    using run_read run_dispatch_read taken_async [OF run_dispatch_read] by (simp del: exec.simps taken_by.simps(1))
  ultimately have t: "taken [?a, ?b] w5 = [48]" and q: "queue w5 = []" by (simp_all del: taken.simps)
  have "taken [?a, ?b] w5 @ queue w7 = submitted [?a, ?b]" using submissions_atomic reach_5 q r by blast
  then show ?thesis using r t by blast
qed

end
