(* ===== verification/Stream_Theorems.thy ===== *)
theory Stream_Theorems
  imports Scenario
begin

text \<open>
  What the stream operations do, stated on reachable states: first in, first out delivery
  of data, the fan-out of end of file and errors, the way of the bytes from the socket to
  the client's memory on the copying and on the zero-copy path, closing, and connecting.
\<close>

section \<open>Reading\<close>

lemma undone_task:
  assumes "core L s" and "t \<in># held s"
  obtains tk where "h_tasks s t = Some tk" and "\<not> t_done tk"
  using core_member_undone [OF assms(1), of t] assms(2) that by (auto simp: undone_def)

lemma front_reader:
  assumes "reachable s" and "h_streams s x = Some st" and "s_read_queue st = t # ts"
  obtains tk where "h_tasks s t = Some tk" and "\<not> t_done tk"
  using readers_undone [OF invD(1) [OF reachable_inv [OF assms(1)]] assms(2)] assms(3) that by (auto simp: undone_def)

text \<open>
  C13. Data goes to the reader that has waited longest: it completes with the number of
  bytes, nobody else completes, the readers behind it move up, and the socket is read on
  only while one of them is left (back-pressure).
\<close>

theorem read_serves_front:
  assumes "reachable s" and "h_streams s x = Some st" and "s_read_queue st = t # ts" and "0 < nread"
  shows "\<exists>s' tk st'. on_read x nread s = Inr s' \<and> h_tasks s t = Some tk
    \<and> h_tasks s' = (h_tasks s)(t \<mapsto> completed nread tk)
    \<and> h_streams s' = (h_streams s)(x \<mapsto> st') \<and> s_read_queue st' = ts
    \<and> (uv_reading st' \<longleftrightarrow> ts \<noteq> []) \<and> (x \<in> set (reading_streams s') \<longleftrightarrow> ts \<noteq> [])"
proof -
  note d = invD [OF reachable_inv [OF assms(1)]]
  note r = reads_okD [OF struct_invD(1) [OF d(2)] assms(2)]
  obtain tk where tk: "h_tasks s t = Some tk" by (rule front_reader [OF assms(1-3)])
  obtain s' where s': "on_read x nread s = Inr s'"
    "h_streams s' = (h_streams s)(x \<mapsto> (if ts = [] then idle st else st\<lparr>s_read_queue := ts\<rparr>))"
    "reading_streams s' = (if ts = [] then us_erase x (reading_streams s) else reading_streams s)"
    "h_tasks s' = done_with [t] nread (h_tasks s)"
    using on_read_data [OF d(1) assms(2-4)] by blast
  show ?thesis using s' tk r assms(3)
    by (intro exI [of _ s'] exI [of _ tk] exI [of _ "if ts = [] then idle st else st\<lparr>s_read_queue := ts\<rparr>"])
      (simp add: done_with_single)
qed

theorem read_serves_front_witness:
  "\<exists>s'. on_read 32 3 w7 = Inr s' \<and> h_tasks s' 48 = Some (completed 3 read_task) \<and> 32 \<notin> set (reading_streams s')"
proof -
  have "h_streams w7 32 = Some (Stream_ctor\<lparr>s_read_queue := [48], s_read_active := True, uv_reading := True\<rparr>)"
    "h_tasks w7 48 = Some read_task" by (simp_all add: w_defs)
  then show ?thesis using read_serves_front [OF reach_7, of 32 _ 48 "[]" 3] by fastforce
qed

text \<open>
  C14. End of file and errors reach everybody: every queued reader completes, with 0 at the
  end of the file and with the error otherwise, the queue is empty afterwards (the loop over
  it has run to its end), the socket is no longer read, and no other task changes.
\<close>

theorem read_end_reaches_all:
  assumes "reachable s" and "h_streams s x = Some st" and "s_read_queue st \<noteq> []" and "nread < 0"
  shows "\<exists>s'. on_read x nread s = Inr s'
    \<and> h_tasks s' = done_with (s_read_queue st) (if nread = UV_EOF then 0 else nread) (h_tasks s)
    \<and> h_streams s' x = Some (st\<lparr>s_read_queue := [], s_read_active := False, uv_reading := False\<rparr>)
    \<and> x \<notin> set (reading_streams s') \<and> uv_pending s' = uv_pending s"
proof -
  note d = invD [OF reachable_inv [OF assms(1)]]
  obtain s' where s': "on_read x nread s = Inr s'" "h_streams s' = (h_streams s)(x \<mapsto> idle st)"
    "reading_streams s' = us_erase x (reading_streams s)"
    "same_handles (s\<lparr>h_streams := h_streams s', reading_streams := reading_streams s'\<rparr>) s'"
    "h_tasks s' = done_with (s_read_queue st) (if nread = UV_EOF then 0 else nread) (h_tasks s)"
    using on_read_end [OF d(1) assms(2-4)] by blast
  then show ?thesis using same_handles_fields [OF s'(4)] by (simp add: idle_def)
qed

theorem read_end_reaches_all_witness:
  "\<exists>s'. on_read 32 UV_EOF w7 = Inr s' \<and> h_tasks s' 48 = Some (completed 0 read_task)"
proof -
  have "h_streams w7 32 = Some (Stream_ctor\<lparr>s_read_queue := [48], s_read_active := True, uv_reading := True\<rparr>)"
    "h_tasks w7 48 = Some read_task" by (simp_all add: w_defs)
  then show ?thesis using read_end_reaches_all [OF reach_7, of 32 _ UV_EOF] by fastforce
qed

section \<open>The way of the bytes\<close>

text \<open>What a delivered read leaves in the task and in the pinned memory.\<close>

lemma deliver_read_effect:
  assumes r: "reachable s" and x: "h_streams s x = Some st" and q: "s_read_queue st = t # ts"
    and t: "h_tasks s t = Some tk" and e: "enabled (EvRead x data) s"
  shows "\<exists>s'. fire (EvRead x data) s = Inr s'
    \<and> h_tasks s' t = Some (completed (int (length data)) (filled data tk))
    \<and> (t_ext_data tk \<noteq> nullptr \<longrightarrow> ext_mem s' = (\<lambda>c. if unat (c - t_ext_data tk) < length data
        then data ! unat (c - t_ext_data tk) else ext_mem s c))"
proof -
  note d = invD [OF reachable_inv [OF r]]
  have al: "on_alloc x s = Inr (Some (task_data t tk), t_nbytes tk)" using x q t by (simp add: on_alloc_def)
  have n: "length data \<le> length (t_buffer tk)" if "t_ext_data tk = nullptr"
    using e al d(3) [unfolded bufs_ok_def, rule_format, OF t that] by auto
  obtain em where f: "uv_fill (task_data t tk) data s
      = Inr (s\<lparr>h_tasks := (h_tasks s)(t \<mapsto> filled data tk), ext_mem := em\<rparr>)"
    "core {#} (s\<lparr>h_tasks := (h_tasks s)(t \<mapsto> filled data tk), ext_mem := em\<rparr>)"
    using uv_fill_ok [OF d(1) t n] by blast
  let ?s1 = "s\<lparr>h_tasks := (h_tasks s)(t \<mapsto> filled data tk), ext_mem := em\<rparr>"
  define F where "F = (\<lambda>c. if unat (c - t_ext_data tk) < length data
        then data ! unat (c - t_ext_data tk) else ext_mem s c)"
  have em: "em = F" if "t_ext_data tk \<noteq> nullptr"
  proof -
    have "s\<lparr>ext_mem := F\<rparr> = ?s1" using f(1) that by (simp add: uv_fill_def task_data_def F_def)
    then have "ext_mem (s\<lparr>ext_mem := F\<rparr>) = ext_mem ?s1" by (rule arg_cong)
    then show ?thesis by simp
  qed
  have "data \<noteq> []" using e by simp
  then obtain s' where s': "on_read x (int (length data)) ?s1 = Inr s'"
    "same_handles (?s1\<lparr>h_streams := h_streams s', reading_streams := reading_streams s'\<rparr>) s'"
    "h_tasks s' = done_with [t] (int (length data)) (h_tasks ?s1)"
    using on_read_data [OF f(2), of x st t ts "int (length data)"] x q by auto
  have "fire (EvRead x data) s = Inr s'" using f(1) s'(1) by (simp add: deliver_read_def al)
  then show ?thesis using s' em same_handles_fields(6) [OF s'(2)] by (auto simp: F_def)
qed

text \<open>
  C15. Round trip of a copying read: the bytes that arrive on the socket are, after the
  callback, exactly the bytes \<open>rt_read_into\<close> stores in the client's memory from the offset
  asked for, the rest of which is untouched; and \<open>rt_await\<close> returns their number.
\<close>

theorem read_roundtrip:
  assumes "reachable s" and "h_streams s x = Some st" and "s_read_queue st = t # ts"
    and "h_tasks s t = Some tk" and "t_ext_data tk = nullptr" and "enabled (EvRead x data) s"
  shows "\<exists>s'. fire (EvRead x data) s = Inr s' \<and> rt_await t s' = Inr (Some (int (length data)))
    \<and> (\<forall>dst start. unat start + length data \<le> length dst \<longrightarrow> rt_read_into t dst start s'
        = Inr (take (unat start) dst @ data @ drop (unat start + length data) dst))"
proof -
  obtain s' where s': "fire (EvRead x data) s = Inr s'"
    "h_tasks s' t = Some (completed (int (length data)) (filled data tk))"
    using deliver_read_effect [OF assms(1-4,6)] by blast
  have "t_buffer (filled data tk) = data @ drop (length data) (t_buffer tk)"
    using assms(5) by (simp add: filled_def)
  moreover have "data \<noteq> []" using assms(6) by simp
  ultimately show ?thesis using s' by (auto simp: rt_await_def Wait_def rt_read_into_def Let_def)
qed

theorem read_roundtrip_witness:
  "\<exists>s'. fire (EvRead 32 [7, 8, 9]) w7 = Inr s' \<and> rt_await 48 s' = Inr (Some 3)
    \<and> rt_read_into 48 [1, 1, 1, 1, 1] 1 s' = Inr [1, 7, 8, 9, 1]"
proof -
  have w: "h_streams w7 32 = Some (Stream_ctor\<lparr>s_read_queue := [48], s_read_active := True, uv_reading := True\<rparr>)"
    "h_tasks w7 48 = Some read_task" "t_ext_data read_task = nullptr"
    by (simp_all add: w_defs read_task_def fresh_task_def Task_ctor_def)
  have e: "enabled (EvRead 32 [7, 8, 9]) w7"
    using w by (simp add: reading_in_def on_alloc_def Stream_ctor_def read_task_def)
  have q: "s_read_queue (Stream_ctor\<lparr>s_read_queue := [48], s_read_active := True, uv_reading := True\<rparr>) = [48]" by simp
  obtain s' where s': "fire (EvRead 32 [7, 8, 9]) w7 = Inr s'" "rt_await 48 s' = Inr (Some (int (length [7, 8, 9 :: byte])))"
    "\<forall>dst start. unat start + length [7, 8, 9 :: byte] \<le> length dst \<longrightarrow> rt_read_into 48 dst start s'
        = Inr (take (unat start) dst @ [7, 8, 9] @ drop (unat start + length [7, 8, 9 :: byte]) dst)"
    using read_roundtrip [OF reach_7 w(1) q w(2,3) e] by blast
  then show ?thesis using s'(3) [rule_format, of 1 "[1, 1, 1, 1, 1]"] by simp
qed

text \<open>
  C16. Zero copy: a read into a pinned bytevector puts the bytes that arrive at its own
  address, byte for byte, and changes no byte outside the range it was given.
\<close>

theorem pinned_read_in_place:
  assumes "reachable s" and "h_streams s x = Some st" and "s_read_queue st = t # ts"
    and "h_tasks s t = Some tk" and "t_ext_data tk \<noteq> nullptr" and "enabled (EvRead x data) s"
  shows "\<exists>s'. fire (EvRead x data) s = Inr s' \<and> rt_await t s' = Inr (Some (int (length data)))
    \<and> (\<forall>i < length data. ext_mem s' (t_ext_data tk + of_nat i) = data ! i)
    \<and> (\<forall>c. unat (t_nbytes tk) \<le> unat (c - t_ext_data tk) \<longrightarrow> ext_mem s' c = ext_mem s c)"
proof -
  have al: "on_alloc x s = Inr (Some (task_data t tk), t_nbytes tk)" using assms(2-4) by (simp add: on_alloc_def)
  then have n: "length data \<le> unat (t_nbytes tk)" using assms(6) by simp
  moreover have "unat (t_nbytes tk) < 2 ^ 32" using unsigned_less [where 'a = nat, of "t_nbytes tk"] by simp
  ultimately have "unat (of_nat i :: addr) = i" if "i < length data" for i
    using that by (simp add: unat_of_nat)
  moreover obtain s' where s': "fire (EvRead x data) s = Inr s'"
    "h_tasks s' t = Some (completed (int (length data)) (filled data tk))"
    "ext_mem s' = (\<lambda>c. if unat (c - t_ext_data tk) < length data
        then data ! unat (c - t_ext_data tk) else ext_mem s c)"
    using deliver_read_effect [OF assms(1-4,6)] assms(5) by blast
  ultimately show ?thesis using n by (intro exI [of _ s']) (auto simp: rt_await_def Wait_def)
qed

theorem pinned_read_in_place_witness:
  "\<exists>s'. fire (EvRead 32 [7, 8, 9]) p7 = Inr s' \<and> ext_mem s' 1011 = 7 \<and> ext_mem s' 1012 = 8
    \<and> ext_mem s' 1013 = 9 \<and> ext_mem s' 1015 = 0"
proof -
  have w: "h_streams p7 32 = Some (Stream_ctor\<lparr>s_read_queue := [48], s_read_active := True, uv_reading := True\<rparr>)"
    "h_tasks p7 48 = Some pinned_read" "t_ext_data pinned_read = 1011" "t_nbytes pinned_read = 4"
    by (simp_all add: p7_def p6_def pinned_read_def)
  have e: "enabled (EvRead 32 [7, 8, 9]) p7"
    using w by (simp add: reading_in_def on_alloc_def Stream_ctor_def)
  have q: "s_read_queue (Stream_ctor\<lparr>s_read_queue := [48], s_read_active := True, uv_reading := True\<rparr>) = [48]" by simp
  have n: "t_ext_data pinned_read \<noteq> nullptr" using w by simp
  obtain s' where s': "fire (EvRead 32 [7, 8, 9]) p7 = Inr s'"
    "\<forall>i < length [7, 8, 9 :: byte]. ext_mem s' (1011 + of_nat i) = [7, 8, 9] ! i"
    "\<forall>c. unat (4 :: 32 word) \<le> unat (c - 1011) \<longrightarrow> ext_mem s' c = ext_mem p7 c"
    using pinned_read_in_place [OF reach_p7 w(1) q w(2) n e] unfolding w(3,4) by blast
  have "ext_mem p7 1015 = 0" by (simp add: p7_def p6_def w_defs runtime_init_def)
  then show ?thesis using s'(1) s'(2) [rule_format, of 0] s'(2) [rule_format, of 1] s'(2) [rule_format, of 2]
      s'(3) [rule_format, of 1015] by simp
qed

section \<open>Closing and cancelling\<close>

text \<open>
  C17. Closing a stream is two-phased and leaves nobody behind: dispatching the close wakes
  every parked reader with \<open>ECANCELED\<close> and marks the handle as closing, with the close task
  still running; the close callback then deletes the stream and completes the close task
  with 0.
\<close>

theorem close_wakes_readers_then_completes:
  assumes "dispatch_pre env t tk {#} s" and "t_op tk = StreamClose" and "h_streams s (t_stream tk) = Some st"
  shows "\<exists>s' s''. Dispatch env t s = Inr s'
    \<and> h_tasks s' = done_with (s_read_queue st) UV_ECANCELED (h_tasks s) \<and> h_tasks s' t = Some tk \<and> \<not> t_done tk
    \<and> t_stream tk \<notin> set (reading_streams s') \<and> enabled (EvStreamClosed (t_stream tk)) s'
    \<and> fire (EvStreamClosed (t_stream tk)) s' = Inr s'' \<and> h_streams s'' = (h_streams s)(t_stream tk := None)
    \<and> h_tasks s'' t = Some (completed 0 tk)"
proof -
  note p = dispatch_preD [OF assms(1)] and op = assms(2)
  let ?x = "t_stream tk"
  note d = struct_invD [OF p(2)]
  have o: "\<not> uv_closing st" using p(4) op assms(3) by (auto simp: ready_def client_stream_def open_in_def)
  have ct: "close_task st = nullptr" using close_slotsD [OF d(2) assms(3) o] .
  obtain s' where s': "Dispatch_StreamClose t s = Inr s'" "core {#} s'"
    "h_streams s' = (h_streams s)(?x \<mapsto> (idle st)\<lparr>close_task := t, uv_closing := True\<rparr>)"
    "reads_ok (h_streams s') (reading_streams s')"
    "h_tasks s' = done_with (s_read_queue st) UV_ECANCELED (h_tasks s)"
    using Dispatch_StreamClose_ok [OF p(1) d(1) p(3) refl assms(3) o ct] by blast
  have nd: "\<not> t_done tk" by (rule owned_not_done [OF p(1,3)])
  have "t \<notin># held s" using core_unique(1) [OF p(1)] .
  then have "t \<notin> set (s_read_queue st)"
    using mset_subset_eqD [OF stream_heap.share_held [OF core_finite(3) [OF p(1)] assms(3)]]
    by (auto simp: stream_held_def)
  then have t': "h_tasks s' t = Some tk" using s'(5) p(3) by simp
  have x': "h_streams s' ?x = Some ((idle st)\<lparr>close_task := t, uv_closing := True\<rparr>)" using s'(3) by simp
  have tn: "t \<noteq> nullptr" by (rule core_local_nonnull [OF p(1)])
  obtain s'' where s'': "Stream_OnClosed ?x s' = Inr s''"
    "same_handles (s'\<lparr>h_streams := (h_streams s')(?x := None)\<rparr>) s''" "h_tasks s'' = done_with [t] 0 (h_tasks s')"
    using stream_close.OnClosed_core [OF s'(2) x'] tn by (auto simp: Stream_OnClosed_def stream_held_def)
  have "h_streams s'' = (h_streams s)(?x := None)" using same_handles_fields(1) [OF s''(2)] s'(3) by simp
  moreover have "?x \<notin> set (reading_streams s')" using reads_okD(3) [OF s'(4) x'] by simp
  moreover have "Dispatch env t s = Inr s'" using s'(1) p(3) op by (simp add: Dispatch_def)
  ultimately show ?thesis using s'' s'(5) t' nd x'
    by (intro exI [of _ s'] exI [of _ s'']) (simp add: closing_in_def done_with_single)
qed

theorem close_wakes_readers_then_completes_witness:
  "\<exists>s' s''. Dispatch (wenv 96) 80 (w8\<lparr>queue := []\<rparr>) = Inr s' \<and> h_tasks s' 48 = Some (completed UV_ECANCELED read_task)
    \<and> fire (EvStreamClosed 32) s' = Inr s'' \<and> h_streams s'' 32 = None \<and> h_tasks s'' 80 = Some (completed 0 close_task_obj)"
proof -
  have f: "fresh (wenv 96) w8" by (simp add: w8_def w_defs runtime_init_def fresh_def addr_used_def)
  have w: "queue w8 = [80]" "h_tasks w8 80 = Some close_task_obj" "t_op close_task_obj = StreamClose"
    "t_stream close_task_obj = 32" "h_tasks w8 48 = Some read_task"
    by (simp_all add: w8_def close_task_obj_def fresh_task_def Task_ctor_def)
  have x: "h_streams (w8\<lparr>queue := []\<rparr>) (t_stream close_task_obj)
      = Some (Stream_ctor\<lparr>s_read_queue := [48], s_read_active := True, uv_reading := True\<rparr>)"
    by (simp add: w(4)) (simp add: w8_def w_defs)
  have "dispatch_pre (wenv 96) 80 close_task_obj {#} (w8\<lparr>queue := []\<rparr>)"
    using head_pre [OF reach_8 w(1,2) wenv_ok f] by simp
  from close_wakes_readers_then_completes [OF this w(3) x] show ?thesis using w(4,5) by fastforce
qed

text \<open>
  Once the graceful shutdown has begun, no reader is parked any more: a read that is
  dispatched then completes at once with \<open>ECANCELED\<close>, without touching its stream, even if
  that is gone.
\<close>

lemma read_fails_fast_in_shutdown:
  assumes "core {#t#} s" and "h_tasks s t = Some tk" and "t_op tk = StreamRead" and "shutdown_signaled s"
  shows "\<exists>s'. Dispatch env t s = Inr s' \<and> h_tasks s' t = Some (completed UV_ECANCELED tk)
    \<and> h_streams s' = h_streams s \<and> reading_streams s' = reading_streams s"
proof -
  have "core (add_mset t {#}) s" using assms(1) by simp
  from Complete_core [OF this, of UV_ECANCELED] obtain s' where "Complete t UV_ECANCELED s = Inr s'"
    "same_handles s s'" "h_tasks s' = done_with [t] UV_ECANCELED (h_tasks s)" by blast
  then show ?thesis using assms(2-4) same_handles_fields [of s s']
    by (intro exI [of _ s']) (simp add: Dispatch_def Dispatch_StreamRead_def)
qed

section \<open>Connecting\<close>

text \<open>
  C19. The outcome of a connection attempt: on success the client gets the handle of an open
  stream nobody reads; on failure it gets the error, the half-open socket is closing with no
  close task, and the task no longer names it.
\<close>

theorem connect_outcome:
  assumes "reachable s" and "ConnectReq t x \<in> set (uv_pending s)"
  shows "\<exists>s' tk st. fire (EvConnect t x status) s = Inr s' \<and> h_tasks s t = Some tk \<and> h_streams s x = Some st
    \<and> (if status < 0
       then h_tasks s' t = Some (completed status (tk\<lparr>t_stream := nullptr\<rparr>)) \<and> enabled (EvStreamClosed x) s'
       else h_tasks s' t = Some (completed (as_result x) tk) \<and> client_stream s' x \<and> h_streams s' x = Some st)"
proof -
  note d = invD [OF reachable_inv [OF assms(1)]]
  let ?q = "ConnectReq t x" let ?s = "unpend ?q s"
  note i = struct_invD [OF d(2)]
  have c1: "core (add_mset t {#}) ?s" using unpend_core [OF d(1) assms(2)] by simp
  have "req_good (h_tasks s) ?q" using i(7) assms(2) by (auto simp: reqs_ok_def)
  then obtain tk where tk: "h_tasks ?s t = Some tk" "t_stream tk = x" by (auto split: option.splits)
  have int: "internal_of (h_listeners s) (uv_pending s) = add_mset x (internal_of (h_listeners s) (uv_pending ?s))"
    using internal_of_remove1 [OF assms(2), of "h_listeners s"] by simp
  then obtain st where st: "h_streams s x = Some st" "\<not> uv_closing st" "s_read_queue st = []"
    using internal_ok_open [OF i(6), of x] by auto
  have "count (internal_of (h_listeners s) (uv_pending s)) x \<le> 1" using i(6) by (simp add: internal_ok_def)
  then have xo: "x \<notin># internal_of (h_listeners s) (uv_pending ?s)" by (simp add: int not_in_iff)
  have "h_streams ?s x = Some st" using st by simp
  from on_connect_ok [OF c1 tk this st(2) close_slotsD [OF i(2) st(1,2)], of status] obtain s' where s':
    "on_connect t status ?s = Inr s'"
    "h_streams s' = (h_streams s)(x \<mapsto> (if status < 0 then st\<lparr>uv_closing := True\<rparr> else st))"
    "same_handles (?s\<lparr>h_streams := h_streams s'\<rparr>) s'"
    "h_tasks s' = (h_tasks s)(t \<mapsto> (if status < 0 then completed status (tk\<lparr>t_stream := nullptr\<rparr>)
        else completed (as_result x) tk))" by auto
  have "client_stream s' x" if "\<not> status < 0"
    using that xo st same_handles_fields [OF s'(3)] s'(2) by (auto simp: client_stream_def open_in_def)
  then show ?thesis using s' tk(1) st(1)
    by (intro exI [of _ s'] exI [of _ tk] exI [of _ st]) (simp add: closing_in_def)
qed

theorem connect_outcome_witness:
  "\<exists>s'. fire (EvConnect 16 32 (- 111)) w4 = Inr s' \<and> enabled (EvStreamClosed 32) s'"
proof -
  have "ConnectReq 16 32 \<in> set (uv_pending w4)" by (simp add: w_defs)
  from connect_outcome [OF reach_4 this, of "- 111"] show ?thesis by auto
qed

text \<open>
  A handle survives its way through the signed 64-bit result: as a handle it is the same
  address again, it lies in the range of \<open>int64_t\<close>, and a handle in the lower half of the
  address space (every user-space address) is positive, so that a client that tests for a
  negative result never takes it for an error.
\<close>

lemma as_result_roundtrip:
  "(word_of_int (as_result p) :: addr) = p \<and> - (2 ^ 63) \<le> as_result p \<and> as_result p < 2 ^ 63
    \<and> (unat p < 2 ^ 63 \<longrightarrow> p \<noteq> nullptr \<longrightarrow> 0 < as_result p \<and> as_result p = int (unat p))"
proof -
  have "as_result p = int (unat p)" if "unat p < 2 ^ 63"
  proof -
    have u: "int (unat p) = uint p" by simp
    have "int (unat p) < int (2 ^ 63)" using that by (simp only: of_nat_less_iff)
    then have "uint p < 2 ^ 63" unfolding u by simp
    moreover have "- (2 ^ 63) \<le> uint p" by (rule order_trans [OF _ unsigned_greater_eq]) simp
    ultimately have "signed_take_bit 63 (uint p) = uint p" by (intro signed_take_bit_int_eq_self)
    then have "sint p = uint p" by (simp add: sint_uint)
    then show ?thesis by (simp add: as_result_def)
  qed
  moreover have "0 < int (unat p)" if "p \<noteq> nullptr" using that by (simp only: of_nat_0_less_iff unat_gt_0 not_False_eq_True)
  moreover have "- (2 ^ 63) \<le> as_result p" "as_result p < 2 ^ 63" "(word_of_int (as_result p) :: addr) = p"
    using sint_greater_eq [of p] sint_less [of p] by (simp_all add: as_result_def)
  ultimately show ?thesis by metis
qed

end
