(* ===== verification/Server_Theorems.thy ===== *)
theory Server_Theorems
  imports Scenario
begin

text \<open>
  Listeners and graceful shutdown on reachable states: connections and acceptors meet first
  in, first out; the signal wakes everybody who is parked and arms the deadline; a close that
  comes after the signal is harmless, an accept that comes after it is not.

  The scenario: a server that is to exit on signals listens, an accept is queued, dispatched
  and parked, and the signal comes before or after that.
\<close>

section \<open>A server\<close>

definition v1 :: runtime where
  "v1 = runtime_init\<lparr>exit_on_signal := True, running := True, async := Active, sig_int := Active, sig_term := Active\<rparr>"

definition listen_task :: task where
  "listen_task = (fresh_task TcpListen 0)\<lparr>t_path := ''127.0.0.1'', t_port := 80, t_backlog := 16\<rparr>"

definition v2 :: runtime where
  "v2 = v1\<lparr>h_tasks := [16 \<mapsto> listen_task], live := (\<lambda>_. 0)(CTask := 1), queue := [16], async_sent := True\<rparr>"

definition v3 :: runtime where
  "v3 = v1\<lparr>h_tasks := [16 \<mapsto> completed 32 listen_task], h_listeners := [32 \<mapsto> Listener_ctor],
     listeners := [32], live := (\<lambda>_. 0)(CTask := 1, CListener := 1)\<rparr>"

definition accept_task :: task where
  "accept_task = (fresh_task TcpAccept 0)\<lparr>t_listener := 32\<rparr>"

definition v4 :: runtime where
  "v4 = v3\<lparr>h_tasks := [16 \<mapsto> completed 32 listen_task, 48 \<mapsto> accept_task],
     live := (\<lambda>_. 0)(CListener := 1, CTask := 2), queue := [48], async_sent := True\<rparr>"

definition v5 :: runtime where
  "v5 = v4\<lparr>h_listeners := [32 \<mapsto> Listener_ctor\<lparr>l_pending_accepts := [48]\<rparr>], queue := [], async_sent := False\<rparr>"

lemmas v_defs = v1_def v2_def v3_def v4_def v5_def

lemma run_v1: "exec (SetExitOnSignal 1) runtime_init = Inr (runtime_init\<lparr>exit_on_signal := True\<rparr>)"
  "exec StartRt (runtime_init\<lparr>exit_on_signal := True\<rparr>) = Inr v1"
  by (simp_all add: rt_runtime_exit_on_signal_def ExitOnSignal_def rt_runtime_start_def Start_def runtime_init_def v1_def)

lemma run_v2: "exec (SubmitTask (wenv 16) TcpListen 0
    (\<lambda>tk. tk\<lparr>t_path := ''127.0.0.1'', t_port := 80, t_backlog := 16\<rparr>)) v1 = Inr v2"
  by (simp add: submit_eval v_defs runtime_init_def listen_task_def)

lemma run_v3: "exec (Async (\<lambda>i. wenv 32)) v2 = Inr v3"
  by (simp add: drain_eval v_defs runtime_init_def listen_task_def Dispatch_TcpListen_def new_Listener_def us_insert_def
      Complete_def as_result_def completed_def wenv_fields)

lemma run_v4: "exec (SubmitTask (wenv 48) TcpAccept 0 (\<lambda>tk. tk\<lparr>t_listener := 32\<rparr>)) v3 = Inr v4"
  by (simp add: submit_eval v_defs runtime_init_def accept_task_def)

lemma run_v5: "exec (Async (\<lambda>i. wenv 64)) v4 = Inr v5"
  by (simp add: drain_eval v_defs runtime_init_def accept_task_def Dispatch_TcpAccept_def put_listener_def Listener_ctor_def)

lemma reach_v1: "reachable v1"
  by (rule reach_step [OF reach_step [OF reach_init _ _ run_v1(1)] _ _ run_v1(2)])
    (simp_all add: runtime_init_def uv_loop_alive_def)

lemma reach_v2: "reachable v2"
  by (rule reach_step [OF reach_v1 _ _ run_v2])
    (simp_all add: v_defs runtime_init_def fills_def can_submit_def fresh_task_def Task_ctor_def cq_alive_def ready_def)

lemma reach_v3: "reachable v3"
  by (rule reach_step [OF reach_v2 _ _ run_v3])
    (simp_all add: v_defs runtime_init_def fresh_envs_def wenv_ok fresh_def addr_used_def)

lemma reach_v4: "reachable v4"
  by (rule reach_step [OF reach_v3 _ _ run_v4])
    (simp_all add: v_defs runtime_init_def fills_def can_submit_def fresh_task_def Task_ctor_def cq_alive_def ready_def
      open_in_def Listener_ctor_def)

lemma reach_v5: "reachable v5"
  by (rule reach_step [OF reach_v4 _ _ run_v5])
    (simp_all add: v_defs runtime_init_def fresh_envs_def wenv_ok fresh_def addr_used_def)

section \<open>Connections and acceptors\<close>

text \<open>
  C21. A connection goes to the acceptor that has waited longest, which completes with the
  handle of the new stream; with no acceptor parked it joins the end of the backlog and no
  task changes.
\<close>

theorem connection_meets_acceptor:
  assumes "reachable s" and "h_listeners s l = Some lo" and "enabled (EvConnection env l status) s"
    and "0 \<le> status" and "uv_accept env = 0"
  shows "\<exists>s'. fire (EvConnection env l status) s = Inr s' \<and> h_streams s' (new_addr env 0) = Some Stream_ctor
    \<and> (case l_pending_accepts lo of
         t # ts \<Rightarrow> h_listeners s' l = Some (lo\<lparr>l_pending_accepts := ts\<rparr>)
           \<and> h_tasks s' = done_with [t] (as_result (new_addr env 0)) (h_tasks s) \<and> t \<in> undone (h_tasks s)
       | [] \<Rightarrow> h_listeners s' l = Some (lo\<lparr>l_accepted := l_accepted lo @ [new_addr env 0]\<rparr>)
           \<and> h_tasks s' = h_tasks s)"
proof -
  note d = invD [OF reachable_inv [OF assms(1)]]
  have f: "fresh env s" and n: "\<not> status < 0" using assms(3,4) by simp_all
  obtain s' lo' where s': "on_connection env l status s = Inr s'"
    "h_streams s' = (h_streams s)(new_addr env 0 \<mapsto> Stream_ctor)" "h_listeners s' = (h_listeners s)(l \<mapsto> lo')"
    and o: "l_pending_accepts lo = [] \<and> lo' = lo\<lparr>l_accepted := l_accepted lo @ [new_addr env 0]\<rparr> \<and> h_tasks s' = h_tasks s
       \<or> (\<exists>t ts. l_pending_accepts lo = t # ts \<and> lo' = lo\<lparr>l_pending_accepts := ts\<rparr>
          \<and> h_tasks s' = done_with [t] (as_result (new_addr env 0)) (h_tasks s))"
    using on_connection_accepts [OF d(1) assms(2) n refl fresh_addr(1,5) [OF f] assms(5)] by blast
  show ?thesis using s' o acceptors_undone [OF d(1) assms(2)] by (intro exI [of _ s']) (auto split: list.splits)
qed

theorem connection_meets_acceptor_witness:
  "\<exists>s'. fire (EvConnection (wenv 96) 32 0) v5 = Inr s' \<and> h_streams s' 96 = Some Stream_ctor
    \<and> h_tasks s' 48 = Some (completed (as_result 96) accept_task)"
proof -
  have l: "h_listeners v5 32 = Some (Listener_ctor\<lparr>l_pending_accepts := [48]\<rparr>)" "h_tasks v5 48 = Some accept_task"
    by (simp_all add: v_defs)
  have "enabled (EvConnection (wenv 96) 32 0) v5"
    by (simp add: v_defs runtime_init_def open_in_def Listener_ctor_def wenv_ok fresh_def addr_used_def)
  from connection_meets_acceptor [OF reach_v5 l(1) this] show ?thesis using l(2) by (auto simp: wenv_fields)
qed

text \<open>
  An accept takes the connection that has waited longest in the backlog and completes at
  once with its handle; with an empty backlog it is parked behind the other acceptors.
\<close>

lemma accept_takes_backlog:
  assumes "dispatch_pre env t tk L s" and "t_op tk = TcpAccept" and "h_listeners s (t_listener tk) = Some lo"
  shows "\<exists>s'. Dispatch env t s = Inr s' \<and> (case l_accepted lo of
      x # xs \<Rightarrow> h_listeners s' (t_listener tk) = Some (lo\<lparr>l_accepted := xs\<rparr>)
        \<and> h_tasks s' = (h_tasks s)(t \<mapsto> completed (as_result x) tk)
    | [] \<Rightarrow> h_listeners s' (t_listener tk) = Some (lo\<lparr>l_pending_accepts := l_pending_accepts lo @ [t]\<rparr>)
        \<and> h_tasks s' = h_tasks s)"
proof -
  note p = dispatch_preD [OF assms(1)]
  obtain s' lo' where s': "Dispatch_TcpAccept t s = Inr s'" "h_listeners s' = (h_listeners s)(t_listener tk \<mapsto> lo')"
    and o: "l_accepted lo = [] \<and> lo' = lo\<lparr>l_pending_accepts := l_pending_accepts lo @ [t]\<rparr> \<and> h_tasks s' = h_tasks s
       \<or> (\<exists>x xs. l_accepted lo = x # xs \<and> lo' = lo\<lparr>l_accepted := xs\<rparr>
          \<and> h_tasks s' = done_with [t] (as_result x) (h_tasks s))"
    using Dispatch_TcpAccept_ok [OF p(1,3) refl assms(3)] by blast
  have "Dispatch env t s = Inr s'" using s'(1) p(3) assms(2) by (simp add: Dispatch_def)
  then show ?thesis using s'(2) o p(3) by (intro exI [of _ s']) (auto simp: done_with_single split: list.splits)
qed

text \<open>
  Completing a task commutes with what accepts and connections do beside it: replacing a
  listener and creating a stream.
\<close>

lemma Complete_put_listener:
  "Complete t r (put_listener l lo s) = map_sum id (put_listener l lo) (Complete t r s)"
  by (cases "h_tasks s t"; cases "h_cqs s (t_cq (the (h_tasks s t)))")
    (simp_all add: Let_def Complete_def Post_def Release_def put_listener_def Counted_dtor_def)

lemma Complete_new_Stream:
  "Complete t r (new_Stream x s) = map_sum id (new_Stream x) (Complete t r s)"
  by (cases "h_tasks s t"; cases "h_cqs s (t_cq (the (h_tasks s t)))")
    (simp_all add: Let_def Complete_def Post_def Release_def new_Stream_def Counted_ctor_def Counted_dtor_def fun_upd_twist)

lemma put_listener_new_Stream: "put_listener l lo (new_Stream x s) = new_Stream x (put_listener l lo s)"
  by (simp add: put_listener_def new_Stream_def Counted_ctor_def)

text \<open>
  C22. Accepts and connections commute: on an open listener, a connection that arrives just
  before an accept is dispatched and one that arrives just after it lead to the very same
  state, whether the listener has a backlog, parked acceptors or neither; so acceptors and
  connections are matched in the order of their arrival and none is lost.
\<close>

theorem accept_and_connection_commute:
  assumes "dispatch_pre env t tk L s" and "t_op tk = TcpAccept" and "h_listeners s (t_listener tk) = Some lo"
    and "\<not> status < 0" and "uv_accept env' = 0"
  shows "\<exists>s1 s2 s3. Dispatch env t s = Inr s1 \<and> on_connection env' (t_listener tk) status s1 = Inr s2
    \<and> on_connection env' (t_listener tk) status s = Inr s3 \<and> Dispatch env t s3 = Inr s2"
proof -
  note p = dispatch_preD [OF assms(1)]
  let ?l = "t_listener tk" let ?x = "new_addr env' 0"
  have D: "Dispatch env t u = Dispatch_TcpAccept t u" if "h_tasks u t = Some tk" for u
    using that assms(2) by (simp add: Dispatch_def)
  have run: "\<exists>u. Complete a r s = Inr u \<and> h_tasks u = done_with [a] r (h_tasks s) \<and> h_listeners u = h_listeners s"
    if c: "core (add_mset a M) (put_listener ?l lo' s)" for a M r lo'
  proof -
    obtain u where u: "map_sum id (put_listener ?l lo') (Complete a r s) = Inr u"
      "h_tasks u = done_with [a] r (h_tasks s)"
      using Complete_core [OF c, of r] by (auto simp: Complete_put_listener)
    obtain v where v: "Complete a r s = Inr v" using u(1) by (cases "Complete a r s") simp_all
    have "h_listeners v = h_listeners s" using v
      by (auto simp: Complete_def Post_def Release_def Let_def Counted_dtor_def sbind_def deref_def
          split: sum.splits option.splits if_splits)
    then show ?thesis using u v by auto
  qed
  have o: "l_accepted lo = [] \<or> l_pending_accepts lo = []" using struct_invD(3) [OF p(2)] assms(3) by (rule listeners_okD(1))
  note ev = Let_def on_connection_def Dispatch_TcpAccept_def Complete_put_listener Complete_new_Stream put_listener_new_Stream
  show ?thesis
  proof (cases "l_accepted lo")
    case (Cons y ys)
    have "core (add_mset t L) (put_listener ?l lo s)" using core_put_listener [OF p(1) assms(3), of lo] by simp
    from run [OF this, of "as_result y"] obtain u where u: "Complete t (as_result y) s = Inr u"
      "h_listeners u = h_listeners s" by blast
    have q: "l_pending_accepts lo = []" using o Cons by simp
    show ?thesis using p(3) assms(3-5) Cons q u by (simp add: D ev)
  next
    case Nil
    show ?thesis
    proof (cases "l_pending_accepts lo")
      case (Cons a as)
      have c: "core (add_mset a (add_mset t L)) (put_listener ?l (lo\<lparr>l_pending_accepts := as\<rparr>) s)"
        by (rule core_put_listener [OF p(1) assms(3)]) (simp add: Cons listener_held_def)
      then have "a \<noteq> t" using core_once [OF c, of t] by auto
      obtain u where u: "Complete a (as_result ?x) s = Inr u" "h_tasks u = done_with [a] (as_result ?x) (h_tasks s)"
        "h_listeners u = h_listeners s" using run [OF c] by blast
      show ?thesis using p(3) assms(3-5) Nil Cons u \<open>a \<noteq> t\<close> by (simp add: D ev done_with_def)
    next
      case Nil': Nil
      have "core (add_mset t L) (put_listener ?l lo s)" using core_put_listener [OF p(1) assms(3), of lo] by simp
      from run [OF this, of "as_result ?x"] obtain u where u: "Complete t (as_result ?x) s = Inr u"
        "h_listeners u = h_listeners s" by blast
      have "lo\<lparr>l_pending_accepts := []\<rparr> = lo" "lo\<lparr>l_accepted := []\<rparr> = lo" using Nil Nil' by simp_all
      then have e: "put_listener ?l (lo\<lparr>l_pending_accepts := []\<rparr>) v = put_listener ?l (lo\<lparr>l_accepted := []\<rparr>) v" for v
        by argo
      show ?thesis using p(3) assms(3-5) Nil Nil' u by (simp add: D ev e)
    qed
  qed
qed

theorem accept_and_connection_commute_witness:
  "\<exists>s1 s2 s3. Dispatch (wenv 64) 48 (v4\<lparr>queue := []\<rparr>) = Inr s1 \<and> on_connection (wenv 96) 32 0 s1 = Inr s2
    \<and> on_connection (wenv 96) 32 0 (v4\<lparr>queue := []\<rparr>) = Inr s3 \<and> Dispatch (wenv 64) 48 s3 = Inr s2"
proof -
  have f: "fresh (wenv 64) v4" by (simp add: v_defs runtime_init_def fresh_def addr_used_def)
  have w: "queue v4 = [48]" "h_tasks v4 48 = Some accept_task" "t_op accept_task = TcpAccept" "t_listener accept_task = 32"
    by (simp_all add: v_defs accept_task_def fresh_task_def Task_ctor_def)
  have l: "h_listeners (v4\<lparr>queue := []\<rparr>) (t_listener accept_task) = Some Listener_ctor"
    unfolding w(4) by (simp add: v_defs)
  have "uv_accept (wenv 96) = 0" by (simp add: wenv_fields)
  from accept_and_connection_commute [OF head_pre [OF reach_v4 w(1,2) wenv_ok f] w(3) l, of 0 "wenv 96"] this show ?thesis
    unfolding w(4) by auto
qed

text \<open>
  C23. The listener registry is exact: it lists every open listener once and no other; an
  acceptor is never parked while a connection waits in the backlog; a closing listener has
  neither.
\<close>

theorem listener_registry_exact:
  assumes "reachable s"
  shows "distinct (listeners s) \<and> (l \<in> set (listeners s) \<longleftrightarrow> open_in (h_listeners s) l)
    \<and> (\<forall>lo. h_listeners s l = Some lo \<longrightarrow> (l_accepted lo = [] \<or> l_pending_accepts lo = [])
        \<and> (uv_closing lo \<longrightarrow> l_accepted lo = [] \<and> l_pending_accepts lo = []))"
  using struct_invD(3) [OF invD(2) [OF reachable_inv [OF assms]]] unfolding listeners_ok_def by blast

theorem listener_registry_exact_witness: "open_in (h_listeners v5) 32 \<and> 32 \<in> set (listeners v5)"
proof -
  have "open_in (h_listeners v5) 32" by (simp add: v_defs open_in_def Listener_ctor_def)
  then show ?thesis using listener_registry_exact [OF reach_v5, of 32] by blast
qed

section \<open>Signals\<close>

lemma set_acceptors: "set (acceptors s ls) = {t. \<exists>l \<in> set ls. t \<in> set (l_pending_accepts (the (h_listeners s l)))}"
  by (auto simp: acceptors_def)

lemma set_readers: "set (readers s xs) = {t. \<exists>x \<in> set xs. t \<in> set (s_read_queue (the (h_streams s x)))}"
  by (auto simp: readers_def)

lemma iter_mset: "env_ok env \<Longrightarrow> mset (iter_order env xs) = mset xs"
  by (simp add: env_ok_def)

lemma ex_the_iff:
  assumes "\<And>x v. m x = Some v \<Longrightarrow> t \<in> f v \<Longrightarrow> x \<in> A" and "\<And>x. x \<in> A \<Longrightarrow> \<exists>v. m x = Some v"
  shows "(\<exists>x \<in> A. t \<in> f (the (m x))) \<longleftrightarrow> (\<exists>x v. m x = Some v \<and> t \<in> f v)"
proof
  assume "\<exists>x \<in> A. t \<in> f (the (m x))"
  then obtain x where x: "x \<in> A" "t \<in> f (the (m x))" ..
  from assms(2) [OF x(1)] obtain v where "m x = Some v" ..
  then show "\<exists>x v. m x = Some v \<and> t \<in> f v" using x(2) by auto
next
  assume "\<exists>x v. m x = Some v \<and> t \<in> f v"
  then obtain x v where x: "m x = Some v" "t \<in> f v" by blast
  then show "\<exists>x \<in> A. t \<in> f (the (m x))" using assms(1) [OF x] by (intro bexI [of _ x]) simp_all
qed

text \<open>The first signal of a process with open listeners.\<close>

lemma first_signal:
  assumes "reachable s" and "\<not> shutdown_signaled s" and "listeners s \<noteq> []" and "env_ok env"
  shows "\<exists>s' ps. OnSignal env n s = Inr s' \<and> h_tasks s' = done_with ps UV_ECANCELED (h_tasks s)
    \<and> set ps = {t. \<exists>l lo. h_listeners s l = Some lo \<and> t \<in> set (l_pending_accepts lo)}
        \<union> {t. \<exists>x st. h_streams s x = Some st \<and> t \<in> set (s_read_queue st)}
    \<and> listeners s' = [] \<and> reading_streams s' = [] \<and> (\<forall>l \<in> set (listeners s). closing_in (h_listeners s') l)
    \<and> uv_pending s' = uv_pending s \<and> shutdown_timer s' = Active \<and> shutdown_timer_due s' = shutdown_timeout_ms s
    \<and> shutdown_signum s' = n \<and> rt_shutdown_requested s' = 1 \<and> exit_code s' = exit_code s"
proof -
  note d = invD [OF reachable_inv [OF assms(1)]]
  note i = struct_invD [OF d(2)]
  let ?ls = "iter_order env (listeners s)" let ?rs = "iter_order env (reading_streams s)"
  obtain s' where s': "OnSignal env n s = Inr s'" "listeners s' = []" "reading_streams s' = []"
    "h_tasks s' = done_with (acceptors s ?ls @ readers s ?rs) UV_ECANCELED (h_tasks s)"
    "\<forall>l \<in> set (listeners s). closing_in (h_listeners s') l" "uv_pending s' = uv_pending s"
    "same_control (s\<lparr>shutdown_signaled := True, shutdown_signum := n, shutdown_timer := Active,
        shutdown_timer_started := True, shutdown_timer_due := shutdown_timeout_ms s\<rparr>) s'"
    using OnSignal_graceful [OF d(1,2) assms(4,2,3)] by blast
  have m: "set ?ls = set (listeners s)" "set ?rs = set (reading_streams s)"
    using mset_eq_setD [OF iter_mset [OF assms(4)]] by simp_all
  have "set (acceptors s ?ls) = {t. \<exists>l lo. h_listeners s l = Some lo \<and> t \<in> set (l_pending_accepts lo)}"
  proof -
    have "l \<in> set (listeners s)" if "h_listeners s l = Some lo" "t \<in> set (l_pending_accepts lo)" for l lo t
      using listeners_okD(2,4) [OF i(3) that(1)] that(2) by auto
    then show ?thesis unfolding set_acceptors m(1)
      by (intro Collect_cong ex_the_iff [where f = "\<lambda>lo. set (l_pending_accepts lo)"])
        (use listeners_ok_registered [OF i(3)] in blast)+
  qed
  moreover have "set (readers s ?rs) = {t. \<exists>x st. h_streams s x = Some st \<and> t \<in> set (s_read_queue st)}"
  proof -
    have "x \<in> set (reading_streams s)" if "h_streams s x = Some st" "t \<in> set (s_read_queue st)" for x st t
      using reads_okD(1,3) [OF i(1) that(1)] that(2) by auto
    moreover have "\<exists>st. h_streams s x = Some st" if "x \<in> set (reading_streams s)" for x
      using i(1) that by (auto simp: reads_ok_def)
    ultimately show ?thesis unfolding set_readers m(2)
      by (intro Collect_cong ex_the_iff [where f = "\<lambda>st. set (s_read_queue st)"]) blast+
  qed
  moreover have "shutdown_timer s' = Active" "shutdown_timer_due s' = shutdown_timeout_ms s" "shutdown_signum s' = n"
    "rt_shutdown_requested s' = 1" "exit_code s' = exit_code s"
    using s'(7) by (simp_all add: same_control_def rt_shutdown_requested_def ShutdownRequested_def)
  ultimately show ?thesis using s'(1-6)
    by (intro exI [of _ s'] exI [of _ "acceptors s ?ls @ readers s ?rs"]) simp
qed

text \<open>
  C24. What a signal does. A signal that finds no open listener, and a second signal, end the
  process with 128 plus the signal's number. The first signal of a process with open listeners
  shuts down gracefully, whatever the order in which the sets are iterated: every parked
  acceptor and every parked reader completes with \<open>ECANCELED\<close> and no other task changes; every
  listener is closing and the registry is empty; requests in flight (writes, timers, files) go
  on; the deadline is armed with the configured timeout, and the process does not exit. When the
  deadline expires then, it ends with 128 plus the number of that first signal; when another
  signal arrives, with 128 plus the number of that one.
\<close>

theorem signal_outcome:
  assumes "reachable s" and "env_ok env"
  shows "if shutdown_signaled s \<or> listeners s = []
    then \<exists>s'. OnSignal env n s = Inr s' \<and> exit_code s' = Some (128 + n) \<and> h_tasks s' = h_tasks s
    else \<exists>s' ps. OnSignal env n s = Inr s' \<and> h_tasks s' = done_with ps UV_ECANCELED (h_tasks s)
      \<and> set ps = {t. \<exists>l lo. h_listeners s l = Some lo \<and> t \<in> set (l_pending_accepts lo)}
          \<union> {t. \<exists>x st. h_streams s x = Some st \<and> t \<in> set (s_read_queue st)}
      \<and> listeners s' = [] \<and> reading_streams s' = [] \<and> (\<forall>l \<in> set (listeners s). closing_in (h_listeners s') l)
      \<and> uv_pending s' = uv_pending s \<and> shutdown_timer s' = Active \<and> shutdown_timer_due s' = shutdown_timeout_ms s
      \<and> shutdown_signum s' = n \<and> rt_shutdown_requested s' = 1 \<and> exit_code s' = exit_code s
      \<and> exit_code (OnShutdownTimer s') = Some (128 + n)
      \<and> (\<forall>m. \<exists>s''. OnSignal env m s' = Inr s'' \<and> exit_code s'' = Some (128 + m))"
proof (cases "shutdown_signaled s \<or> listeners s = []")
  case True
  then show ?thesis using OnSignal_exit [OF True, of env n] by auto
next
  case False
  then have g: "\<not> shutdown_signaled s" "listeners s \<noteq> []" by simp_all
  obtain s' ps where s': "OnSignal env n s = Inr s'" "h_tasks s' = done_with ps UV_ECANCELED (h_tasks s)"
    "set ps = {t. \<exists>l lo. h_listeners s l = Some lo \<and> t \<in> set (l_pending_accepts lo)}
        \<union> {t. \<exists>x st. h_streams s x = Some st \<and> t \<in> set (s_read_queue st)}"
    "listeners s' = []" "reading_streams s' = []" "\<forall>l \<in> set (listeners s). closing_in (h_listeners s') l"
    "uv_pending s' = uv_pending s" "shutdown_timer s' = Active" "shutdown_timer_due s' = shutdown_timeout_ms s"
    "shutdown_signum s' = n" "rt_shutdown_requested s' = 1" "exit_code s' = exit_code s"
    using first_signal [OF assms(1) g assms(2)] by blast
  have "exit_code (OnShutdownTimer s') = Some (128 + n)" using s'(10) by (simp add: OnShutdownTimer_def)
  moreover have "\<exists>s''. OnSignal env m s' = Inr s'' \<and> exit_code s'' = Some (128 + m)" for m
    using OnSignal_exit [of s' env m] s'(4) by simp
  ultimately show ?thesis using False s' by (simp only: if_False) blast
qed

theorem signal_outcome_witness:
  "(\<exists>s'. OnSignal (wenv 96) 15 v5 = Inr s' \<and> closing_in (h_listeners s') 32 \<and> shutdown_timer_due s' = 30000
      \<and> exit_code (OnShutdownTimer s') = Some 143)
   \<and> (\<exists>s'. OnSignal (wenv 96) 2 v1 = Inr s' \<and> exit_code s' = Some 130)"
proof
  have v5: "\<not> (shutdown_signaled v5 \<or> listeners v5 = [])" "32 \<in> set (listeners v5)" "shutdown_timeout_ms v5 = 30000"
    by (simp_all add: v_defs runtime_init_def)
  show "\<exists>s'. OnSignal (wenv 96) 15 v5 = Inr s' \<and> closing_in (h_listeners s') 32 \<and> shutdown_timer_due s' = 30000
      \<and> exit_code (OnShutdownTimer s') = Some 143"
  proof -
    obtain s' where "OnSignal (wenv 96) 15 v5 = Inr s'" "\<forall>l \<in> set (listeners v5). closing_in (h_listeners s') l"
      "shutdown_timer_due s' = shutdown_timeout_ms v5" "exit_code (OnShutdownTimer s') = Some (128 + 15)"
      using signal_outcome [OF reach_v5 wenv_ok, of 96 15, unfolded if_not_P [OF v5(1)]] by blast
    then show ?thesis using v5(2,3) by auto
  qed
  have "listeners v1 = []" by (simp add: v1_def runtime_init_def)
  then show "\<exists>s'. OnSignal (wenv 96) 2 v1 = Inr s' \<and> exit_code s' = Some 130"
    using signal_outcome [OF reach_v1 wenv_ok, of 96 2] by fastforce
qed

text \<open>
  A listener close that comes after the signal has closed the listener is harmless: it
  completes with 0 and changes nothing else, even if the object is gone.
\<close>

lemma late_listener_close_safe:
  assumes "core {#t#} s" and "h_tasks s t = Some tk" and "t_op tk = ListenerClose" and "t_listener tk \<notin> set (listeners s)"
  shows "\<exists>s'. Dispatch env t s = Inr s' \<and> h_tasks s' = (h_tasks s)(t \<mapsto> completed 0 tk)
    \<and> h_listeners s' = h_listeners s \<and> h_streams s' = h_streams s \<and> core {#} s'"
proof -
  have "core (add_mset t {#}) s" using assms(1) by simp
  from Dispatch_ListenerClose_late [OF this assms(2,4)] obtain s' where s': "Dispatch_ListenerClose t s = Inr s'"
    "core {#} s'" "same_handles s s'" "h_tasks s' = done_with [t] 0 (h_tasks s)" by blast
  then show ?thesis using assms(2,3) same_handles_fields [OF s'(3)]
    by (intro exI [of _ s']) (simp add: Dispatch_def done_with_single)
qed

text \<open>
  C27. An accept has no such guard: one that is queued when the signal comes, and is
  dispatched after libuv has confirmed the close of its listener, reads a freed object.
\<close>

theorem accept_after_signal_uses_freed_listener:
  "reachable v4 \<and> (\<exists>s1 s2. OnSignal (wenv 96) 15 v4 = Inr s1 \<and> enabled (EvListenerClosed 32) s1
     \<and> fire (EvListenerClosed 32) s1 = Inr s2 \<and> OnAsync (\<lambda>i. wenv 96) s2 = Inl (UseAfterFree 32))"
proof -
  let ?s1 = "v4\<lparr>shutdown_signaled := True, shutdown_signum := 15, listeners := [], reading_streams := [],
    h_listeners := [32 \<mapsto> Listener_ctor\<lparr>uv_closing := True\<rparr>],
    shutdown_timer := Active, shutdown_timer_started := True, shutdown_timer_due := 30000\<rparr>"
  let ?s2 = "?s1\<lparr>h_listeners := Map.empty, live := (live v4)(CListener := live v4 CListener - 1)\<rparr>"
  have "OnSignal (wenv 96) 15 v4 = Inr ?s1"
    by (simp add: OnSignal_def abort_listener_def cancel_pending_reads_def put_listener_def Listener_Close_def
        LoopHandle_Close_def v_defs runtime_init_def Listener_ctor_def wenv_fields)
  moreover have "enabled (EvListenerClosed 32) ?s1" by (simp add: closing_in_def Listener_ctor_def)
  moreover have "fire (EvListenerClosed 32) ?s1 = Inr ?s2"
    by (simp add: Listener_OnClosed_def LoopHandle_OnClosed_def Listener_ctor_def Counted_dtor_def)
  moreover have "OnAsync (\<lambda>i. wenv 96) ?s2 = Inl (UseAfterFree 32)"
    by (simp add: drain_eval v_defs runtime_init_def accept_task_def Dispatch_TcpAccept_def)
  ultimately show ?thesis using reach_v4 by blast
qed

end
