(* ===== verification/Process_Theorems.thy ===== *)
theory Process_Theorems
  imports Scenario
begin

text \<open>
  Child processes and watchers: argument vectors survive packing and unpacking, and the
  unpacking stays inside its buffer exactly when the buffer holds as many strings as
  announced; spawning; a wait and an exit, or an event and a request for one, may come in
  either order.
\<close>

section \<open>Argument vectors\<close>

lemma UnpackStrings_pack:
  assumes "\<forall>w \<in> set ws. 0 \<notin> set w" and "length ws < 2 ^ 31 - 1"
  shows "\<exists>offs. UnpackStrings (pack_strings ws) (int (length ws)) = Inr (map Some offs @ [None])
    \<and> map (cstr_at (pack_strings ws)) offs = ws"
proof -
  obtain post where "pack_strings ws = concat (map (\<lambda>w. w @ [0]) ws) @ post" by (cases ws) (simp_all add: pack_strings_eq)
  then show ?thesis using unpack_loop_packed [of ws "[]" post] assms by (auto simp: UnpackStrings_def)
qed

text \<open>
  C28. Round trip of argument and environment vectors: strings without a NUL byte, fewer than
  \<open>INT_MAX\<close> of them, that the client packs reach \<open>uv_spawn\<close> unchanged: the file is the first argument, the argument
  vector and the environment are the lists that were packed.
\<close>

theorem argv_roundtrip:
  assumes "t_buffer tk = pack_strings ws" and "t_argc tk = int (length ws)" and "ws \<noteq> []"
    and "t_env_buf tk = pack_strings es" and "t_envc tk = int (length es)"
    and "\<forall>w \<in> set ws \<union> set es. 0 \<notin> set w" and "length ws < 2 ^ 31 - 1" and "length es < 2 ^ 31 - 1"
  shows "\<exists>argv envp. UnpackStrings (t_buffer tk) (t_argc tk) = Inr argv \<and> UnpackStrings (t_env_buf tk) (t_envc tk) = Inr envp
    \<and> po_file (spawn_options tk argv envp stdio) = Some (hd ws) \<and> po_args (spawn_options tk argv envp stdio) = ws
    \<and> po_env (spawn_options tk argv envp stdio) = Some es"
proof -
  obtain a e where a: "UnpackStrings (pack_strings ws) (int (length ws)) = Inr (map Some a @ [None])"
      "map (cstr_at (pack_strings ws)) a = ws"
    and e: "UnpackStrings (pack_strings es) (int (length es)) = Inr (map Some e @ [None])"
      "map (cstr_at (pack_strings es)) e = es"
    using UnpackStrings_pack [of ws] UnpackStrings_pack [of es] assms(6-8) by blast
  have "a \<noteq> []" using a(2) assms(3) by auto
  then have "map_option (cstr_at (pack_strings ws)) (hd (map Some a @ [None])) = Some (hd (map (cstr_at (pack_strings ws)) a))"
    by (cases a) simp_all
  then show ?thesis using a e assms(1,2,4,5) by (simp add: spawn_options_def cstrs_map)
qed

theorem argv_roundtrip_witness:
  "\<exists>argv. UnpackStrings (pack_strings [[108, 115], [45, 108]]) 2 = Inr argv
    \<and> cstrs (pack_strings [[108, 115], [45, 108]]) argv = [[108, 115], [45, 108]]"
proof -
  let ?tk = "(Task_ctor ProcSpawn)\<lparr>t_buffer := pack_strings [[108, 115], [45, 108]], t_argc := 2,
    t_env_buf := pack_strings [], t_envc := 0\<rparr>"
  show ?thesis
    using argv_roundtrip [of ?tk "[[108, 115], [45, 108]]" "[]" "[]"] by (auto simp: spawn_options_def)
qed

lemma strlen_cases:
  "if 0 \<in> set (drop off buf)
   then \<exists>n. strlen buf off = Inr n \<and> off < length buf
      \<and> count_list (drop off buf) 0 = Suc (count_list (drop (off + n + 1) buf) 0)
   else strlen buf off = Inl BufferOverrun"
proof (cases "0 \<in> set (drop off buf)")
  case True
  from split_list_first [OF this] obtain ys zs where s: "drop off buf = ys @ 0 # zs" "0 \<notin> set ys" by blast
  have t: "takeWhile (\<lambda>b. b \<noteq> 0) (drop off buf) = ys" using s by (simp add: takeWhile_append)
  have "drop (off + length ys + 1) buf = drop (length ys + 1) (drop off buf)" by (simp add: ac_simps)
  then have "drop (off + length ys + 1) buf = zs" by (simp add: s(1))
  moreover have "off < length buf" using True by (cases "off < length buf") simp_all
  moreover have "count_list ys 0 = 0" using s(2) by (simp add: count_list_0_iff)
  ultimately show ?thesis using True t s(1) by (simp add: strlen_def Let_def)
next
  case False
  then have "takeWhile (\<lambda>b. b \<noteq> 0) (drop off buf) = drop off buf" unfolding takeWhile_eq_all_conv by auto
  then have "length (takeWhile (\<lambda>b. b \<noteq> 0) (drop off buf)) = length (drop off buf)" by (rule arg_cong)
  then show ?thesis using False by (simp add: strlen_def Let_def)
qed

lemma unpack_loop_cases:
  "if n \<le> count_list (drop off buf) 0
   then \<exists>offs. unpack_loop buf n off = Inr offs \<and> length offs = n \<and> set offs \<subseteq> {..<length buf}
   else unpack_loop buf n off = Inl BufferOverrun"
proof (induction n arbitrary: off)
  case 0
  then show ?case by simp
next
  case (Suc n)
  show ?case
  proof (cases "0 \<in> set (drop off buf)")
    case False
    then have "count_list (drop off buf) 0 = 0" by (simp add: count_list_0_iff)
    then show ?thesis using strlen_cases [of off buf] False by simp
  next
    case True
    then obtain m where m: "strlen buf off = Inr m" "off < length buf"
      "count_list (drop off buf) 0 = Suc (count_list (drop (off + m + 1) buf) 0)"
      using strlen_cases [of off buf] by auto
    show ?thesis using Suc.IH [of "off + m + 1"] m by (simp split: if_splits) auto
  qed
qed

text \<open>
  C29. Bounds of the unpacking: a count below \<open>-1\<close> throws; with the count \<open>INT_MAX\<close> the sum
  \<open>count + 1\<close> overflows, which is undefined; a buffer with fewer NUL bytes than the count is
  read past its end; in every other case the result has one pointer per string, each inside
  the buffer, and the terminating null pointer.
\<close>

theorem unpack_bounds:
  "case UnpackStrings buf cnt of
     Inl e \<Rightarrow> e = LengthError \<and> cnt < -1 \<or> e = SignedOverflow \<and> 2 ^ 31 - 1 \<le> cnt
       \<or> e = BufferOverrun \<and> int (count_list buf 0) < cnt
   | Inr ps \<Rightarrow> -1 \<le> cnt \<and> cnt < 2 ^ 31 - 1 \<and> cnt \<le> int (count_list buf 0)
       \<and> (\<exists>offs. ps = map Some offs @ [None] \<and> length offs = nat cnt \<and> set offs \<subseteq> {..<length buf})"
proof -
  let ?bad = "cnt + 1 < 0 \<or> 2 ^ 31 \<le> cnt + 1"
  have "?bad \<or> \<not> ?bad \<and> nat cnt \<le> count_list buf 0 \<or> \<not> ?bad \<and> \<not> nat cnt \<le> count_list buf 0"
    by blast
  then show ?thesis
    using unpack_loop_cases [of "nat cnt" 0 buf] by (elim disjE) (auto simp: UnpackStrings_def)
qed

section \<open>Spawning and waiting\<close>

text \<open>The scenario: a process is spawned with captured pipes, and a wait on it is queued and parked.\<close>

definition spawn_task :: task where
  "spawn_task = (fresh_task ProcSpawn 0)\<lparr>t_argc := 1, t_buffer := [108, 115, 0], t_envc := -1, t_stdio_mode := 1\<rparr>"

definition child :: process_obj where
  "child = Process_ctor\<lparr>p_stdin_s := 33, p_stdout_s := 34, p_stderr_s := 35\<rparr>"

definition u2 :: runtime where
  "u2 = w1\<lparr>h_tasks := [16 \<mapsto> spawn_task], live := (\<lambda>_. 0)(CTask := 1), queue := [16], async_sent := True\<rparr>"

definition u3 :: runtime where
  "u3 = w1\<lparr>h_tasks := [16 \<mapsto> completed 32 spawn_task], h_processes := [32 \<mapsto> child],
     h_streams := [33 \<mapsto> Stream_ctor, 34 \<mapsto> Stream_ctor, 35 \<mapsto> Stream_ctor],
     live := (\<lambda>_. 0)(CTask := 1, CProcess := 1, CStream := 3)\<rparr>"

definition wait_task :: task where
  "wait_task = (fresh_task ProcWait 0)\<lparr>t_process := 32\<rparr>"

definition u4 :: runtime where
  "u4 = u3\<lparr>h_tasks := [16 \<mapsto> completed 32 spawn_task, 48 \<mapsto> wait_task],
     live := (\<lambda>_. 0)(CProcess := 1, CStream := 3, CTask := 2), queue := [48], async_sent := True\<rparr>"

definition u5 :: runtime where
  "u5 = u4\<lparr>h_processes := [32 \<mapsto> child\<lparr>p_wait_task := 48\<rparr>], queue := [], async_sent := False\<rparr>"

lemmas u_defs = w1_def u2_def u3_def u4_def u5_def

lemma run_u2: "exec (SubmitTask (wenv 16) ProcSpawn 0
    (\<lambda>tk. tk\<lparr>t_argc := 1, t_buffer := [108, 115, 0], t_envc := -1, t_stdio_mode := 1\<rparr>)) w1 = Inr u2"
  by (simp add: submit_eval u_defs runtime_init_def spawn_task_def)

lemma run_u3: "exec (Async (\<lambda>i. wenv 32)) u2 = Inr u3"
  by (simp add: drain_eval u_defs runtime_init_def spawn_task_def Dispatch_ProcSpawn_def UnpackStrings_def strlen_def
      new_Process_def put_process_def Complete_def as_result_def completed_def child_def wenv_fields)

lemma run_u4: "exec (SubmitTask (wenv 48) ProcWait 0 (\<lambda>tk. tk\<lparr>t_process := 32\<rparr>)) u3 = Inr u4"
  by (simp add: submit_eval u_defs runtime_init_def wait_task_def)

lemma run_u5: "exec (Async (\<lambda>i. wenv 64)) u4 = Inr u5"
  by (simp add: drain_eval u_defs runtime_init_def wait_task_def Dispatch_ProcWait_def put_process_def child_def Process_ctor_def)

lemma reach_u2: "reachable u2"
  by (rule reach_step [OF reach_1 _ _ run_u2])
    (simp_all add: u_defs runtime_init_def fills_def can_submit_def fresh_task_def Task_ctor_def cq_alive_def ready_def
      packed_ok_def UnpackStrings_def strlen_def)

lemma reach_u3: "reachable u3"
  by (rule reach_step [OF reach_u2 _ _ run_u3])
    (simp_all add: u_defs runtime_init_def fresh_envs_def wenv_ok fresh_def addr_used_def)

lemma reach_u4: "reachable u4"
  by (rule reach_step [OF reach_u3 _ _ run_u4])
    (simp_all add: u_defs runtime_init_def fills_def can_submit_def fresh_task_def Task_ctor_def cq_alive_def ready_def
      unwaited_def child_def Process_ctor_def)

lemma reach_u5: "reachable u5"
  by (rule reach_step [OF reach_u4 _ _ run_u5])
    (simp_all add: u_defs runtime_init_def fresh_envs_def wenv_ok fresh_def addr_used_def)

text \<open>
  C30. Spawning. When \<open>uv_spawn\<close> succeeds the task completes with the handle of a running
  process, whose three stream accessors give new open streams if the output is captured and
  null otherwise. When it fails the task completes with the error, and the process object
  and every pipe that was created are closing: nothing leaks.
\<close>

theorem spawn_outcome:
  assumes "dispatch_pre env t tk L s" and "t_op tk = ProcSpawn"
  shows "\<exists>s' argv envp. Dispatch env t s = Inr s' \<and> UnpackStrings (t_buffer tk) (t_argc tk) = Inr argv
    \<and> (if 0 \<le> spawn_answer env tk argv envp
       then h_tasks s' = (h_tasks s)(t \<mapsto> completed (as_result (new_addr env 0)) tk)
         \<and> h_processes s' = (h_processes s)(new_addr env 0 \<mapsto> spawned env tk)
         \<and> rt_proc_stdout (new_addr env 0) s' = Inr (if t_stdio_mode tk = 1 then new_addr env 2 else nullptr)
         \<and> h_streams s' = add_streams (spawned_streams env tk) Stream_ctor (h_streams s)
       else h_tasks s' = (h_tasks s)(t \<mapsto> completed (spawn_answer env tk argv envp) tk)
         \<and> closing_in (h_processes s') (new_addr env 0)
         \<and> (\<forall>x \<in> set (spawned_streams env tk). closing_in (h_streams s') x))"
proof -
  note p = dispatch_preD [OF assms(1)]
  let ?p = "new_addr env 0" let ?xs = "spawned_streams env tk"
  have pk: "packed_ok tk" using p(4) assms(2) by (simp add: ready_def)
  then obtain argv where a: "UnpackStrings (t_buffer tk) (t_argc tk) = Inr argv" by (auto simp: packed_ok_def)
  have "\<exists>envp. (if t_envc tk \<ge> 0 then UnpackStrings (t_env_buf tk) (t_envc tk) else Inr []) = Inr envp"
    using pk by (simp add: packed_ok_def)
  then obtain envp where e: "(if t_envc tk \<ge> 0 then UnpackStrings (t_env_buf tk) (t_envc tk) else Inr []) = Inr envp" ..
  have d: "distinct ?xs" using p(5) by (auto simp: env_ok_def new_addrs_def spawned_streams_def)
  have n: "\<forall>x \<in> set ?xs. h_streams s x = None \<and> x \<noteq> 0"
    using p(6) by (auto simp: fresh_def new_addrs_def spawned_streams_def addr_used_def)
  from Dispatch_ProcSpawn_ok [OF p(1,3) a e refl fresh_addr(3,5) [OF p(6)] refl d n] obtain s' po st r where s':
    "Dispatch_ProcSpawn env t s = Inr s'" "h_processes s' = (h_processes s)(?p \<mapsto> po)"
    "h_streams s' = add_streams ?xs st (h_streams s)" "h_tasks s' = done_with [t] r (h_tasks s)"
    and o: "r < 0 \<and> r = spawn_answer env tk argv envp \<and> po = (spawned env tk)\<lparr>uv_closing := True\<rparr> \<and> st = Stream_ctor\<lparr>uv_closing := True\<rparr>
       \<or> 0 \<le> spawn_answer env tk argv envp \<and> r = as_result ?p \<and> po = spawned env tk \<and> st = Stream_ctor" by blast
  have D: "Dispatch env t s = Inr s'" using s'(1) p(3) assms(2) by (simp add: Dispatch_def)
  have q: "p_stdout_s (spawned env tk) = (if t_stdio_mode tk = 1 then new_addr env 2 else nullptr)"
    by (simp add: spawned_def Process_ctor_def)
  show ?thesis
    using o s'(2-4) D a p(3) q
    by (intro exI [of _ s'] exI [of _ argv] exI [of _ envp])
      (auto simp: done_with_single rt_proc_stdout_def closing_in_def add_streams_def)
qed

theorem spawn_outcome_witness:
  "\<exists>s'. Dispatch (wenv 32) 16 (u2\<lparr>queue := []\<rparr>) = Inr s' \<and> rt_proc_stdout 32 s' = Inr 34"
proof -
  have f: "fresh (wenv 32) u2" by (simp add: u_defs runtime_init_def fresh_def addr_used_def)
  have w: "queue u2 = [16]" "h_tasks u2 16 = Some spawn_task" "t_op spawn_task = ProcSpawn" "t_stdio_mode spawn_task = 1"
    by (simp_all add: u_defs spawn_task_def fresh_task_def Task_ctor_def)
  have "0 \<le> spawn_answer (wenv 32) spawn_task argv envp" for argv envp by (simp add: spawn_answer_def wenv_fields)
  then show ?thesis using spawn_outcome [OF head_pre [OF reach_u2 w(1,2) wenv_ok f] w(3)] w(4) by auto
qed

text \<open>
  C31. Waiting and exiting commute: whether a process exits before its wait is dispatched or
  after, the waiter completes with the exit status, and tasks and processes end up the same.
\<close>

theorem wait_and_exit_commute:
  assumes "dispatch_pre env t tk L s" and "t_op tk = ProcWait" and "h_processes s (t_process tk) = Some po" and "\<not> p_exited po"
  shows "\<exists>s1 s2 s3 s4. Dispatch env t s = Inr s1 \<and> on_process_exit (t_process tk) st sg s1 = Inr s2
    \<and> on_process_exit (t_process tk) st sg s = Inr s3 \<and> Dispatch env t s3 = Inr s4
    \<and> h_tasks s2 = h_tasks s4 \<and> h_processes s2 = h_processes s4
    \<and> h_tasks s4 = (h_tasks s)(t \<mapsto> completed st tk)"
proof -
  note p = dispatch_preD [OF assms(1)]
  let ?p = "t_process tk"
  let ?po = "po\<lparr>p_exited := True, p_exit_status := st, p_term_signal := sg\<rparr>"
  have w: "p_wait_task po = nullptr" using p(4) assms(2,3) by (simp add: ready_def unwaited_def)
  obtain s1 where s1: "Dispatch_ProcWait t s = Inr s1" "core L s1"
    "h_processes s1 = (h_processes s)(?p \<mapsto> po\<lparr>p_wait_task := t\<rparr>)" "h_tasks s1 = h_tasks s"
    using Dispatch_ProcWait_ok [OF p(1,3) refl assms(3)] w assms(4) by auto
  have e: "?po\<lparr>p_wait_task := nullptr\<rparr> = ?po" using w by simp
  obtain s2 where s2: "on_process_exit ?p st sg s1 = Inr s2" "h_processes s2 = (h_processes s)(?p \<mapsto> ?po\<lparr>p_wait_task := nullptr\<rparr>)"
    "h_tasks s2 = done_with [t] st (h_tasks s)"
    using on_process_exit_ok [OF s1(2), of ?p "po\<lparr>p_wait_task := t\<rparr>" st sg] s1(3,4) core_local_nonnull [OF p(1)] w by auto
  obtain s3 where s3: "on_process_exit ?p st sg s = Inr s3" "core (add_mset t L) s3"
    "h_processes s3 = (h_processes s)(?p \<mapsto> ?po\<lparr>p_wait_task := nullptr\<rparr>)" "h_tasks s3 = h_tasks s"
    using on_process_exit_ok [OF p(1) assms(3), of st sg] w by auto
  note p3 = s3(3) [unfolded e]
  have t3: "h_tasks s3 t = Some tk" "h_processes s3 ?p = Some ?po" using p3 s3(4) p(3) by simp_all
  obtain s4 where s4: "Dispatch_ProcWait t s3 = Inr s4" "h_processes s4 = h_processes s3"
    "h_tasks s4 = done_with [t] st (h_tasks s3)"
    using Dispatch_ProcWait_ok [OF s3(2) t3(1) refl t3(2)] by auto
  show ?thesis using s1(1) s2 s3(1,3,4) s4 t3(1) p(3) assms(2)
    by (intro exI [of _ s1] exI [of _ s2] exI [of _ s3] exI [of _ s4]) (simp add: Dispatch_def done_with_single)
qed

theorem wait_and_exit_commute_witness:
  "\<exists>s1 s2. Dispatch (wenv 64) 48 (u4\<lparr>queue := []\<rparr>) = Inr s1 \<and> on_process_exit 32 7 0 s1 = Inr s2
    \<and> h_tasks s2 48 = Some (completed 7 wait_task)"
proof -
  have f: "fresh (wenv 64) u4" by (simp add: u_defs runtime_init_def fresh_def addr_used_def)
  have w: "queue u4 = [48]" "h_tasks u4 48 = Some wait_task" "t_op wait_task = ProcWait" "t_process wait_task = 32"
    by (simp_all add: u_defs wait_task_def fresh_task_def Task_ctor_def)
  have h: "h_processes (u4\<lparr>queue := []\<rparr>) (t_process wait_task) = Some child" "\<not> p_exited child"
    unfolding w(4) by (simp_all add: u_defs child_def Process_ctor_def)
  from wait_and_exit_commute [OF head_pre [OF reach_u4 w(1,2) wenv_ok f] w(3) h, of 7 0] show ?thesis
    unfolding w(4) by auto
qed

text \<open>
  C32. The wait slot is not guarded, so a parked wait can be lost in two ways: a second wait
  that is dispatched while the process runs takes its place, and closing the process deletes
  the object without completing it. Either way the first waiter stays uncompleted and is held
  by nothing any more, so that no later callback can complete it.
\<close>

theorem parked_wait_lost:
  assumes "core {#t#} s" and "h_tasks s t = Some tk" and "h_processes s (t_process tk) = Some po"
    and "\<not> p_exited po" and "\<not> uv_closing po" and "close_task po = nullptr" and "p_wait_task po \<noteq> nullptr"
  shows "(t_op tk = ProcWait \<longrightarrow>
      (\<exists>s'. Dispatch env t s = Inr s' \<and> p_wait_task po \<in> undone (h_tasks s') \<and> p_wait_task po \<notin># held s'))
    \<and> (t_op tk = ProcClose \<longrightarrow>
      (\<exists>s1 s'. Dispatch env t s = Inr s1 \<and> Process_OnClosed (t_process tk) s1 = Inr s'
        \<and> p_wait_task po \<in> undone (h_tasks s') \<and> p_wait_task po \<notin># held s'))"
proof (intro conjI impI)
  assume "t_op tk = ProcWait"
  then show "\<exists>s'. Dispatch env t s = Inr s' \<and> p_wait_task po \<in> undone (h_tasks s') \<and> p_wait_task po \<notin># held s'"
    using ProcWait_drops_waiter [OF assms(1,2) refl assms(3,4) refl assms(7)] assms(2) by (simp add: Dispatch_def)
next
  assume op: "t_op tk = ProcClose"
  let ?po = "po\<lparr>close_task := t, uv_closing := True\<rparr>"
  obtain s1 where s1: "Dispatch_ProcClose t s = Inr s1" "core {#} s1" "h_processes s1 (t_process tk) = Some ?po"
    using Dispatch_ProcClose_ok [OF assms(1,2) refl assms(3,5,6)] by auto
  have "Dispatch env t s = Inr s1" using s1(1) op assms(2) by (simp add: Dispatch_def)
  moreover have "p_wait_task ?po = p_wait_task po" by simp
  ultimately show "\<exists>s1 s'. Dispatch env t s = Inr s1 \<and> Process_OnClosed (t_process tk) s1 = Inr s'
      \<and> p_wait_task po \<in> undone (h_tasks s') \<and> p_wait_task po \<notin># held s'"
    using OnClosed_drops_waiter [OF s1(2,3) _ assms(7)] by blast
qed

definition u6 :: runtime where
  "u6 = u5\<lparr>h_tasks := [16 \<mapsto> completed 32 spawn_task, 48 \<mapsto> wait_task, 80 \<mapsto> wait_task],
     live := (\<lambda>_. 0)(CProcess := 1, CStream := 3, CTask := 3)\<rparr>"

lemma core_u6: "core {#80#} u6"
  by (rule core_new_task [OF invD(1) [OF reachable_inv [OF reach_u5]], where tk = wait_task])
    (simp_all add: u6_def u_defs runtime_init_def wait_task_def fresh_task_def Task_ctor_def cq_alive_def retained_def
      same_loop_def)

theorem parked_wait_lost_witness:
  "\<exists>s'. Dispatch (wenv 96) 80 u6 = Inr s' \<and> 48 \<in> undone (h_tasks s') \<and> 48 \<notin># held s'"
proof -
  have "h_tasks u6 80 = Some wait_task" "t_op wait_task = ProcWait" "t_process wait_task = 32"
    "h_processes u6 32 = Some (child\<lparr>p_wait_task := 48\<rparr>)" "\<not> p_exited child" "\<not> uv_closing child" "close_task child = nullptr"
    by (simp_all add: u6_def u_defs wait_task_def fresh_task_def Task_ctor_def child_def Process_ctor_def)
  then show ?thesis using parked_wait_lost [OF core_u6, of wait_task _ "wenv 96"] by fastforce
qed

text \<open>
  C33. The handle objects are well formed in every reachable state: a waiter sits only on a
  process that runs and is open, and a request for an event only on an open watcher with an
  empty event queue; both slots hold uncompleted tasks; and the close slot of a stream, a
  process or a watcher is empty unless the handle is closing.
\<close>

theorem handles_well_formed:
  assumes "reachable s"
  shows "(\<forall>p po. h_processes s p = Some po \<longrightarrow> p_wait_task po \<noteq> nullptr
      \<longrightarrow> \<not> p_exited po \<and> \<not> uv_closing po \<and> p_wait_task po \<in> undone (h_tasks s))
    \<and> (\<forall>w wo. h_watchers s w = Some wo \<longrightarrow> w_pending_next wo \<noteq> nullptr
      \<longrightarrow> w_events wo = [] \<and> \<not> uv_closing wo \<and> w_pending_next wo \<in> undone (h_tasks s))
    \<and> (\<forall>x st. h_streams s x = Some st \<longrightarrow> close_task st \<noteq> nullptr \<longrightarrow> uv_closing st)
    \<and> (\<forall>p po. h_processes s p = Some po \<longrightarrow> close_task po \<noteq> nullptr \<longrightarrow> uv_closing po)
    \<and> (\<forall>w wo. h_watchers s w = Some wo \<longrightarrow> close_task wo \<noteq> nullptr \<longrightarrow> uv_closing wo)"
proof -
  note d = invD [OF reachable_inv [OF assms]]
  note i = struct_invD [OF d(2)]
  show ?thesis
  proof (intro conjI allI impI)
    fix p po assume a: "h_processes s p = Some po" "p_wait_task po \<noteq> nullptr"
    show "\<not> p_exited po" "\<not> uv_closing po" using processes_okD(1,2) [OF i(4) a(1)] a(2) by blast+
    show "p_wait_task po \<in> undone (h_tasks s)" using waiter_undone [OF d(1) a] by simp
  next
    fix w wo assume a: "h_watchers s w = Some wo" "w_pending_next wo \<noteq> nullptr"
    show "w_events wo = []" "\<not> uv_closing wo" using watchers_okD [OF i(5) a(1)] a(2) by blast+
    show "w_pending_next wo \<in> undone (h_tasks s)" using next_undone [OF d(1) a] by simp
  next
    fix x st assume "h_streams s x = Some st" "close_task st \<noteq> nullptr"
    then show "uv_closing st" using i(2) by (auto simp: close_slots_ok_def)
  next
    fix p po assume "h_processes s p = Some po" "close_task po \<noteq> nullptr"
    then show "uv_closing po" using processes_okD(3) [OF i(4)] by blast
  next
    fix w wo assume "h_watchers s w = Some wo" "close_task wo \<noteq> nullptr"
    then show "uv_closing wo" using watchers_okD [OF i(5)] by blast
  qed
qed

theorem handles_well_formed_witness:
  "h_processes u5 32 = Some (child\<lparr>p_wait_task := 48\<rparr>) \<and> 48 \<in> undone (h_tasks u5)"
proof -
  have "h_processes u5 32 = Some (child\<lparr>p_wait_task := 48\<rparr>)" by (simp add: u_defs)
  then show ?thesis using handles_well_formed [OF reach_u5] by fastforce
qed

section \<open>Watchers\<close>














text \<open>
  Asking a watcher for the next event: \<open>EBUSY\<close> when another request is parked, else the
  event that has been queued longest (its code as the result, its file name as the string
  result), else the request is parked. No other task changes.
\<close>

lemma watch_next_outcome:
  assumes "dispatch_pre env t tk L s" and "t_op tk = FsWatchNext" and "h_watchers s (t_watcher tk) = Some wo"
  shows "\<exists>s'. Dispatch env t s = Inr s' \<and>
    (if w_pending_next wo \<noteq> nullptr then h_tasks s' = (h_tasks s)(t \<mapsto> completed UV_EBUSY tk) \<and> h_watchers s' = h_watchers s
     else case w_events wo of
       (name, ev) # es \<Rightarrow> h_tasks s' = (h_tasks s)(t \<mapsto> completed ev (tk\<lparr>t_str_out := name\<rparr>))
         \<and> h_watchers s' = (h_watchers s)(t_watcher tk \<mapsto> wo\<lparr>w_events := es\<rparr>)
     | [] \<Rightarrow> h_tasks s' = h_tasks s \<and> h_watchers s' = (h_watchers s)(t_watcher tk \<mapsto> wo\<lparr>w_pending_next := t\<rparr>))"
proof -
  note p = dispatch_preD [OF assms(1)]
  obtain s' wo' where s': "Dispatch_FsWatchNext t s = Inr s'" "h_watchers s' = (h_watchers s)(t_watcher tk \<mapsto> wo')"
    and o: "w_pending_next wo \<noteq> nullptr \<and> wo' = wo \<and> h_tasks s' = done_with [t] UV_EBUSY (h_tasks s)
       \<or> w_pending_next wo = nullptr \<and> (\<exists>name ev es. w_events wo = (name, ev) # es
          \<and> wo' = wo\<lparr>w_events := es\<rparr>
          \<and> h_tasks s' = (h_tasks s)(t \<mapsto> completed ev (tk\<lparr>t_str_out := name\<rparr>)))
       \<or> w_pending_next wo = nullptr \<and> w_events wo = [] \<and> wo' = wo\<lparr>w_pending_next := t\<rparr>
          \<and> h_tasks s' = h_tasks s"
    using Dispatch_FsWatchNext_ok [OF p(1,3) refl assms(3)] by blast
  have D: "Dispatch env t s = Inr s'" using s'(1) p(3) assms(2) by (simp add: Dispatch_def)
  have "(h_watchers s)(t_watcher tk \<mapsto> wo) = h_watchers s" using assms(3) by (rule fun_upd_idem)
  then show ?thesis using D s'(2) o p(3) by (intro exI [of _ s']) (elim disjE, auto simp: done_with_single)
qed






end
