(* ===== verification/Lifecycle.thy ===== *)
theory Lifecycle
  imports System
begin

text \<open>
  The loop's own handles over the whole life of the runtime (\<^verbatim>\<open>runtime.cpp\<close> \<open>Start\<close>, \<open>Stop\<close>,
  \<open>Drain\<close>, \<open>OnSignal\<close>): the signal watchers are active only while the wake-up handle is and
  only if the runtime exits on signals, and the deadline timer only after it was started. So
  the wind-down closes whatever of them is active, and they never keep the loop from ending.
\<close>

definition armed_ok :: "runtime \<Rightarrow> bool" where
  "armed_ok s \<longleftrightarrow> (sig_int s = Active \<or> sig_term s = Active \<longrightarrow> async s = Active \<and> exit_on_signal s)
     \<and> (shutdown_timer s = Active \<longrightarrow> shutdown_timer_started s)"

definition same_gear :: "runtime \<Rightarrow> runtime \<Rightarrow> bool" where
  "same_gear s s' \<longleftrightarrow> async s' = async s \<and> sig_int s' = sig_int s \<and> sig_term s' = sig_term s
     \<and> exit_on_signal s' = exit_on_signal s \<and> shutdown_timer s' = shutdown_timer s
     \<and> shutdown_timer_started s' = shutdown_timer_started s"

lemma armed_gear: "same_gear s s' \<Longrightarrow> armed_ok s \<Longrightarrow> armed_ok s'"
  by (simp add: same_gear_def armed_ok_def)

lemma gear_control: "same_control s s' \<Longrightarrow> same_gear s s'"
  by (simp add: same_control_def same_gear_def)

lemma gear_loop: "same_loop s s' \<Longrightarrow> same_gear s s'"
  by (simp add: same_loop_def same_gear_def)

section \<open>Submission and the queues\<close>

lemma submit_gear: "fill_submit env f (Inr s1) = Inr (t, s') \<Longrightarrow> same_gear s1 s'"
  by (cases "h_tasks s1 (new_addr env 0)")
    (auto simp: fill_submit_def Submit_handle_def Submit_def uv_async_send_def put_task_def same_gear_def split: if_splits)

lemma gear_trans: "same_gear s s1 \<Longrightarrow> same_gear s1 s2 \<Longrightarrow> same_gear s s2"
  by (simp add: same_gear_def)

lemma Submit_gear:
  assumes a: "allowed (SubmitTask env op cq f) s" and e: "exec (SubmitTask env op cq f) s = Inr s'"
  shows "same_gear s s'"
proof -
  have "cq_alive cq s" using a by (auto simp: can_submit_def fills_def)
  from new_task_ok [OF refl this, of env op] obtain s1 where s1: "new_task env op cq s = Inr s1" "same_loop s s1" by blast
  from e s1(1) obtain t where "fill_submit env f (Inr s1) = Inr (t, s')"
    by (cases "fill_submit env f (Inr s1)") auto
  from gear_trans [OF gear_loop [OF s1(2)] submit_gear [OF this]] show ?thesis .
qed

lemma SubmitPinned_gear:
  assumes a: "allowed (SubmitPinned env op cq bv start n f) s" and e: "exec (SubmitPinned env op cq bv start n f) s = Inr s'"
  shows "same_gear s s'"
proof -
  have "cq_alive cq s" using a by (auto simp: can_submit_def fills_def)
  from new_pinned_task_ok [OF refl this, of env op bv start n] obtain s1 where
    s1: "new_pinned_task env op cq bv start n s = Inr s1" "same_loop s s1" by blast
  from e s1(1) obtain t where "fill_submit env f (Inr s1) = Inr (t, s')"
    by (cases "fill_submit env f (Inr s1)") auto
  from gear_trans [OF gear_loop [OF s1(2)] submit_gear [OF this]] show ?thesis .
qed

lemma FreeTask_gear: "exec (FreeTask t) s = Inr s' \<Longrightarrow> same_gear s s'"
  by (cases "h_tasks s t") (auto simp: rt_task_free_def Counted_dtor_def same_gear_def Let_def split: if_splits)

lemma CqFree_gear: "exec (CqFree q) s = Inr s' \<Longrightarrow> same_gear s s'"
  by (cases "h_cqs s q") (auto simp: rt_cq_free_def Release_def Counted_dtor_def same_gear_def split: if_splits)

lemma CqPop_gear:
  "exec (CqWait q) s = Inr s' \<Longrightarrow> same_gear s s'" "exec (CqTryPop q) s = Inr s' \<Longrightarrow> same_gear s s'"
  by (cases "h_cqs s q"; auto simp: rt_cq_wait_def rt_cq_try_pop_def WaitOne_def TryPop_def same_gear_def
      split: option.splits)+

section \<open>Callbacks, wake-ups and signals\<close>

lemma Event_armed:
  assumes i: "inv s" and a: "enabled ev s" and e: "fire ev s = Inr s'" and k: "armed_ok s"
  shows "armed_ok s'"
  using fire_ok [OF invD(1-3) [OF i] a] e armed_gear [OF gear_control _ ] k by (auto simp: event_ok_def)

lemma Async_armed:
  assumes i: "inv s" and a: "allowed (Async envs) s" and e: "exec (Async envs) s = Inr s'" and k: "armed_ok s"
  shows "armed_ok s'"
proof -
  note d = invD [OF i]
  let ?s = "s\<lparr>async_sent := False\<rparr>"
  have c: "core {#} ?s" "struct_inv ?s" using d by (simp_all add: core_control struct_control)
  have b: "batch_ok (queue ?s) ?s" using d(4) batch_ok_cong [of ?s s] by simp
  have f: "fresh_envs envs (length (queue ?s)) ?s" using a by (simp add: fresh_envs_def fresh_def addr_used_def)
  have l: "async ?s = Active" "exit_on_signal ?s \<longrightarrow> sig_int ?s = Active \<and> sig_term ?s = Active"
    "shutdown_timer_started ?s \<longrightarrow> shutdown_timer ?s = Active"
    using a d(5) by (simp_all add: life_ok_def)
  have D: "if stopping s then async s' = Closed \<and> \<not> shutdown_timer_started s'
         \<and> (exit_on_signal s' \<longrightarrow> sig_int s' = Closed \<and> sig_term s' = Closed)
       else same_control (?s\<lparr>queue := []\<rparr>) s'"
    and G: "stopping s \<longrightarrow> exit_on_signal s' = exit_on_signal s
         \<and> (\<not> exit_on_signal s \<longrightarrow> sig_int s' = sig_int s \<and> sig_term s' = sig_term s)
         \<and> (shutdown_timer s' = Active \<longrightarrow> shutdown_timer s = Active \<and> \<not> shutdown_timer_started s)"
    using Drain_ok [OF c b f l] e by (auto simp: OnAsync_def)
  show ?thesis
  proof (cases "stopping s")
    case True
    then show ?thesis using D G k by (auto simp: armed_ok_def)
  next
    case False
    then have "same_gear s s'" using D gear_control by (fastforce simp: same_gear_def)
    then show ?thesis using k by (rule armed_gear)
  qed
qed

lemma Signal_armed:
  assumes i: "inv s" and a: "allowed (Signal env n) s" and e: "exec (Signal env n) s = Inr s'" and k: "armed_ok s"
  shows "armed_ok s'"
proof (cases "shutdown_signaled s \<or> listeners s = []")
  case True
  then show ?thesis using OnSignal_exit [OF True, of env n] e k by (auto simp: armed_ok_def)
next
  case False
  have "env_ok env" using a by simp
  then show ?thesis using OnSignal_graceful [OF invD(1,2) [OF i], of env n] False e k
    by (auto simp: armed_ok_def same_control_def)
qed

lemma Start_armed:
  assumes "allowed StartRt s" and "armed_ok s"
  shows "armed_ok (Start s)"
proof (cases "running s")
  case True
  then show ?thesis using assms(2) by (simp add: Start_def)
next
  case False
  then have "sig_int s \<noteq> Active" "sig_term s \<noteq> Active" "shutdown_timer s \<noteq> Active"
    using assms(1) by (simp_all add: uv_loop_alive_def)
  then show ?thesis using False by (simp add: Start_def Let_def armed_ok_def)
qed

section \<open>Every reachable state\<close>

lemma exec_armed:
  assumes i: "inv s" and a: "allowed act s" and e: "exec act s = Inr s'" and k: "armed_ok s"
  shows "armed_ok s'"
proof (cases act)
  case (Event ev)
  then show ?thesis using Event_armed [OF i _ _ k] a e by simp
next
  case (Async envs)
  then show ?thesis using Async_armed [OF i _ _ k] a e by blast
next
  case (Signal env n)
  then show ?thesis using Signal_armed [OF i _ _ k] a e by blast
next
  case StartRt
  then show ?thesis using Start_armed [OF _ k] a e by (simp add: rt_runtime_start_def)
next
  case StopRt
  then show ?thesis using e k by (auto simp: rt_runtime_stop_def Stop_def uv_async_send_def armed_ok_def split: if_splits)
next
  case (SetExitOnSignal on)
  then show ?thesis using a e k by (auto simp: rt_runtime_exit_on_signal_def ExitOnSignal_def armed_ok_def)
next
  case (SubmitTask env op cq f)
  then show ?thesis using armed_gear [OF Submit_gear k] a e by blast
next
  case (SubmitPinned env op cq bv start n f)
  then show ?thesis using armed_gear [OF SubmitPinned_gear k] a e by blast
next
  case (FreeTask t)
  then show ?thesis using armed_gear [OF FreeTask_gear k] e by blast
next
  case (CqFree q)
  then show ?thesis using armed_gear [OF CqFree_gear k] e by blast
next
  case (CqWait q)
  then show ?thesis using armed_gear [OF CqPop_gear(1) k] e by blast
next
  case (CqTryPop q)
  then show ?thesis using armed_gear [OF CqPop_gear(2) k] e by blast
next
  case (CqCreate env)
  then show ?thesis using e k by (auto simp: rt_cq_create_def Counted_ctor_def armed_ok_def)
next
  case Deadline
  then show ?thesis using e k by (auto simp: OnShutdownTimer_def armed_ok_def)
next
  case (SetTimeout ms)
  then show ?thesis using e k by (auto simp: rt_shutdown_timeout_def SetShutdownTimeout_def armed_ok_def)
qed

lemma reachable_armed: "reachable s \<Longrightarrow> armed_ok s"
proof (induction rule: reachable.induct)
  case reach_init
  show ?case by (simp add: armed_ok_def runtime_init_def)
next
  case (reach_step s a s')
  then show ?case using exec_armed [OF reachable_inv] by blast
qed

section \<open>Stopping\<close>

text \<open>Nothing but the loop's own handles keeps \<open>uv_run\<close> from returning.\<close>

definition loop_idle :: "runtime \<Rightarrow> bool" where
  "loop_idle s \<longleftrightarrow> uv_pending s = []
     \<and> (\<forall>x st. h_streams s x = Some st \<longrightarrow> \<not> uv_reading st \<and> \<not> uv_closing st)
     \<and> h_listeners s = Map.empty
     \<and> (\<forall>p po. h_processes s p = Some po \<longrightarrow> p_exited po \<and> \<not> uv_closing po)
     \<and> h_watchers s = Map.empty"

lemma loop_alive_iff:
  "uv_loop_alive s \<longleftrightarrow> async s = Active \<or> sig_int s = Active \<or> sig_term s = Active \<or> shutdown_timer s = Active
     \<or> \<not> loop_idle s"
proof -
  have "(\<exists>l lo. h_listeners s l = Some lo) \<longleftrightarrow> h_listeners s \<noteq> Map.empty"
    "(\<exists>w wo. h_watchers s w = Some wo) \<longleftrightarrow> h_watchers s \<noteq> Map.empty" by (auto simp: fun_eq_iff)
  then show ?thesis unfolding uv_loop_alive_def loop_idle_def by blast
qed

end
