(* ===== verification/Request_Theorems.thy ===== *)
theory Request_Theorems
  imports Scenario Lifecycle
begin

text \<open>
  One-shot requests, completion queues, pinned buffers and the end of the loop: the answer of
  a name lookup against a reference definition, the two phases of a timer, the file operations
  from dispatch to what the client reads, the order in which a completion queue hands out tasks, how long a bytevector stays locked, and when \<open>Stop\<close>
  returns.
\<close>

section \<open>Name lookups\<close>

text \<open>The reference: every element once, where it occurs first.\<close>

definition first_occurrences :: "'a list \<Rightarrow> 'a list" where
  "first_occurrences xs = rev (remdups (rev xs))"

lemma collect_names_first:
  "distinct names \<Longrightarrow> collect_names env res names = first_occurrences (names @ List.map_filter (ai_name env) res)"
proof (induction env res names rule: collect_names.induct)
  case (1 env names)
  then show ?case by (simp add: first_occurrences_def map_filter_simps distinct_remdups_id)
next
  case (2 env ai res names)
  have app: "remdups (xs @ ys) = remdups (xs @ remdups ys)" for xs ys :: "string list" by (simp add: remdups_append2)
  show ?case
  proof (cases "ai_name env ai")
    case None
    then show ?thesis using 2 by (simp add: map_filter_simps)
  next
    case (Some ip)
    let ?r = "rev (List.map_filter (ai_name env) res)"
    have "remdups (?r @ ip # rev names) = remdups (?r @ rev (if ip \<in> set names then names else names @ [ip]))"
      using app [of ?r "ip # rev names"] app [of ?r "rev names"] by simp
    then show ?thesis using 2 Some by (simp add: map_filter_simps first_occurrences_def)
  qed
qed

text \<open>The scenarios: a lookup in flight, and a timer that is queued.\<close>

definition lookup_task :: task where
  "lookup_task = (fresh_task DnsResolve 0)\<lparr>t_path := ''localhost'', t_family := 4\<rparr>"

definition n2 :: runtime where
  "n2 = w1\<lparr>h_tasks := [16 \<mapsto> lookup_task], live := (\<lambda>_. 0)(CTask := 1), queue := [16], async_sent := True\<rparr>"

definition n3 :: runtime where
  "n3 = n2\<lparr>queue := [], async_sent := False, uv_pending := [AddrReq 16 ''localhost'' None AF_INET]\<rparr>"

definition timer_task :: task where
  "timer_task = (fresh_task Timer 0)\<lparr>t_timeout_ms := 250\<rparr>"

definition m2 :: runtime where
  "m2 = w1\<lparr>h_tasks := [16 \<mapsto> timer_task], live := (\<lambda>_. 0)(CTask := 1), queue := [16], async_sent := True\<rparr>"

lemma run_n2: "exec (SubmitTask (wenv 16) DnsResolve 0 (\<lambda>tk. tk\<lparr>t_path := ''localhost'', t_family := 4\<rparr>)) w1 = Inr n2"
  by (simp add: submit_eval w1_def n2_def runtime_init_def lookup_task_def)

lemma run_n3: "exec (Async (\<lambda>i. wenv 32)) n2 = Inr n3"
  by (simp add: drain_eval w1_def n2_def n3_def runtime_init_def lookup_task_def Dispatch_DnsResolve_def uv_request_def)
    (simp add: wenv_def)

lemma run_m2: "exec (SubmitTask (wenv 16) Timer 0 (\<lambda>tk. tk\<lparr>t_timeout_ms := 250\<rparr>)) w1 = Inr m2"
  by (simp add: submit_eval w1_def m2_def runtime_init_def timer_task_def)

lemma reach_n2: "reachable n2"
  by (rule reach_step [OF reach_1 _ _ run_n2])
    (simp_all add: w1_def runtime_init_def fills_def can_submit_def fresh_task_def Task_ctor_def cq_alive_def ready_def)

lemma reach_n3: "reachable n3"
  by (rule reach_step [OF reach_n2 _ _ run_n3])
    (simp_all add: w1_def n2_def runtime_init_def fresh_envs_def wenv_ok fresh_def addr_used_def)

lemma reach_m2: "reachable m2"
  by (rule reach_step [OF reach_1 _ _ run_m2])
    (simp_all add: w1_def runtime_init_def fills_def can_submit_def fresh_task_def Task_ctor_def cq_alive_def ready_def)

text \<open>
  C36. The answer of a name lookup: the printed addresses of the answer's IPv4 and IPv6
  entries, each once and in the order of their first occurrence; the first is the string
  result. With no such entry the result is \<open>EAI_NONAME\<close>, and an error is passed on.
\<close>

theorem dns_answer:
  assumes "reachable s" and "enabled (EvAddrInfo env t n v f status res) s" and "h_tasks s t = Some tk" and "t_names tk = []"
    and "ns = first_occurrences (List.map_filter (ai_name env) res)"
  shows "\<exists>s'. fire (EvAddrInfo env t n v f status res) s = Inr s' \<and> h_tasks s' = (h_tasks s)(t \<mapsto>
      if status \<noteq> 0 then completed status tk
      else if ns = [] then completed UV_EAI_NONAME tk
      else completed 0 (tk\<lparr>t_names := ns, t_str_out := hd ns\<rparr>))"
proof -
  let ?u = "unpend (AddrReq t n v f) s"
  have c: "core (add_mset t {#}) ?u"
    using unpend_core [OF invD(1) [OF reachable_inv [OF assms(1)]], of "AddrReq t n v f"] assms(2) by simp
  have ns: "ns = collect_names env res (t_names tk)" using collect_names_first [of "[]" env res] assms(4,5) by simp
  have tk: "h_tasks ?u t = Some tk" using assms(3) by simp
  have "resolved [] tk = tk" using assms(4) by (simp add: resolved_def)
  then show ?thesis using on_getaddrinfo_ok [OF c tk ns, of status]
    by (auto simp: resolved_def simp del: fun_upd_apply)
qed

theorem dns_answer_witness:
  "\<exists>s'. fire (EvAddrInfo (wenv 64) 16 ''localhost'' None AF_INET 0 [(AF_INET, [1]), (AF_OTHER 1, []), (AF_INET, [2])]) n3 = Inr s'
    \<and> h_tasks s' 16 = Some (completed 0 (lookup_task\<lparr>t_names := [''127.0.0.1''], t_str_out := ''127.0.0.1''\<rparr>))"
proof -
  let ?res = "[(AF_INET, [1]), (AF_OTHER 1, []), (AF_INET, [2])]"
  have e: "enabled (EvAddrInfo (wenv 64) 16 ''localhost'' None AF_INET 0 ?res) n3" by (simp add: n3_def)
  have t: "h_tasks n3 16 = Some lookup_task" "t_names lookup_task = []"
    by (simp_all add: n3_def n2_def lookup_task_def fresh_task_def Task_ctor_def)
  have "[''127.0.0.1''] = first_occurrences (List.map_filter (ai_name (wenv 64)) ?res)"
    by (simp add: first_occurrences_def map_filter_simps ai_name_def wenv_def)
  from dns_answer [OF reach_n3 e t this] show ?thesis by auto
qed

section \<open>Timers\<close>

text \<open>
  C37. A timer has two phases: the dispatch arms it with the task's timeout; when it fires,
  the task is not complete yet, the timer cannot fire again and only begins to close; when
  the close is confirmed the task completes with 0, and libuv holds nothing of it.
\<close>

theorem timer_two_phases:
  assumes "dispatch_pre env t tk {#} s" and "t_op tk = Timer"
  shows "\<exists>s1 s2 s3. Dispatch env t s = Inr s1 \<and> uv_pending s1 = uv_pending s @ [TimerReq t (t_timeout_ms tk)]
    \<and> fire (EvTimer t (t_timeout_ms tk)) s1 = Inr s2 \<and> h_tasks s2 = h_tasks s
    \<and> \<not> enabled (EvTimer t (t_timeout_ms tk)) s2 \<and> enabled (EvTimerClosed t) s2
    \<and> fire (EvTimerClosed t) s2 = Inr s3 \<and> h_tasks s3 = (h_tasks s)(t \<mapsto> completed 0 tk) \<and> uv_pending s3 = uv_pending s"
proof -
  note p = dispatch_preD [OF assms(1)]
  have n: "\<forall>q \<in> set (uv_pending s). req_task q \<noteq> t" using baseD(1) [OF base_pre [OF assms(1)]] .
  let ?ms = "t_timeout_ms tk"
  define s1 where "s1 = uv_request (TimerReq t ?ms) s"
  define s2 where "s2 = uv_request (TimerClosing t) (unpend (TimerReq t ?ms) s1)"
  have c1: "core {#} s1" unfolding s1_def by (rule uv_request_core(1) [OF p(1)]) simp
  have c1': "core (add_mset t {#}) (unpend (TimerReq t ?ms) s1)"
    using unpend_core [OF c1, of "TimerReq t ?ms"] by (simp add: s1_def uv_request_def)
  have c2: "core {#} s2" unfolding s2_def by (rule uv_request_core(1) [OF c1']) simp
  have q1: "TimerReq t ?ms \<notin> set (uv_pending s)" "TimerClosing t \<notin> set (uv_pending s)" using n by force+
  then have q: "uv_pending s1 = uv_pending s @ [TimerReq t ?ms]" "uv_pending s2 = uv_pending s @ [TimerClosing t]"
    by (simp_all add: s1_def s2_def uv_request_def remove1_append)
  have h: "h_tasks s1 = h_tasks s" "h_tasks s2 = h_tasks s" by (simp_all add: s1_def s2_def uv_request_def)
  have c3: "core (add_mset t {#}) (unpend (TimerClosing t) s2)" using unpend_core [OF c2, of "TimerClosing t"] q(2) by simp
  obtain s3 where s3: "Complete t 0 (unpend (TimerClosing t) s2) = Inr s3" "same_handles (unpend (TimerClosing t) s2) s3"
    "h_tasks s3 = done_with [t] 0 (h_tasks s)" using Complete_core [OF c3, of 0] h(2) by auto
  have "uv_pending s3 = uv_pending s" using same_handles_fields [OF s3(2)] q q1(2) by (simp add: remove1_append)
  moreover have "Dispatch env t s = Inr s1" using p(3) assms(2) by (simp add: Dispatch_def Dispatch_Timer_def s1_def)
  moreover have "fire (EvTimer t ?ms) s1 = Inr s2" using p(3) h(1) by (simp add: on_timer_def s2_def)
  ultimately show ?thesis using s3(1,3) q q1 h p(3)
    by (intro exI [of _ s1] exI [of _ s2] exI [of _ s3]) (simp add: on_timer_closed_def done_with_single)
qed

theorem timer_two_phases_witness:
  "\<exists>s1 s2. Dispatch (wenv 32) 16 (m2\<lparr>queue := []\<rparr>) = Inr s1 \<and> fire (EvTimer 16 250) s1 = Inr s2 \<and> enabled (EvTimerClosed 16) s2"
proof -
  have f: "fresh (wenv 32) m2" by (simp add: w1_def m2_def runtime_init_def fresh_def addr_used_def)
  have w: "queue m2 = [16]" "h_tasks m2 16 = Some timer_task" "t_op timer_task = Timer" "t_timeout_ms timer_task = 250"
    by (simp_all add: m2_def timer_task_def fresh_task_def Task_ctor_def)
  have "dispatch_pre (wenv 32) 16 timer_task {#} (m2\<lparr>queue := []\<rparr>)"
    using head_pre [OF reach_m2 w(1,2) wenv_ok f] by simp
  from timer_two_phases [OF this w(3)] show ?thesis unfolding w(4) by blast
qed

section \<open>Files\<close>

text \<open>The call each file operation asks libuv for, and what its answer puts into the task.\<close>

fun fs_call_of :: "addr \<Rightarrow> task \<Rightarrow> fs_call option" where
  "fs_call_of t tk = (case t_op tk of
       FsOpen \<Rightarrow> Some (UvFsOpen (t_path tk) (t_flags tk) (t_mode tk))
     | FsRead \<Rightarrow> Some (UvFsRead (t_fd tk) (task_data t tk) (t_nbytes tk) (t_offset tk))
     | FsWrite \<Rightarrow> Some (UvFsWrite (t_fd tk) (task_data t tk) (t_nbytes tk) (t_offset tk))
     | FsClose \<Rightarrow> Some (UvFsClose (t_fd tk))
     | FsStat \<Rightarrow> Some (UvFsStat (t_path tk))
     | FsMkdir \<Rightarrow> Some (UvFsMkdir (t_path tk) (t_mode tk))
     | FsRmdir \<Rightarrow> Some (UvFsRmdir (t_path tk))
     | FsUnlink \<Rightarrow> Some (UvFsUnlink (t_path tk))
     | FsRename \<Rightarrow> Some (UvFsRename (t_path tk) (t_new_path tk))
     | FsRealpath \<Rightarrow> Some (UvFsRealpath (t_path tk))
     | FsScandir \<Rightarrow> Some (UvFsScandir (t_path tk) 0)
     | _ \<Rightarrow> None)"

definition fs_answer :: "uv_fs_outcome \<Rightarrow> task \<Rightarrow> task" where
  "fs_answer q tk = (if t_op tk = FsRead then filled (fr_data q) tk else fs_result q tk)"

lemma Dispatch_file:
  assumes "h_tasks s t = Some tk" and "fs_call_of t tk = Some call"
  shows "Dispatch env t s = Inr (if uv_fs env call < 0 then s\<lparr>uv_refused := uv_refused s @ [(t, call)]\<rparr>
    else uv_request (FsReq t call) s)"
  using assms
  by (cases "t_op tk")
    (simp_all add: Dispatch_def Dispatch_FsOpen_def Dispatch_FsRead_def Dispatch_FsWrite_def Dispatch_FsClose_def
      Dispatch_FsStat_def Dispatch_FsMkdir_def Dispatch_FsRmdir_def Dispatch_FsUnlink_def Dispatch_FsRename_def
      Dispatch_FsRealpath_def Dispatch_FsScandir_def fs_start_def)

lemma deliver_file:
  assumes c: "core (add_mset t L) s" and t: "h_tasks s t = Some tk" and call: "fs_call_of t tk = Some call"
    and n: "t_op tk = FsRead \<Longrightarrow> t_ext_data tk = nullptr \<Longrightarrow> length (fr_data q) \<le> length (t_buffer tk)"
  shows "\<exists>s'. deliver_fs t call q s = Inr s' \<and> same_handles (s\<lparr>ext_mem := ext_mem s'\<rparr>) s'
    \<and> h_tasks s' = (h_tasks s)(t \<mapsto> completed (fr_result q) (fs_answer q tk))"
proof (cases "t_op tk = FsRead")
  case False
  then have "deliver_fs t call q s = on_fs_done t q s"
    using call by (cases "t_op tk") (auto simp: deliver_fs_def)
  then show ?thesis using on_fs_done_ok [OF c t, of q] False by (auto simp: fs_answer_def same_handles_def)
next
  case True
  then have k: "call = UvFsRead (t_fd tk) (task_data t tk) (t_nbytes tk) (t_offset tk)" using call by simp
  obtain e where f: "uv_fill (task_data t tk) (fr_data q) s
      = Inr (s\<lparr>h_tasks := (h_tasks s)(t \<mapsto> filled (fr_data q) tk), ext_mem := e\<rparr>)"
    "core (add_mset t L) (s\<lparr>h_tasks := (h_tasks s)(t \<mapsto> filled (fr_data q) tk), ext_mem := e\<rparr>)"
    using uv_fill_ok [OF c t, of "fr_data q"] n True by auto
  have "fs_result q (filled (fr_data q) tk) = filled (fr_data q) tk" using True by (simp add: fs_result_def)
  then show ?thesis
    using on_fs_done_ok [OF f(2), of "filled (fr_data q) tk" q] f(1) True
    by (auto simp: fs_answer_def deliver_fs_def k same_handles_def)
qed

text \<open>
  C12. The eleven file operations. The dispatch hands libuv exactly the call the operation
  stands for, with the parameters of the task; if libuv accepts it, its answer completes the
  task with its result, and the client then reads the bytes, the stat buffer, the string or
  the directory entries libuv delivered. But a call that libuv refuses at once leaves the
  task uncompleted and held by nothing, because the return value is not looked at: nothing
  changes but the history of refused calls.
\<close>

theorem file_requests:
  assumes "dispatch_pre env t tk {#} s" and "fs_call_of t tk = Some call"
    and "t_op tk = FsRead \<Longrightarrow> t_ext_data tk = nullptr \<Longrightarrow> length (fr_data q) \<le> length (t_buffer tk)"
  shows "(\<exists>s1 s2. (\<forall>env'. 0 \<le> uv_fs env' call \<longrightarrow> Dispatch env' t s = Inr s1)
      \<and> uv_pending s1 = uv_pending s @ [FsReq t call]
      \<and> fire (EvFs t call q) s1 = Inr s2 \<and> uv_pending s2 = uv_pending s
      \<and> h_tasks s2 = (h_tasks s)(t \<mapsto> completed (fr_result q) (fs_answer q tk))
      \<and> rt_await t s2 = Inr (Some (fr_result q))
      \<and> (t_op tk = FsRead \<longrightarrow> t_ext_data tk = nullptr \<longrightarrow> fr_result q = int (length (fr_data q))
          \<longrightarrow> length (fr_data q) = length dst \<longrightarrow> rt_read_into t dst 0 s2 = Inr (fr_data q))
      \<and> (t_op tk = FsStat \<longrightarrow> fr_result q = 0 \<longrightarrow> rt_stat_size t s2 = Inr (st_size (fr_statbuf q)))
      \<and> (t_op tk = FsRealpath \<longrightarrow> fr_result q = 0 \<longrightarrow> rt_str_result t s2 = Inr (fr_ptr q))
      \<and> (t_op tk = FsScandir \<longrightarrow> 0 \<le> fr_result q \<longrightarrow> t_names tk = []
          \<longrightarrow> (\<forall>i < length (fr_dirents q). rt_scandir_name t (int i) s2 = Inr (fr_dirents q ! i))))
    \<and> (\<forall>env'. uv_fs env' call < 0 \<longrightarrow>
        Dispatch env' t s = Inr (s\<lparr>uv_refused := uv_refused s @ [(t, call)]\<rparr>) \<and> t \<in> undone (h_tasks s) \<and> t \<notin># held s)"
proof -
  note p = dispatch_preD [OF assms(1)]
  have n: "FsReq t call \<notin> set (uv_pending s)" using baseD(1) [OF base_pre [OF assms(1)]] by force
  define s1 where "s1 = uv_request (FsReq t call) s"
  have d: "0 \<le> uv_fs env' call \<longrightarrow> Dispatch env' t s = Inr s1" for env'
    using Dispatch_file [OF p(3) assms(2), of env'] by (simp add: s1_def)
  have c1: "core {#} s1" unfolding s1_def by (rule uv_request_core(1) [OF p(1)]) simp
  have q1: "uv_pending s1 = uv_pending s @ [FsReq t call]" "h_tasks s1 = h_tasks s"
    by (simp_all add: s1_def uv_request_def)
  have c2: "core (add_mset t {#}) (unpend (FsReq t call) s1)" using unpend_core [OF c1, of "FsReq t call"] q1(1) by simp
  have t1: "h_tasks (unpend (FsReq t call) s1) t = Some tk" using p(3) q1(2) by simp
  let ?u = "unpend (FsReq t call) s1"
  have "\<exists>s'. deliver_fs t call q ?u = Inr s' \<and> same_handles (?u\<lparr>ext_mem := ext_mem s'\<rparr>) s'
      \<and> h_tasks s' = (h_tasks ?u)(t \<mapsto> completed (fr_result q) (fs_answer q tk))"
    by (rule deliver_file [OF c2 t1 assms(2)]) (rule assms(3))
  then obtain s2 where s2: "deliver_fs t call q ?u = Inr s2" "same_handles (?u\<lparr>ext_mem := ext_mem s2\<rparr>) s2"
    "h_tasks s2 = (h_tasks s)(t \<mapsto> completed (fr_result q) (fs_answer q tk))"
    using q1(2) by (elim exE conjE) simp
  have u: "uv_pending s2 = uv_pending s" using s2(2) q1(1) n by (simp add: same_handles_def unpend_def remove1_append)
  have t2: "h_tasks s2 t = Some (completed (fr_result q) (fs_answer q tk))" using s2(3) by simp
  have r: "uv_fs env' call < 0 \<Longrightarrow>
      Dispatch env' t s = Inr (s\<lparr>uv_refused := uv_refused s @ [(t, call)]\<rparr>) \<and> t \<in> undone (h_tasks s) \<and> t \<notin># held s" for env'
    using Dispatch_file [OF p(3) assms(2), of env'] core_unique(1) [OF p(1)] core_member_undone [OF p(1), of t] by simp
  have fi: "fire (EvFs t call q) s1 = Inr s2" using s2(1) by simp
  have aw: "rt_await t s2 = Inr (Some (fr_result q))"
    using t2 by (simp add: rt_await_def Wait_def completed_def)
  have rd: "rt_read_into t dst 0 s2 = Inr (fr_data q)"
    if "t_op tk = FsRead" "t_ext_data tk = nullptr" "fr_result q = int (length (fr_data q))" "length (fr_data q) = length dst"
    using t2 that assms(3) by (auto simp: rt_read_into_def completed_def fs_answer_def filled_def)
  have st: "rt_stat_size t s2 = Inr (st_size (fr_statbuf q))" if "t_op tk = FsStat" "fr_result q = 0"
    using t2 that by (simp add: rt_stat_size_def completed_def fs_answer_def fs_result_def)
  have rp: "rt_str_result t s2 = Inr (fr_ptr q)" if "t_op tk = FsRealpath" "fr_result q = 0"
    using t2 that by (simp add: rt_str_result_def completed_def fs_answer_def fs_result_def)
  have sd: "rt_scandir_name t (int i) s2 = Inr (fr_dirents q ! i)"
    if "t_op tk = FsScandir" "0 \<le> fr_result q" "t_names tk = []" "i < length (fr_dirents q)" for i
    using t2 that by (simp add: rt_scandir_name_def completed_def fs_answer_def fs_result_def)
  show ?thesis
    by (rule conjI, rule exI [of _ s1], rule exI [of _ s2], intro conjI impI allI)
      (fact q1(1) fi u s2(3) aw | rule d [rule_format], assumption | rule rd st rp sd, assumption+ | intro allI impI, erule r)+
qed

definition stat_task :: task where
  "stat_task = (fresh_task FsStat 0)\<lparr>t_path := ''a''\<rparr>"

definition f2 :: runtime where
  "f2 = w1\<lparr>h_tasks := [16 \<mapsto> stat_task], live := (\<lambda>_. 0)(CTask := 1), queue := [16], async_sent := True\<rparr>"

lemma run_f2: "exec (SubmitTask (wenv 16) FsStat 0 (\<lambda>tk. tk\<lparr>t_path := ''a''\<rparr>)) w1 = Inr f2"
  by (simp add: submit_eval w1_def f2_def runtime_init_def stat_task_def)

lemma reach_f2: "reachable f2"
  by (rule reach_step [OF reach_1 _ _ run_f2])
    (simp_all add: w1_def runtime_init_def fills_def can_submit_def fresh_task_def Task_ctor_def cq_alive_def ready_def)

theorem file_requests_witness:
  "\<exists>s1 s2. Dispatch (wenv 32) 16 (f2\<lparr>queue := []\<rparr>) = Inr s1 \<and> uv_pending s1 = [FsReq 16 (UvFsStat ''a'')]
    \<and> fire (EvFs 16 (UvFsStat ''a'') \<lparr>fr_result = 0, fr_statbuf = (t_statbuf stat_task)\<lparr>st_size := 9\<rparr>, fr_ptr = [], fr_dirents = [], fr_data = []\<rparr>) s1 = Inr s2
    \<and> rt_stat_size 16 s2 = Inr 9"
proof -
  let ?q = "\<lparr>fr_result = 0, fr_statbuf = (t_statbuf stat_task)\<lparr>st_size := 9\<rparr>, fr_ptr = [], fr_dirents = [], fr_data = []\<rparr>"
  have f: "fresh (wenv 32) f2" by (simp add: w1_def f2_def runtime_init_def fresh_def addr_used_def)
  have w: "queue f2 = [16]" "h_tasks f2 16 = Some stat_task" "t_op stat_task = FsStat"
    "fs_call_of 16 stat_task = Some (UvFsStat ''a'')" "uv_pending (f2\<lparr>queue := []\<rparr>) = []"
    by (simp_all add: f2_def stat_task_def fresh_task_def Task_ctor_def w1_def runtime_init_def)
  have pre: "dispatch_pre (wenv 32) 16 stat_task {#} (f2\<lparr>queue := []\<rparr>)"
    using head_pre [OF reach_f2 w(1,2) wenv_ok f] by simp
  have "0 \<le> uv_fs (wenv 32) (UvFsStat ''a'')" by (simp add: wenv_def)
  then show ?thesis using file_requests [OF pre w(4), of ?q] w(3,5) by fastforce
qed

section \<open>Completion queues\<close>

text \<open>Popping until nothing is left or \<open>n\<close> tasks came out.\<close>

fun try_pops :: "nat \<Rightarrow> addr \<Rightarrow> runtime \<Rightarrow> fault + addr list \<times> runtime" where
  "try_pops 0 q s = Inr ([], s)"
| "try_pops (Suc n) q s = sbind (rt_cq_try_pop q s) (\<lambda>(t, s1).
     if t = nullptr then Inr ([], s1)
     else sbind (try_pops n q s1) (\<lambda>(ts, s2). Inr (t # ts, s2)))"

lemma try_pops_queue:
  assumes "h_cqs s q = Some c" and "nullptr \<notin> set (cq_q c)"
  shows "try_pops n q s = Inr (fst (cq.pops n c), s\<lparr>h_cqs := (h_cqs s)(q \<mapsto> snd (cq.pops n c))\<rparr>)"
  using assms
proof (induction n arbitrary: s c)
  case 0
  then show ?case by (simp add: fun_upd_idem)
next
  case (Suc n)
  show ?case
  proof (cases "cq_q c")
    case Nil
    then have "CompletionQueue_pop c = None" by (simp add: cq.pop_None)
    then show ?thesis using Suc.prems(1) by (simp add: rt_cq_try_pop_def TryPop_def fun_upd_idem)
  next
    case (Cons t ts)
    let ?c = "c\<lparr>cq_q := ts\<rparr>" let ?s = "s\<lparr>h_cqs := (h_cqs s)(q \<mapsto> c\<lparr>cq_q := ts\<rparr>)\<rparr>"
    have p: "CompletionQueue_pop c = Some (t, ?c)" using Cons by (simp add: CompletionQueue_pop_def)
    have t: "t \<noteq> nullptr" "nullptr \<notin> set (cq_q ?c)" using Suc.prems(2) Cons by auto
    obtain us c2 where u: "cq.pops n ?c = (us, c2)" by fastforce
    have "h_cqs ?s q = Some ?c" by simp
    from Suc.IH [OF this t(2)] have "try_pops n q ?s = Inr (us, s\<lparr>h_cqs := (h_cqs s)(q \<mapsto> c2)\<rparr>)"
      by (simp add: u fun_upd_def cong: if_cong)
    moreover have "rt_cq_try_pop q s = Inr (t, ?s)" using Suc.prems(1) p by (simp add: rt_cq_try_pop_def TryPop_def)
    ultimately show ?thesis using t(1) p u by (simp add: fun_upd_def)
  qed
qed

lemma completes_post:
  assumes "core (mset ts + L) s" and "\<forall>t \<in> set ts. \<exists>tk. h_tasks s t = Some tk \<and> t_cq tk = q" and "q \<noteq> nullptr"
    and "h_cqs s q = Some c" and "int (length ts) < cq_refs c"
  shows "\<exists>s'. sfold (\<lambda>t. Complete t r) ts s = Inr s' \<and> core L s'
    \<and> h_cqs s' q = Some (c\<lparr>cq_q := cq_q c @ ts, cq_refs := cq_refs c - int (length ts)\<rparr>)"
  using assms
proof (induction ts arbitrary: s c)
  case Nil
  then show ?case by simp
next
  case (Cons t ts)
  have c: "core (add_mset t (mset ts + L)) s" using Cons.prems(1) by simp
  obtain tk where tk: "h_tasks s t = Some tk" "t_cq tk = q" using Cons.prems(2) by auto
  obtain s1 where s1: "Complete t r s = Inr s1" "core (mset ts + L) s1" "h_tasks s1 = done_with [t] r (h_tasks s)"
    using Complete_core [OF c, of r] by blast
  let ?c = "(CompletionQueue_Post t c)\<lparr>cq_refs := cq_refs c - 1\<rparr>"
  have q1: "h_cqs s1 q = Some ?c" using Complete_posts [OF tk(1), of c r] tk(2) Cons.prems(3-5) s1(1) by auto
  have "\<forall>u \<in> set ts. \<exists>tk. h_tasks s1 u = Some tk \<and> t_cq tk = q"
    using Cons.prems(2) by (fastforce simp: s1(3) done_with_def completed_def)
  from Cons.IH [OF s1(2) this Cons.prems(3) q1] show ?case
    using s1(1) Cons.prems(5) by (simp add: CompletionQueue_Post_def algebra_simps)
qed

text \<open>
  C38. A completion queue is first in, first out: tasks of the queue that complete one after
  the other come out once each, in the order of their completion and behind those that were
  there before; then it is empty.
\<close>

theorem completion_order:
  assumes "core (mset ts) s" and "\<forall>t \<in> set ts. \<exists>tk. h_tasks s t = Some tk \<and> t_cq tk = q" and "q \<noteq> nullptr"
    and "h_cqs s q = Some c" and "int (length ts) < cq_refs c" and "nullptr \<notin> set (cq_q c)"
  shows "\<exists>s' s''. sfold (\<lambda>t. Complete t r) ts s = Inr s'
    \<and> try_pops (length (cq_q c) + length ts) q s' = Inr (cq_q c @ ts, s'') \<and> rt_cq_try_pop q s'' = Inr (nullptr, s'')"
proof -
  obtain s' where s': "sfold (\<lambda>t. Complete t r) ts s = Inr s'"
    "h_cqs s' q = Some (c\<lparr>cq_q := cq_q c @ ts, cq_refs := cq_refs c - int (length ts)\<rparr>)"
    using completes_post [of ts "{#}" s q c r] assms(1-5) by auto
  let ?c = "c\<lparr>cq_q := cq_q c @ ts, cq_refs := cq_refs c - int (length ts)\<rparr>"
  let ?n = "length (cq_q c) + length ts"
  have "nullptr \<notin> set ts" using core_local_nonnull [of _ _ s] assms(1) by (metis insert_DiffM set_mset_mset)
  then have z: "nullptr \<notin> set (cq_q ?c)" using assms(6) by simp
  obtain us c' where u: "cq.pops ?n ?c = (us, c')" by fastforce
  have us: "us = cq_q c @ ts" "cq_q c' = []" using cq.pops_spec [OF u] by simp_all
  have "try_pops ?n q s' = Inr (us, s'\<lparr>h_cqs := (h_cqs s')(q \<mapsto> c')\<rparr>)" using try_pops_queue [OF s'(2) z, of ?n] u by simp
  moreover have "CompletionQueue_pop c' = None" using us(2) by (simp add: cq.pop_None)
  ultimately show ?thesis using s'(1) us(1)
    by (intro exI [of _ s'] exI [of _ "s'\<lparr>h_cqs := (h_cqs s')(q \<mapsto> c')\<rparr>"]) (simp add: rt_cq_try_pop_def TryPop_def)
qed

theorem completion_order_witness:
  "\<exists>s' s''. sfold (\<lambda>t. Complete t 4) [48] (w6\<lparr>queue := []\<rparr>) = Inr s' \<and> try_pops (Suc (Suc 0)) 8 s' = Inr ([16, 48], s'')"
proof -
  have w: "queue w6 = [48]" "h_tasks w6 48 = Some read_task" "t_cq read_task = 8"
    "h_cqs w6 8 = Some \<lparr>cq_q = [16], cq_refs = 2\<rparr>"
    by (simp_all add: w6_def read_task_def fresh_task_def Task_ctor_def)
  have "core (mset [48]) (w6\<lparr>queue := []\<rparr>)"
    using core_queue_upd [OF invD(1) [OF reachable_inv [OF reach_6]], of "[]" "mset [48]"] w(1) by simp
  from completion_order [OF this, of 8 "\<lparr>cq_q = [16], cq_refs = 2\<rparr>" 4] w show ?thesis by auto
qed

section \<open>Pinned buffers\<close>

lemma count_locks:
  assumes "finite (dom m)" and "a \<noteq> nullptr"
  shows "count (locks_of m) a = card {t. \<exists>tk. m t = Some tk \<and> t_pinned_obj tk = a}"
proof -
  have o: "count (opt_task b) a = (if b = a then 1 else 0)" for b using assms(2) by (simp add: opt_task_def)
  have "count (locks_of m) a = (\<Sum>t \<in> dom m. if t_pinned_obj (the (m t)) = a then 1 else 0)"
    by (simp add: locks_of_def msum_def count_sum o)
  also have "\<dots> = card {t \<in> dom m. t_pinned_obj (the (m t)) = a}"
    using assms(1) by (simp add: sum.If_cases Int_def)
  also have "{t \<in> dom m. t_pinned_obj (the (m t)) = a} = {t. \<exists>tk. m t = Some tk \<and> t_pinned_obj tk = a}" by force
  finally show ?thesis .
qed

text \<open>
  C39. Freeing. A completed task can be freed, once: a second call would use freed memory.
  At every moment a bytevector is locked as many times as there are task objects pinned to
  it, so it stays in place until the last of them is freed, and is unlocked then.
\<close>

theorem pinned_until_freed:
  assumes "reachable s" and "exit_code s = None" and "h_tasks s t = Some tk" and "t_done tk"
  shows "\<exists>s'. rt_task_free t s = Inr s' \<and> reachable s' \<and> rt_task_free t s' = Inl (UseAfterFree t)
    \<and> locked s = opt_task (t_pinned_obj tk) + locked s'
    \<and> (\<forall>a. a \<noteq> nullptr \<longrightarrow> count (locked s') a = card {u. \<exists>k. h_tasks s' u = Some k \<and> t_pinned_obj k = a})"
proof -
  obtain s' where s': "rt_task_free t s = Inr s'" "core {#} s'" "h_tasks s' = (h_tasks s)(t := None)"
    "locked s = opt_task (t_pinned_obj tk) + locked s'"
    using rt_task_free_ok [OF invD(1) [OF reachable_inv [OF assms(1)]] assms(3,4)] by blast
  have "reachable s'" by (rule reach_step [OF assms(1,2), of "FreeTask t"]) (use assms(3,4) s'(1) in simp_all)
  moreover have "rt_task_free t s' = Inl (UseAfterFree t)" using s'(3) by (simp add: rt_task_free_def)
  moreover have "count (locked s') a = card {u. \<exists>k. h_tasks s' u = Some k \<and> t_pinned_obj k = a}" if "a \<noteq> nullptr" for a
    using count_locks [OF core_finite(1) [OF s'(2)] that] s'(2) by (simp add: core_def)
  ultimately show ?thesis using s'(1,4) by blast
qed

theorem pinned_until_freed_witness: "\<exists>s'. rt_task_free 16 p7 = Inr s' \<and> reachable s' \<and> locked s' = {#1000#}"
proof -
  let ?tk = "completed 32 (connect_task\<lparr>t_stream := 32\<rparr>)"
  have "h_tasks p7 16 = Some ?tk" "t_done ?tk" "exit_code p7 = None" "t_pinned_obj ?tk = nullptr" "locked p7 = {#1000#}"
    by (simp_all add: p7_def p6_def w_defs runtime_init_def completed_def connect_task_def fresh_task_def Task_ctor_def)
  then show ?thesis using pinned_until_freed [OF reach_p7, of 16 ?tk] by (auto simp: opt_task_def)
qed

section \<open>Stopping\<close>

text \<open>
  C40. \<open>Stop\<close>, called with an empty submission queue, wakes the loop; the wake-up closes all
  the loop's own handles, whatever the settings, and from then on the loop ends, and the join
  in \<open>Stop\<close> returns, exactly if nothing of the client's keeps it alive: no request in
  flight, no stream reading or closing, no listener, no running or closing process and no watcher.
\<close>

theorem stop_returns_when_idle:
  assumes "reachable s" and "running s" and "queue s = []"
  shows "\<exists>s1 s2. rt_runtime_stop s = Inr s1 \<and> OnAsync envs s1 = Inr s2 \<and> \<not> running s2
    \<and> Stop_join s2 = (if loop_idle s then Some s2 else None)"
proof -
  have l: "async s = Active" "exit_on_signal s \<Longrightarrow> sig_int s = Active \<and> sig_term s = Active"
    "shutdown_timer_started s \<Longrightarrow> shutdown_timer s = Active"
    using invD(5) [OF reachable_inv [OF assms(1)]] assms(2) by (simp_all add: life_ok_def)
  have k: "\<not> exit_on_signal s \<Longrightarrow> sig_int s \<noteq> Active \<and> sig_term s \<noteq> Active"
    "\<not> shutdown_timer_started s \<Longrightarrow> shutdown_timer s \<noteq> Active"
    using reachable_armed [OF assms(1)] by (auto simp: armed_ok_def)
  define s1 where "s1 = s\<lparr>running := False, stopping := True, async_sent := True\<rparr>"
  let ?s0 = "s1\<lparr>async_sent := False, queue := []\<rparr>"
  have r: "rt_runtime_stop s = Inr s1" using assms(2) l(1) by (simp add: rt_runtime_stop_def Stop_def uv_async_send_def s1_def)
  have w: "wind_down ?s0 = Inr (?s0\<lparr>async := Closed,
      sig_int := (if exit_on_signal ?s0 then Closed else sig_int ?s0),
      sig_term := (if exit_on_signal ?s0 then Closed else sig_term ?s0),
      shutdown_timer := (if shutdown_timer_started ?s0 then Closed else shutdown_timer ?s0),
      shutdown_timer_started := False\<rparr>)" (is "_ = Inr ?s2")
    by (rule wind_down_ok) (use l in \<open>simp_all add: s1_def\<close>)
  have o: "OnAsync envs s1 = Inr ?s2" using w assms(3) by (simp add: OnAsync_def Drain_def s1_def)
  have "loop_idle ?s2 = loop_idle s" by (simp add: loop_idle_def s1_def)
  then have "uv_loop_alive ?s2 = (\<not> loop_idle s)" using k by (simp add: loop_alive_iff s1_def)
  moreover have "\<not> running ?s2" by (simp add: s1_def)
  ultimately show ?thesis using r o by (intro exI [of _ s1] exI [of _ ?s2]) (simp add: Stop_join_def)
qed

theorem stop_returns_when_idle_witness:
  "\<exists>s1 s2. rt_runtime_stop w1 = Inr s1 \<and> OnAsync (\<lambda>i. wenv 32) s1 = Inr s2 \<and> Stop_join s2 = Some s2"
proof -
  have "running w1" "queue w1 = []" "loop_idle w1" by (simp_all add: w1_def runtime_init_def loop_idle_def)
  then show ?thesis using stop_returns_when_idle [OF reach_1] by fastforce
qed

end
