(* ===== verification/Spec2Isabelle.thy ===== *)
theory Spec2Isabelle
  imports Progress Race Queue_Race Atomicity Stream_Theorems Server_Theorems Process_Theorems Request_Theorems
begin

text \<open>
  \<^bold>\<open>The task runtime of chez-async\<close> (\<^verbatim>\<open>src/native/runtime\<close>): a C++ library that runs libuv on a
  thread of its own and gives Scheme threads asynchronous files, sockets, processes, watchers,
  name lookups and timers. A client thread fills in a task object, submits it and is told of
  its completion through the task itself or through a completion queue; the loop thread
  takes the submitted tasks in batches, starts libuv requests for them or parks them at
  handles, and completes them from libuv's callbacks.

  \<^bold>\<open>The model.\<close> The state of the whole runtime is one record, \<open>runtime\<close> in \<open>Runtime_State\<close>: a
  heap (address to object) for each class, the submission queue, the flags and handles of the
  class \<open>Runtime\<close>, the live counters, the bytevectors locked, the memory behind pinned tasks,
  the requests libuv has in flight, and a history of the file requests it refused. Each
  operation of the code is a function on it that returns the new state or a \<open>fault\<close>: what the
  C++ program must never do (use a freed object, close a handle twice, read or write outside a
  buffer, overflow an integer, fail an assertion, throw). What libuv and the allocator return is a parameter, \<open>uv_env\<close>; what libuv may call back, and when, is the
  datatype \<open>uv_event\<close> with \<open>enabled\<close> and \<open>fire\<close> in \<open>Events\<close>. The theories, in the order of their
  imports:

  \<^item> \<open>Prelude\<close>: faults, sequencing (\<open>sbind\<close>, \<open>sfold\<close>), heaps, multisets of tasks held by objects.
  \<^item> \<open>Runtime_State\<close>: the data of \<^verbatim>\<open>task.hpp\<close>, \<^verbatim>\<open>net.hpp\<close>, \<^verbatim>\<open>runtime.hpp\<close>; \<open>uv_env\<close>.
  \<^item> \<open>Ownership\<close>: the ownership account \<open>core\<close> (each uncompleted task is held at one place, or is
    that of a refused file request, which the code drops; each
    queue has a reference per task routed to it; the counters and locks are exact) and the locale
    \<open>handle_heap\<close> of its rules, interpreted for the four classes of handles.
  \<^item> \<open>Completion\<close>: \<open>CompletionQueue\<close>, \<open>Task::Complete\<close>, \<open>Task::Wait\<close> (\<^verbatim>\<open>task.hpp\<close>); the
    locale \<open>completion_fifo\<close>.
  \<^item> \<open>Handles\<close>: \<open>LoopHandle::Close\<close> and \<open>OnClosed\<close> (\<^verbatim>\<open>net.hpp\<close>), once in the locale \<open>handle_close\<close>
    and for the four handle classes.
  \<^item> \<open>Streams\<close>, \<open>Listeners\<close>, \<open>Processes\<close>, \<open>Watchers\<close>, \<open>Requests\<close>: the callbacks of
    \<^verbatim>\<open>runtime.cpp\<close> and the cases of \<open>Runtime::Dispatch\<close>, each with its effect on every
    branch and the invariant of its objects.
  \<^item> \<open>Runtime_Loop\<close>: \<open>Dispatch\<close>, \<open>Drain\<close>, \<open>OnAsync\<close>, \<open>OnSignal\<close>, \<open>OnShutdownTimer\<close>, \<open>Start\<close>,
    \<open>Stop\<close>, \<open>Submit\<close> (\<^verbatim>\<open>runtime.cpp\<close>, \<^verbatim>\<open>runtime.hpp\<close>).
  \<^item> \<open>Ffi\<close>: every function of the C ABI (\<^verbatim>\<open>rt_ffi.cpp\<close>, \<^verbatim>\<open>rt_runtime.h\<close>), and \<open>pack-strings\<close> of
    \<^verbatim>\<open>io-proc.ss\<close>.
  \<^item> \<open>Discipline\<close>: what is asked of the client (a handle is used only while it is open, one wait at
    a time per process and none when it is closed, argument vectors as packed) and of the
    environment (\<open>env_ok\<close>: new addresses are unused and distinct, sets are iterated over their
    elements, address parsers return zero or an error, and \<open>init_ok\<close>: the initialiser of a
    standard descriptor's handle does not fail before it has initialised it), the structural
    invariant, the frames. Any other result of libuv is allowed.
  \<^item> \<open>Dispatching\<close>, \<open>Events\<close>, \<open>Client\<close>, \<open>Shutdown\<close>: preservation of the invariants by every
    dispatch, every callback, every call of the client and the signal handler.
  \<^item> \<open>System\<close>: the transition system of all actions and its reachable states. \<open>allowed\<close> leaves out
    the first signal while an accept is queued, because the program then faults (C27).
  \<^item> \<open>Lifecycle\<close>: the loop's own handles over starts and stops.
  \<^item> \<open>Refinement\<close>: the abstract task board and the simulation. \<open>Progress\<close>: completability.
  \<^item> \<open>Race\<close>, \<open>Queue_Race\<close>, \<open>Submission\<close>: the code that runs on several threads, statement by
    statement and in every interleaving: \<open>Complete\<close> with a waiting thread; a completion queue
    shared by \<open>Post\<close>, \<open>Release\<close> and its client; \<open>Submit\<close>, \<open>Drain\<close> and \<open>Stop\<close>.
  \<^item> \<open>Atomicity\<close>: an abstract machine of atomic submissions and drains, the locale
    \<open>implements_box\<close> of its implementations, and the interpretations on the interleaved
    statements of \<open>Submission\<close> and on the transition system of the whole runtime.
  \<^item> \<open>Scenario\<close>: concrete runs on which the theorems are instantiated.
  \<^item> \<open>Stream_Theorems\<close>, \<open>Server_Theorems\<close>, \<open>Process_Theorems\<close>, \<open>Request_Theorems\<close> and this theory:
    the properties C1 to C40.

  \<^bold>\<open>What is shown.\<close> For the runtime as a whole (here): no undefined behaviour in any
  reachable state (C1), exclusive ownership of tasks but those of refused file requests (C2),
  refinement of an abstract task board (C3), stability of results (C4), completability of every
  task that was not refused (C5), exactness of reference
  counts and counters (C6, C7), no lost wake-up (C8). For the threads: results, wake-ups and
  deadlock-freedom of completion against a waiter (C9), and the one interleaving that goes
  wrong, in which a directly awaited task is signalled after it was freed (C10, \<open>Race\<close>); the
  lifetime of a completion queue, which serves its tasks in the order libuv completes them,
  whatever that is (C11, \<open>Queue_Race\<close>); submission loses nothing and
  ends (C18, C26), a quiet stop is clean (C20), and a stop that is not quiet strands a task or
  sends to the closed async handle (C34, all in \<open>Submission\<close>, with and without \<open>NDEBUG\<close>); and submitting and draining are
  atomic, in the threads and in the whole runtime (C25, \<open>Atomicity\<close>). For the eleven file
  operations C12. For streams C13 to C17 and C19, for listeners and signals C21 to C24 and C27 (an accept
  that is queued when the signal arrives uses its listener after it was freed), for processes
  and watchers C28 to C33 and C35 (C32: a parked wait can be lost), for requests, completion
  queues, freeing and stopping C36 to C40.

  \<^bold>\<open>Threads.\<close> The members of \<open>Runtime\<close> that threads share are guarded by a mutex or atomic, and
  handles and parked tasks belong to the loop thread; so in the theories about the whole
  runtime an action (a call of the ABI, a wake-up, a callback) is one step. Blocking calls
  return \<open>None\<close> where the caller would still sleep; \<open>Stop\<close> is split at its join (\<open>Stop_join\<close>).
  What finer interleavings add is in \<open>Race\<close>, \<open>Queue_Race\<close> and \<open>Submission\<close>: they confirm the
  atomic view for queues and, as a theorem about both models (C25), for submissions, and
  show the two places where it hides a fault (C10, C34). The interleavings are sequentially
  consistent; what the threads share is under a mutex or in an atomic with acquire and release order.

  \<^bold>\<open>Bounds.\<close> No recursion needs fuel: the loops over the read queue and the accept queue are
  given the length of the queue, which each turn shortens by one, and \<open>read_end_reaches_all\<close>
  and \<open>signal_outcome\<close> show that nothing is left over. A dispatch allocates at most
  four objects, hence the four addresses of \<open>new_addrs\<close>. \<open>roomy\<close> in C5 asks for eight
  unused addresses per task, and eight more, out of \<open>2 ^ 64\<close>. The schedules of \<open>Submission\<close> and
  \<open>Queue_Race\<close> are bounded by measures that every statement decreases (50 statements a task and
  40 more; nine a call). 32-bit and 64-bit quantities are words;
  \<open>as_result\<close> is the conversion of a pointer to \<open>int64_t\<close>.

  \<^bold>\<open>Not modelled.\<close> libuv and the Chez Scheme kernel are parameters. The Scheme side
  (bindings, the fiber scheduler) apart from \<open>pack-strings\<close> is not C++ code of the runtime.
  \<open>rt_err_name\<close> and \<open>rt_err_str\<close> forward to libuv's string tables, which are their parameter.
  \<open>LoopMain\<close> is a call of \<open>uv_run\<close>, whose callbacks are the events. The destructor of \<open>Runtime\<close>,
  which detaches the thread at process exit, \<open>uv_loop_close\<close> after the join and the flush of C
  stdio before \<open>_Exit\<close> have no effect on the state. A failing allocation (\<open>std::bad_alloc\<close>) ends the program and is left out.
\<close>

section \<open>The runtime as a whole\<close>

text \<open>
  C1. No undefined behaviour. In every state the runtime can reach under the client's
  handle discipline and libuv's callback contract, every action that may happen next runs
  without a fault (no access to a freed object, no second \<open>uv_close\<close>, no buffer overrun,
  no failing assertion) and leads to a reachable state again. Two things that the code does
  not guard against are left out by \<open>allowed\<close>: a first signal while an accept is queued (C27
  has the fault), and a \<open>uv_tty_init\<close> or \<open>uv_pipe_init\<close> that fails without having
  initialised its handle (\<open>init_ok\<close>; the fault is \<open>stdio_closes_uninitialised\<close>).
\<close>

theorem reachable_safe:
  assumes "reachable s" and "exit_code s = None" and "allowed a s"
  shows "\<exists>s'. exec a s = Inr s' \<and> reachable s' \<and> inv s'"
proof -
  obtain s' where "exec a s = Inr s'" "inv s'"
    using exec_goes_on [OF reachable_inv [OF assms(1)] assms(3)] by (auto simp: goes_on_def)
  then show ?thesis using reach_step [OF assms] by blast
qed

theorem reachable_safe_witness:
  "reachable w7 \<and> allowed (Event (EvRead 32 [7, 8])) w7
    \<and> (\<exists>s'. exec (Event (EvRead 32 [7, 8])) w7 = Inr s' \<and> reachable s' \<and> inv s')"
proof -
  have "exit_code w7 = None" "allowed (Event (EvRead 32 [7, 8])) w7"
    by (simp_all add: w_defs runtime_init_def reading_in_def on_alloc_def read_task_def Stream_ctor_def)
  then show ?thesis using reachable_safe [OF reach_7, of "Event (EvRead 32 [7, 8])"] reach_7 by blast
qed

text \<open>
  C2. Every task that is not completed sits in exactly one place (the submission queue, a
  libuv request, the read queue of a stream, the accept queue of a listener, the wait slot of
  a process, the next slot of a watcher or the close slot of a closing handle) or else is the
  task of a file request that libuv refused when it was dispatched, once; a completed or freed
  task is in no place and its request was not refused. So under the client's discipline the
  refused file requests are the only tasks the runtime loses, and none is completed twice.
\<close>

theorem task_owned_once:
  assumes "reachable s"
  shows "count (held s) t + count (mset (map fst (uv_refused s))) t = (if t \<in> undone (h_tasks s) then 1 else 0)"
proof -
  have c: "core {#} s" using invD(1) [OF reachable_inv [OF assms]] .
  then have "count (held s + refused s) t = count (mset_set (undone (h_tasks s))) t" by (simp add: core_def)
  then show ?thesis using core_finite_undone [OF c] by (simp add: refused_def count_mset_set')
qed

theorem task_owned_once_witness: "48 \<in> undone (h_tasks w7) \<and> uv_refused w7 = [] \<and> count (held w7) 48 = 1"
proof -
  have "48 \<in> undone (h_tasks w7)" "uv_refused w7 = []"
    by (simp_all add: w_defs undone_def read_task_def fresh_task_def Task_ctor_def runtime_init_def)
  then show ?thesis using task_owned_once [OF reach_7, of 48] by simp
qed

text \<open>
  C3. Refinement: the runtime implements the abstract task board. Every action of the
  transition system, executed by the detailed definitions, is a step of the abstract
  machine on the boards: the loop thread only settles running tasks, submissions add one
  running task, \<open>rt_task_free\<close> removes a finished one, everything else changes nothing.
\<close>

theorem runtime_refines_board:
  assumes "reachable s" and "allowed a s" and "exec a s = Inr s'"
  shows "spec_step a (board s) (board s')"
  by (rule exec_sim [OF reachable_inv [OF assms(1)] assms(2,3)])

theorem runtime_refines_board_witness:
  "exec (Event (EvConnect 16 32 0)) w4 = Inr w5 \<and> board w4 16 = Some None \<and> board w5 16 = Some (Some 32)
    \<and> spec_step (Event (EvConnect 16 32 0)) (board w4) (board w5)"
proof -
  have "allowed (Event (EvConnect 16 32 0)) w4" by (simp add: w_defs)
  moreover have "board w4 16 = Some None" "board w5 16 = Some (Some 32)"
    by (simp_all add: board_def w_defs connect_task_def fresh_task_def Task_ctor_def)
  ultimately show ?thesis
    using runtime_refines_board [OF reach_4 _ run_connected] run_connected by blast
qed

text \<open>
  C4. Results are stable: a task that has completed with \<open>r\<close> still reads \<open>r\<close> after any run of
  the system in which the client does not free it.
\<close>

theorem result_stable:
  assumes "reachable s" and "run s as s'" and "FreeTask t \<notin> set as"
    and "h_tasks s t = Some tk" and "t_done tk"
  shows "rt_await t s' = Inr (Some (t_result tk))"
proof -
  have "board s t = Some (Some (t_result tk))" using assms(4,5) by (simp add: board_def)
  then have "board s' t = Some (Some (t_result tk))" by (rule run_result [OF assms(2,1) _ assms(3)])
  then obtain tk' where "h_tasks s' t = Some tk'" "t_done tk'" "t_result tk' = t_result tk"
    by (auto simp: board_def split: if_splits)
  then show ?thesis by (simp add: rt_await_def Wait_def)
qed

theorem result_stable_witness:
  "run w5 [SubmitTask (wenv 48) StreamRead 8
     (\<lambda>tk. tk\<lparr>t_stream := 32, t_nbytes := 4, t_buffer := [0, 0, 0, 0]\<rparr>)] w6
   \<and> rt_await 16 w6 = Inr (Some 32)"
proof -
  let ?a = "SubmitTask (wenv 48) StreamRead 8 (\<lambda>tk. tk\<lparr>t_stream := 32, t_nbytes := 4, t_buffer := [0, 0, 0, 0]\<rparr>)"
  have r: "run w5 [?a] w6" by (rule run_single [OF w5_running allowed_read run_read])
  have t: "h_tasks w5 16 = Some (completed 32 (connect_task\<lparr>t_stream := 32\<rparr>))" by (simp add: w_defs)
  show ?thesis using result_stable [OF reach_5 r _ t] r by simp
qed

text \<open>
  C5. No task hangs but those libuv refused. In every state of a process that has not exited,
  reached under the discipline of \<open>allowed\<close> (no use of a handle after its close is queued, at
  most one wait per process and none when it is closed, argument vectors as packed, no first
  signal while an accept is queued), every task but those of file requests that libuv refused
  can be completed, wherever it waits, by the loop thread and libuv alone: there is a run of the
  wake-up and of callbacks only, without any action of the client, after which it is completed.
  The address space must have room for the allocations on the way. C12, C27 and C32 show what
  goes wrong outside these conditions.
\<close>

theorem no_task_hangs:
  assumes "reachable s" and "exit_code s = None" and "roomy s" and "h_tasks s t = Some tk"
    and "t \<notin> fst ` set (uv_refused s)"
  shows "\<exists>as s' r. run s as s' \<and> (\<forall>a \<in> set as. by_loop a) \<and> board s' t = Some (Some r)"
  using task_completable [OF reachable_inv [OF assms(1)] assms(2-5)]
  by (fastforce simp: completable_def done_in_def board_def)

theorem no_task_hangs_witness:
  "h_tasks w7 48 = Some read_task \<and> (\<exists>as s' r. run w7 as s' \<and> (\<forall>a \<in> set as. by_loop a) \<and> board s' 48 = Some (Some r))"
proof -
  have t: "h_tasks w7 48 = Some read_task" by (simp add: w_defs)
  have "used w7 = {0, 32}" by (auto simp: used_def addr_used_def w_defs runtime_init_def)
  moreover have "dom (h_tasks w7) = {16, 48}" by (auto simp: w_defs)
  ultimately have "roomy w7" by (simp add: roomy_def)
  moreover have "48 \<notin> fst ` set (uv_refused w7)" by (simp add: w_defs runtime_init_def)
  ultimately show ?thesis using no_task_hangs [OF reach_7 w7_running _ t] t by blast
qed

text \<open>
  C6. Lifetime of completion queues: a queue has one reference for each uncompleted task
  routed to it and at most one more (its creator's), never none; and the queue an
  uncompleted task is routed to is alive, so posting never touches a freed queue.
\<close>

theorem queue_references:
  assumes "reachable s"
  shows "(\<forall>c. h_cqs s q = Some c \<longrightarrow> 0 < cq_refs c \<and> int (card (cq_users (h_tasks s) q)) \<le> cq_refs c
      \<and> cq_refs c \<le> int (card (cq_users (h_tasks s) q)) + 1)
    \<and> (\<forall>t tk. h_tasks s t = Some tk \<longrightarrow> \<not> t_done tk \<longrightarrow> t_cq tk \<noteq> nullptr \<longrightarrow> h_cqs s (t_cq tk) \<noteq> None)"
proof -
  have c: "core {#} s" using invD(1) [OF reachable_inv [OF assms]] .
  then have r: "refs_ok (h_tasks s) (h_cqs s)" and n: "h_cqs s nullptr = None"
    by (simp_all add: core_def heaps_ok_def heap_ok_def)
  have "h_cqs s (t_cq tk) \<noteq> None" if "h_tasks s t = Some tk" "\<not> t_done tk" "t_cq tk \<noteq> nullptr" for t tk
    using refs_ok_queue [OF r, of t "t_cq tk"] that by (fastforce simp: undone_def)
  then show ?thesis using r n by (cases "q = nullptr") (auto simp: refs_ok_def)
qed

theorem queue_references_witness:
  "h_cqs w7 8 = Some \<lparr>cq_q = [16], cq_refs = 2\<rparr> \<and> int (card (cq_users (h_tasks w7) 8)) \<le> 2
    \<and> 2 \<le> int (card (cq_users (h_tasks w7) 8)) + 1"
proof -
  have "h_cqs w7 8 = Some \<lparr>cq_q = [16], cq_refs = 2\<rparr>" by (simp add: w_defs)
  then show ?thesis using queue_references [OF reach_7, of 8] by simp
qed

text \<open>
  C7. Leak accounting: the live-instance counters the test layer reads are the numbers of
  objects alive, and the bytevectors locked are exactly those of the pinned tasks alive.
\<close>

theorem live_counters_exact:
  assumes "reachable s"
  shows "rt_debug_live_tasks s = int (card (dom (h_tasks s)))
    \<and> rt_debug_live_cqs s = int (card (dom (h_cqs s)))
    \<and> rt_debug_live_streams s = int (card (dom (h_streams s)))
    \<and> rt_debug_live_listeners s = int (card (dom (h_listeners s)))
    \<and> rt_debug_live_processes s = int (card (dom (h_processes s)))
    \<and> rt_debug_live_watchers s = int (card (dom (h_watchers s)))
    \<and> locked s = locks_of (h_tasks s)"
  using invD(1) [OF reachable_inv [OF assms]]
  by (simp add: core_def heaps_ok_def heap_ok_def rt_debug_live_tasks_def rt_debug_live_cqs_def
      rt_debug_live_streams_def rt_debug_live_listeners_def rt_debug_live_processes_def rt_debug_live_watchers_def)

theorem live_counters_exact_witness:
  "rt_debug_live_tasks w7 = 2 \<and> card (dom (h_tasks w7)) = 2"
proof -
  have "rt_debug_live_tasks w7 = 2" by (simp add: w_defs rt_debug_live_tasks_def)
  then show ?thesis using live_counters_exact [OF reach_7] by simp
qed

text \<open>
  C8. No lost wake-up: as long as a task is queued, the async handle is active and a wake-up
  is pending; the wake-up, in environments as in C1, takes the whole batch, after which each of
  its tasks is completed, held by a request or a handle, or the task of a file request that
  libuv refused; and if libuv accepts every file request, each is completed or held and no
  task is added to those refused.
\<close>

theorem wake_up_takes_batch:
  assumes "reachable s" and "queue s \<noteq> []" and "fresh_envs envs (length (queue s)) s"
  shows "async s = Active \<and> async_sent s
    \<and> (\<exists>s'. OnAsync envs s = Inr s' \<and> queue s' = []
        \<and> (\<forall>t \<in> set (queue s). \<exists>tk. h_tasks s' t = Some tk
              \<and> (t_done tk \<or> t \<in># held s' \<or> t \<in> fst ` set (uv_refused s')))
        \<and> ((\<forall>i call. 0 \<le> uv_fs (envs i) call) \<longrightarrow> uv_refused s' = uv_refused s
              \<and> (\<forall>t \<in> set (queue s). \<exists>tk. h_tasks s' t = Some tk \<and> (t_done tk \<or> t \<in># held s'))))"
proof -
  note i = reachable_inv [OF assms(1)]
  have l: "async s = Active" "async_sent s" using invD(5) [OF i] assms(2) by (simp_all add: life_ok_def)
  then have a: "allowed (Async envs) s" using assms(3) by simp
  obtain s' where s': "exec (Async envs) s = Inr s'" "inv s'" using exec_goes_on [OF i a] by (auto simp: goes_on_def)
  note m = Async_sim [OF i a s'(1)]
  note c = invD(1) [OF i] and c' = invD(1) [OF s'(2)]
  have old: "t \<notin># refused s" if "t \<in> set (queue s)" for t
  proof -
    have "count (held s) t \<noteq> 0" using that by (simp add: held_def)
    moreover have "count (held s) t + count (refused s) t \<le> 1" using core_refused_once [OF c, of t] by simp
    ultimately have "count (refused s) t = 0" by linarith
    then show ?thesis by (simp add: not_in_iff)
  qed
  have new: "\<exists>tk. h_tasks s' t = Some tk \<and> (t_done tk \<or> t \<in># held s' \<or> t \<in># refused s')" if "t \<in> set (queue s)" for t
  proof -
    have "t \<in> dom (h_tasks s)" using queue_undone [OF c that] undone_subset by blast
    then have "t \<in> dom (h_tasks s')" using m(1) by (simp add: settles_def dom_board)
    then obtain tk where tk: "h_tasks s' t = Some tk" by blast
    then show ?thesis using core_placed [OF c', of t] by (auto simp: undone_def)
  qed
  then have "\<forall>t \<in> set (queue s). \<exists>tk. h_tasks s' t = Some tk
      \<and> (t_done tk \<or> t \<in># held s' \<or> t \<in> fst ` set (uv_refused s'))" by (simp add: refused_def)
  moreover have "uv_refused s' = uv_refused s
      \<and> (\<forall>t \<in> set (queue s). \<exists>tk. h_tasks s' t = Some tk \<and> (t_done tk \<or> t \<in># held s'))"
    if "\<forall>i call. 0 \<le> uv_fs (envs i) call"
  proof -
    have u: "uv_refused s' = uv_refused s" by (rule m(5) [OF that])
    then have "refused s' = refused s" by (simp add: refused_def)
    then show ?thesis using new old u by fastforce
  qed
  ultimately show ?thesis using l s'(1) m(2) by auto
qed

theorem wake_up_takes_batch_witness:
  "queue w6 = [48] \<and> (\<exists>s'. OnAsync (\<lambda>i. wenv 64) w6 = Inr s' \<and> queue s' = [])"
proof -
  have "queue w6 = [48]" "fresh_envs (\<lambda>i. wenv 64) 1 w6"
    by (simp_all add: w_defs runtime_init_def fresh_envs_def wenv_ok fresh_def addr_used_def)
  then show ?thesis using wake_up_takes_batch [OF reach_6, of "\<lambda>i. wenv 64"] by auto
qed

end
